(* ===== verification/Prelude.thy ===== *)
theory Prelude
  imports Main "HOL-Library.Word"
begin

unbundle bit_operations_syntax

text \<open>
  Shared vocabulary of the development: the kernel's fixed-width integers as machine words,
  byte buffers as functions from an offset to a byte, string literals as byte lists, the
  little-endian fields of packed structures, and the word and buffer lemmas that the
  component theories use. The collection \<open>buf_simps\<close> holds the facts about reading a
  buffer after a write, \<open>word_nat\<close> the ones that move word arithmetic to \<open>nat\<close>.
\<close>

section \<open>Types\<close>

type_synonym u8 = "8 word"
type_synonym u16 = "16 word"
type_synonym u32 = "32 word"
type_synonym u64 = "64 word"

text \<open>
  A C object or a memory region is a function from byte offsets (or addresses) to bytes. A
  read outside the object is a read of whatever lies there; the lemmas state the bounds.
\<close>

type_synonym buf = "nat \<Rightarrow> u8"

named_theorems buf_simps
named_theorems word_nat

section \<open>String literals and C strings\<close>

definition cs :: "string \<Rightarrow> u8 list" where
  "cs s = map of_char s"

text \<open>The bytes before the first NUL: the C string held in a list of bytes.\<close>

definition cstring :: "u8 list \<Rightarrow> u8 list" where
  "cstring xs = takeWhile (\<lambda>c. c \<noteq> 0) xs"

lemma cs_simps [simp]: "cs [] = []" "cs (c # s) = of_char c # cs s"
  by (simp_all add: cs_def)

lemma cs_append: "cs (s @ t) = cs s @ cs t"
  by (simp add: cs_def)

lemma length_cs [simp]: "length (cs s) = length s"
  by (simp add: cs_def)

lemma cstring_no_nul [simp]: "0 \<notin> set (cstring xs)"
  using set_takeWhileD [of 0 "\<lambda>c. c \<noteq> 0" xs] by (auto simp: cstring_def)

lemma cstring_id: "0 \<notin> set xs \<Longrightarrow> cstring xs = xs"
  unfolding cstring_def by (rule takeWhile_eq_all_conv [THEN iffD2]) auto

lemma cstring_append_nul: "0 \<notin> set xs \<Longrightarrow> cstring (xs @ 0 # ys) = xs"
  unfolding cstring_def by (subst takeWhile_append2) auto

section \<open>Reading and writing a range of a buffer\<close>

definition bytes_at :: "buf \<Rightarrow> nat \<Rightarrow> nat \<Rightarrow> u8 list" where
  "bytes_at b off n = map b [off..<off + n]"

definition blit :: "buf \<Rightarrow> nat \<Rightarrow> u8 list \<Rightarrow> buf" where
  "blit b off xs = (\<lambda>i. if off \<le> i \<and> i < off + length xs then xs ! (i - off) else b i)"

lemma length_bytes_at [simp]: "length (bytes_at b off n) = n"
  by (simp add: bytes_at_def)

lemma nth_bytes_at [simp]: "i < n \<Longrightarrow> bytes_at b off n ! i = b (off + i)"
  by (simp add: bytes_at_def)

lemma bytes_at_0 [simp]: "bytes_at b off 0 = []"
  by (simp add: bytes_at_def)

lemma bytes_at_Suc: "bytes_at b off (Suc n) = b off # bytes_at b (Suc off) n"
  unfolding bytes_at_def by (subst upt_conv_Cons) auto

lemma bytes_at_add: "bytes_at b off (m + n) = bytes_at b off m @ bytes_at b (off + m) n"
  by (rule nth_equalityI) (auto simp: nth_append)

lemma bytes_at_cong: "(\<And>i. off \<le> i \<Longrightarrow> i < off + n \<Longrightarrow> b i = c i) \<Longrightarrow> bytes_at b off n = bytes_at c off n"
  by (simp add: bytes_at_def)

lemma blit_Nil [simp]: "blit b off [] = b"
  by (rule ext) (auto simp: blit_def)

lemma blit_same [buf_simps]: "blit b off xs i = xs ! (i - off)" if "off \<le> i" "i < off + length xs"
  using that by (simp add: blit_def)

lemma blit_other [buf_simps]: "blit b off xs i = b i" if "i < off \<or> off + length xs \<le> i"
  using that by (auto simp: blit_def)

lemma bytes_at_blit [buf_simps]: "n = length xs \<Longrightarrow> bytes_at (blit b off xs) off n = xs"
  by (rule nth_equalityI) (auto simp: blit_def)

lemma bytes_at_blit_other [buf_simps]:
  "off + n \<le> p \<or> p + length xs \<le> off \<Longrightarrow> bytes_at (blit b p xs) off n = bytes_at b off n"
  by (rule bytes_at_cong) (auto simp: blit_def)

lemma blit_bytes_at [simp]: "blit b off (bytes_at b off n) = b"
  by (rule ext) (auto simp: blit_def)

lemma blit_blit_same: "length xs = length ys \<Longrightarrow> blit (blit b off xs) off ys = blit b off ys"
  by (rule ext) (auto simp: blit_def)

lemma blit_Cons: "blit b off (x # xs) = blit (b(off := x)) (Suc off) xs"
  by (rule ext) (auto simp: blit_def nth_Cons')

section \<open>Little-endian fields of packed structures\<close>

definition get_u32 :: "buf \<Rightarrow> nat \<Rightarrow> u32" where
  "get_u32 b off =
     ucast (b off) OR push_bit 8 (ucast (b (off + 1)))
     OR push_bit 16 (ucast (b (off + 2))) OR push_bit 24 (ucast (b (off + 3)))"

definition bytes_u32 :: "u32 \<Rightarrow> u8 list" where
  "bytes_u32 w = [ucast w, ucast (drop_bit 8 w), ucast (drop_bit 16 w), ucast (drop_bit 24 w)]"

definition put_u32 :: "buf \<Rightarrow> nat \<Rightarrow> u32 \<Rightarrow> buf" where
  "put_u32 b off w = blit b off (bytes_u32 w)"

definition get_u16 :: "buf \<Rightarrow> nat \<Rightarrow> u16" where
  "get_u16 b off = ucast (b off) OR push_bit 8 (ucast (b (off + 1)))"

definition bytes_u16 :: "u16 \<Rightarrow> u8 list" where
  "bytes_u16 w = [ucast w, ucast (drop_bit 8 w)]"

definition put_u16 :: "buf \<Rightarrow> nat \<Rightarrow> u16 \<Rightarrow> buf" where
  "put_u16 b off w = blit b off (bytes_u16 w)"

definition get_u64 :: "buf \<Rightarrow> nat \<Rightarrow> u64" where
  "get_u64 b off = ucast (get_u32 b off) OR push_bit 32 (ucast (get_u32 b (off + 4)))"

definition put_u64 :: "buf \<Rightarrow> nat \<Rightarrow> u64 \<Rightarrow> buf" where
  "put_u64 b off w = put_u32 (put_u32 b off (ucast w)) (off + 4) (ucast (drop_bit 32 w))"

lemma length_bytes_u32 [simp]: "length (bytes_u32 w) = 4"
  by (simp add: bytes_u32_def)

lemma length_bytes_u16 [simp]: "length (bytes_u16 w) = 2"
  by (simp add: bytes_u16_def)

lemma join_bytes_u32:
  "ucast (ucast w :: u8) OR push_bit 8 (ucast (ucast (drop_bit 8 w) :: u8))
   OR push_bit 16 (ucast (ucast (drop_bit 16 w) :: u8))
   OR push_bit 24 (ucast (ucast (drop_bit 24 w) :: u8)) = (w :: u32)"
proof (rule bit_word_eqI)
  fix n assume "n < LENGTH(32)"
  then consider "n < 8" | "8 \<le> n" "n < 16" | "16 \<le> n" "n < 24" | "24 \<le> n" "n < 32"
    by (cases "n < 16"; cases "n < 8"; cases "n < 24") auto
  then show "bit (ucast (ucast w :: u8) OR push_bit 8 (ucast (ucast (drop_bit 8 w) :: u8))
    OR push_bit 16 (ucast (ucast (drop_bit 16 w) :: u8))
    OR push_bit 24 (ucast (ucast (drop_bit 24 w) :: u8)) :: u32) n = bit w n"
    by cases (auto simp: bit_simps)
qed

lemma join_bytes_u16:
  "ucast (ucast w :: u8) OR push_bit 8 (ucast (ucast (drop_bit 8 w) :: u8)) = (w :: u16)"
  by (rule bit_word_eqI) (auto simp: bit_simps)

lemma get_put_u32 [buf_simps]: "get_u32 (put_u32 b off w) off = w"
  by (simp add: get_u32_def put_u32_def blit_def bytes_u32_def numeral_2_eq_2 numeral_3_eq_3 join_bytes_u32)

lemma get_put_u32_other [buf_simps]:
  "off + 4 \<le> p \<or> p + 4 \<le> off \<Longrightarrow> get_u32 (put_u32 b p w) off = get_u32 b off"
  by (auto simp: get_u32_def put_u32_def blit_other)

lemma get_put_u16 [buf_simps]: "get_u16 (put_u16 b off w) off = w"
  by (simp add: get_u16_def put_u16_def blit_def bytes_u16_def join_bytes_u16)

lemma get_put_u64 [buf_simps]: "get_u64 (put_u64 b off w) off = w"
proof -
  have "ucast (ucast w :: u32) OR push_bit 32 (ucast (ucast (drop_bit 32 w) :: u32)) = w"
    by (rule bit_word_eqI) (auto simp: bit_simps)
  then show ?thesis by (simp add: get_u64_def put_u64_def get_put_u32 get_put_u32_other)
qed

lemma put_u64_other: "i < off \<or> off + 8 \<le> i \<Longrightarrow> put_u64 b off w i = b i"
  by (auto simp: put_u64_def put_u32_def blit_other)

section \<open>Words and natural numbers\<close>

lemma unat_bound: "unat (n :: 'a :: len word) < 2 ^ LENGTH('a)"
  by (rule unsigned_less)

lemma unat_plus_1 [word_nat]: "i < (n :: 'a :: len word) \<Longrightarrow> unat (i + 1) = unat i + 1"
proof -
  assume "i < n"
  then have "unat i + 1 < 2 ^ LENGTH('a)"
    using unat_bound [of n] unfolding word_less_nat_alt by linarith
  then show ?thesis by (simp add: unat_word_ariths)
qed

lemma word_less_unat [word_nat]: "(a :: 'a :: len word) < b \<longleftrightarrow> unat a < unat b"
  by (simp add: word_less_nat_alt)

lemma word_le_unat [word_nat]: "(a :: 'a :: len word) \<le> b \<longleftrightarrow> unat a \<le> unat b"
  by (simp add: word_le_nat_alt)

lemma unat_add_no_wrap [word_nat]:
  "unat a + unat b < 2 ^ LENGTH('a) \<Longrightarrow> unat (a + b) = unat a + unat (b :: 'a :: len word)"
  by (simp add: unat_word_ariths)

lemma unat_mult_small: "unat (a :: u64) * unat b < 2 ^ 64 \<Longrightarrow> unat (a * b) = unat a * unat b"
  by (simp add: unat_word_ariths)

lemma unat_sub_no_wrap [word_nat]:
  "b \<le> a \<Longrightarrow> unat (a - b) = unat a - unat (b :: 'a :: len word)"
  by (rule unat_sub)

lemma loop_term [termination_simp]: "i < (n :: 'a :: len word) \<Longrightarrow> unat n - unat (i + 1) < unat n - unat i"
  by (simp add: unat_plus_1 word_less_nat_alt)

lemma word_le_Suc_iff: "i < n \<Longrightarrow> i \<le> j \<longleftrightarrow> j = i \<or> i + 1 \<le> (j :: 'a :: len word)"
  by (auto simp: word_le_nat_alt unat_plus_1 Suc_le_eq nat_less_le word_unat_eq_iff)

lemma finite_word_set [simp]: "finite (A :: 'a :: len word set)"
  by (rule finite_subset [OF subset_UNIV]) simp

lemma card_words_below: "card {..<n :: 'a :: len word} = unat n"
proof -
  have "unat ` {..<n} = {..<unat n}"
  proof (intro equalityI subsetI)
    fix m assume "m \<in> {..<unat n}"
    moreover from this have "m < 2 ^ LENGTH('a)" using unat_bound [of n] by (simp add: less_trans)
    ultimately show "m \<in> unat ` {..<n}"
      by (intro image_eqI [of _ _ "of_nat m"]) (simp_all add: word_less_nat_alt unat_of_nat take_bit_nat_eq_self)
  qed (auto simp: word_less_nat_alt)
  moreover have "card (unat ` {..<n}) = card {..<n}" by (rule card_image) (simp add: inj_on_def word_unat_eq_iff)
  ultimately show ?thesis by simp
qed

lemma card_word_range: "card {x. \<exists>j. j < n \<and> x = k + j} = unat (n :: 'a :: len word)"
proof -
  have "{x. \<exists>j. j < n \<and> x = k + j} = (+) k ` {..<n}" by auto
  then show ?thesis using card_words_below [of n] by (simp add: card_image)
qed

end
