(* ===== verification/Pmm.thy ===== *)
theory Pmm
  imports Prelude
begin

text \<open>
  kernel/src/mm/pmm.c: the physical page allocator. Its state is the module's static
  variables; the bitmap is the byte array the boot memory map made room for, indexed as the
  code indexes it. Page 4096-byte frames are numbered by \<open>u64\<close>. The abstraction is the set
  \<open>free_set\<close> of free page numbers, and \<open>pmm_wf\<close> is the invariant that ties the counter and
  the scan hint to it.
\<close>

section \<open>The bit array interface\<close>

text \<open>
  Both the page bitmap and the sector bitmap of the file system are arrays of bits with these
  two laws. The lemmas inside hold for either.
\<close>

locale bit_array =
  fixes bset :: "'b \<Rightarrow> 'i \<Rightarrow> 'b"
    and bclear :: "'b \<Rightarrow> 'i \<Rightarrow> 'b"
    and btest :: "'b \<Rightarrow> 'i \<Rightarrow> bool"
  assumes test_set: "btest (bset b i) j \<longleftrightarrow> j = i \<or> btest b j"
    and test_clear: "btest (bclear b i) j \<longleftrightarrow> j \<noteq> i \<and> btest b j"
begin

lemma test_set_all: "btest (fold (\<lambda>i b. bset b i) is b) j \<longleftrightarrow> j \<in> set is \<or> btest b j"
  by (induction "is" arbitrary: b) (auto simp: test_set)

lemma test_clear_all: "btest (fold (\<lambda>i b. bclear b i) is b) j \<longleftrightarrow> j \<notin> set is \<and> btest b j"
  by (induction "is" arbitrary: b) (auto simp: test_clear)

lemma clear_set_test: "\<not> btest b i \<Longrightarrow> btest (bclear (bset b i) i) = btest b"
  by (rule ext) (auto simp: test_set test_clear)

lemma zeros_set: "{j \<in> A. \<not> btest (bset b i) j} = {j \<in> A. \<not> btest b j} - {i}"
  by (auto simp: test_set)

lemma zeros_clear: "i \<in> A \<Longrightarrow> {j \<in> A. \<not> btest (bclear b i) j} = insert i {j \<in> A. \<not> btest b j}"
  by (auto simp: test_clear)

end

section \<open>State and bitmap\<close>

definition PMM_PAGE_SIZE :: u64 where
  "PMM_PAGE_SIZE = 4096"

record pmm =
  bitmap :: "u64 \<Rightarrow> u8"
  total_pages :: u64
  free_pages_c :: u64
  hhdm :: u64
  scan_hint :: u64

definition bitmap_set :: "(u64 \<Rightarrow> u8) \<Rightarrow> u64 \<Rightarrow> (u64 \<Rightarrow> u8)" where
  "bitmap_set bm idx =
     bm(idx div 8 := bm (idx div 8) OR ucast (push_bit (unat (idx mod 8)) (1 :: u32)))"

definition bitmap_clear :: "(u64 \<Rightarrow> u8) \<Rightarrow> u64 \<Rightarrow> (u64 \<Rightarrow> u8)" where
  "bitmap_clear bm idx =
     bm(idx div 8 := bm (idx div 8) AND ucast (NOT (push_bit (unat (idx mod 8)) (1 :: u32))))"

definition bitmap_test :: "(u64 \<Rightarrow> u8) \<Rightarrow> u64 \<Rightarrow> bool" where
  "bitmap_test bm idx \<longleftrightarrow> drop_bit (unat (idx mod 8)) (bm (idx div 8)) AND 1 \<noteq> 0"

lemma bitmap_test_bit: "bitmap_test bm idx \<longleftrightarrow> bit (bm (idx div 8)) (unat (idx mod 8))"
  by (simp add: bitmap_test_def and_one_eq odd_iff_mod_2_eq_one [symmetric] bit_iff_odd_drop_bit)

lemma mod_8_less: "unat (i mod 8 :: u64) < 8"
  by (simp add: unat_mod)

lemma same_byte_eq: "i div 8 = j div 8 \<Longrightarrow> unat (i mod 8) = unat (j mod 8) \<Longrightarrow> i = (j :: u64)"
proof -
  assume d: "i div 8 = j div 8" and "unat (i mod 8) = unat (j mod 8)"
  then have m: "i mod 8 = j mod 8" by (simp add: word_unat_eq_iff)
  have "i = i div 8 * 8 + i mod 8" by (rule div_mult_mod_eq [symmetric])
  also have "\<dots> = j" unfolding d m by (rule div_mult_mod_eq)
  finally show ?thesis .
qed

lemma mask_bit: "m < 8 \<Longrightarrow> bit (ucast (push_bit k (1 :: u32)) :: u8) m \<longleftrightarrow> m = k"
  by (auto simp: bit_simps)

lemma mask_not_bit: "m < 8 \<Longrightarrow> bit (ucast (NOT (push_bit k (1 :: u32))) :: u8) m \<longleftrightarrow> m \<noteq> k"
  by (auto simp: bit_simps)

lemma bitmap_test_set: "bitmap_test (bitmap_set b i) j \<longleftrightarrow> j = i \<or> bitmap_test b j"
proof (cases "j div 8 = i div 8")
  case True
  then show ?thesis
    unfolding bitmap_test_bit bitmap_set_def fun_upd_apply bit_or_iff if_P [OF True]
      mask_bit [OF mod_8_less] using same_byte_eq [of j i] by auto
next
  case False
  then show ?thesis by (auto simp: bitmap_test_bit bitmap_set_def)
qed

lemma bitmap_test_clear: "bitmap_test (bitmap_clear b i) j \<longleftrightarrow> j \<noteq> i \<and> bitmap_test b j"
proof (cases "j div 8 = i div 8")
  case True
  then show ?thesis
    unfolding bitmap_test_bit bitmap_clear_def fun_upd_apply bit_and_iff if_P [OF True]
      mask_not_bit [OF mod_8_less] using same_byte_eq [of j i] by auto
next
  case False
  then show ?thesis by (auto simp: bitmap_test_bit bitmap_clear_def)
qed

interpretation page_bits: bit_array bitmap_set bitmap_clear bitmap_test
  by unfold_locales (rule bitmap_test_set bitmap_test_clear)+

section \<open>Allocating one page\<close>

function scan_free :: "(u64 \<Rightarrow> u8) \<Rightarrow> u64 \<Rightarrow> u64 \<Rightarrow> u64 option" where
  "scan_free bm i lim =
     (if i < lim then if \<not> bitmap_test bm i then Some i else scan_free bm (i + 1) lim
      else None)"
  by pat_completeness auto
termination
  by (relation "measure (\<lambda>(bm, i, lim). unat lim - unat i)") (auto simp: loop_term)

declare scan_free.simps [simp del]

definition take_page :: "pmm \<Rightarrow> u64 \<Rightarrow> pmm \<times> u64" where
  "take_page s i =
     (s\<lparr>bitmap := bitmap_set (bitmap s) i, free_pages_c := free_pages_c s - 1,
        scan_hint := i + 1\<rparr>, i * PMM_PAGE_SIZE)"

definition pmm_alloc_page :: "pmm \<Rightarrow> pmm \<times> u64" where
  "pmm_alloc_page s =
     (case scan_free (bitmap s) (scan_hint s) (total_pages s) of
        Some i \<Rightarrow> take_page s i
      | None \<Rightarrow>
          (case scan_free (bitmap s) 0 (min (scan_hint s) (total_pages s)) of
             Some i \<Rightarrow> take_page s i
           | None \<Rightarrow> (s, 0)))"

section \<open>Allocating a run of pages\<close>

function free_run :: "(u64 \<Rightarrow> u8) \<Rightarrow> u64 \<Rightarrow> u64 \<Rightarrow> u64 \<Rightarrow> u64" where
  "free_run bm start count j =
     (if j < count \<and> \<not> bitmap_test bm (start + j) then free_run bm start count (j + 1) else j)"
  by pat_completeness auto
termination
  by (relation "measure (\<lambda>(bm, start, count, j). unat count - unat j)") (auto simp: loop_term)

declare free_run.simps [simp del]

function set_run :: "(u64 \<Rightarrow> u8) \<Rightarrow> u64 \<Rightarrow> u64 \<Rightarrow> u64 \<Rightarrow> (u64 \<Rightarrow> u8)" where
  "set_run bm start count k =
     (if k < count then set_run (bitmap_set bm (start + k)) start count (k + 1) else bm)"
  by pat_completeness auto
termination
  by (relation "measure (\<lambda>(bm, start, count, k). unat count - unat k)") (auto simp: loop_term)

declare set_run.simps [simp del]

text \<open>
  On arbitrary words the search loop of \<open>pmm_alloc_pages\<close> could wrap around, so it is a
  partial function; \<open>pmm_alloc_pages_first_fit\<close> shows that it returns on every
  well-formed state.
\<close>

partial_function (option) alloc_pages_loop :: "pmm \<Rightarrow> u64 \<Rightarrow> u64 \<Rightarrow> (pmm \<times> u64) option" where
  "alloc_pages_loop s count start =
     (if start + count \<le> total_pages s then
        let j = free_run (bitmap s) start count 0 in
        if j = count then
          Some (s\<lparr>bitmap := set_run (bitmap s) start count 0,
                  free_pages_c := free_pages_c s - count\<rparr>, start * PMM_PAGE_SIZE)
        else alloc_pages_loop s count (start + j + 1)
      else Some (s, 0))"

definition pmm_alloc_pages :: "pmm \<Rightarrow> u64 \<Rightarrow> (pmm \<times> u64) option" where
  "pmm_alloc_pages s count =
     (if count = 0 \<or> total_pages s < count then Some (s, 0) else alloc_pages_loop s count 0)"

section \<open>Freeing\<close>

definition pmm_free_page :: "pmm \<Rightarrow> u64 \<Rightarrow> pmm" where
  "pmm_free_page s phys_addr =
     (let idx = phys_addr div PMM_PAGE_SIZE in
      if total_pages s \<le> idx then s
      else if bitmap_test (bitmap s) idx then
        s\<lparr>bitmap := bitmap_clear (bitmap s) idx, free_pages_c := free_pages_c s + 1,
          scan_hint := (if idx < scan_hint s then idx else scan_hint s)\<rparr>
      else s)"

function free_pages_loop :: "pmm \<Rightarrow> u64 \<Rightarrow> u64 \<Rightarrow> u64 \<Rightarrow> pmm" where
  "free_pages_loop s start count i =
     (if i < count
      then free_pages_loop (pmm_free_page s ((start + i) * PMM_PAGE_SIZE)) start count (i + 1)
      else s)"
  by pat_completeness auto
termination
  by (relation "measure (\<lambda>(s, start, count, i). unat count - unat i)") (auto simp: loop_term)

declare free_pages_loop.simps [simp del]

definition pmm_free_pages :: "pmm \<Rightarrow> u64 \<Rightarrow> u64 \<Rightarrow> pmm" where
  "pmm_free_pages s phys_addr count = free_pages_loop s (phys_addr div PMM_PAGE_SIZE) count 0"

definition pmm_total_pages :: "pmm \<Rightarrow> u64" where
  "pmm_total_pages s = total_pages s"

definition pmm_free_pages_count :: "pmm \<Rightarrow> u64" where
  "pmm_free_pages_count s = free_pages_c s"

section \<open>The loops\<close>

lemma scan_free_None:
  "scan_free bm i lim = None \<longleftrightarrow> (\<forall>j. i \<le> j \<and> j < lim \<longrightarrow> bitmap_test bm j)"
proof (induction bm i lim rule: scan_free.induct)
  case (1 bm i lim)
  show ?case
  proof (cases "i < lim")
    case True
    with 1 show ?thesis
      by (subst scan_free.simps) (auto simp: word_le_Suc_iff [OF True])
  next
    case False
    then show ?thesis by (subst scan_free.simps) auto
  qed
qed

lemma scan_free_Some:
  "scan_free bm i lim = Some k \<Longrightarrow>
   i \<le> k \<and> k < lim \<and> \<not> bitmap_test bm k \<and> (\<forall>j. i \<le> j \<and> j < k \<longrightarrow> bitmap_test bm j)"
proof (induction bm i lim rule: scan_free.induct)
  case (1 bm i lim)
  then have lt: "i < lim" by (subst (asm) (2) scan_free.simps) (auto split: if_splits)
  show ?case
  proof (cases "bitmap_test bm i")
    case True
    with 1 lt show ?thesis
      by (subst (asm) (2) scan_free.simps) (auto simp: word_le_Suc_iff [OF lt])
  next
    case False
    with 1 lt show ?thesis by (subst (asm) (2) scan_free.simps) auto
  qed
qed

lemma free_run_spec:
  "j \<le> count \<Longrightarrow>
   (let r = free_run bm start count j in
    j \<le> r \<and> r \<le> count \<and> (\<forall>k. j \<le> k \<and> k < r \<longrightarrow> \<not> bitmap_test bm (start + k))
    \<and> (r < count \<longrightarrow> bitmap_test bm (start + r)))"
proof (induction bm start count j rule: free_run.induct)
  case (1 bm start count j)
  show ?case
  proof (cases "j < count \<and> \<not> bitmap_test bm (start + j)")
    case True
    then have lt: "j < count" by simp
    have le: "j + 1 \<le> count" using lt by (simp add: word_nat)
    show ?thesis
      using 1 True le word_le_Suc_iff [OF lt]
      by (subst free_run.simps) (auto simp: Let_def)
  next
    case False
    with 1(2) show ?thesis by (subst free_run.simps) (auto simp: Let_def)
  qed
qed

lemma set_run_test:
  "bitmap_test (set_run bm start count k) x \<longleftrightarrow>
   (\<exists>j. k \<le> j \<and> j < count \<and> x = start + j) \<or> bitmap_test bm x"
proof (induction bm start count k rule: set_run.induct)
  case (1 bm start count k)
  show ?case
  proof (cases "k < count")
    case True
    with 1 show ?thesis
      by (subst set_run.simps) (auto simp: bitmap_test_set word_le_Suc_iff [OF True])
  next
    case False
    then show ?thesis by (subst set_run.simps) auto
  qed
qed

section \<open>The abstraction and the invariant\<close>

definition free_set :: "pmm \<Rightarrow> u64 set" where
  "free_set s = {i. i < total_pages s \<and> \<not> bitmap_test (bitmap s) i}"

text \<open>
  The free counter counts the free pages, no page below the scan hint is free, and there are
  few enough pages that page addresses and sums of page numbers do not wrap.
\<close>

definition pmm_wf :: "pmm \<Rightarrow> bool" where
  "pmm_wf s \<longleftrightarrow> total_pages s \<le> 2 ^ 52 \<and> free_pages_c s = of_nat (card (free_set s))
     \<and> scan_hint s \<le> total_pages s \<and> (\<forall>i < scan_hint s. bitmap_test (bitmap s) i)"

lemma free_set_take:
  "i \<in> free_set s \<Longrightarrow> free_set (fst (take_page s i)) = free_set s - {i}"
  by (auto simp: free_set_def take_page_def bitmap_test_set)

lemma pmm_alloc_page_wf:
  assumes "pmm_wf s"
  shows "pmm_alloc_page s =
    (if free_set s = {} then (s, 0) else take_page s (Min (free_set s)))"
proof -
  have below: "scan_hint s \<le> i" if "i \<in> free_set s" for i
    using assms that by (auto simp: pmm_wf_def free_set_def not_less [symmetric])
  show ?thesis
  proof (cases "scan_free (bitmap s) (scan_hint s) (total_pages s)")
    case None
    then have "free_set s = {}"
      using below by (auto simp: scan_free_None free_set_def)
    moreover from this have "scan_free (bitmap s) 0 (min (scan_hint s) (total_pages s)) = None"
      by (auto simp: scan_free_None free_set_def)
    ultimately show ?thesis using None by (simp add: pmm_alloc_page_def)
  next
    case (Some i)
    from scan_free_Some [OF this] have "i \<in> free_set s"
      and "\<forall>j. scan_hint s \<le> j \<and> j < i \<longrightarrow> bitmap_test (bitmap s) j"
      by (auto simp: free_set_def)
    moreover from this below have "\<forall>j \<in> free_set s. i \<le> j"
      by (auto simp: free_set_def not_less [symmetric])
    ultimately have "Min (free_set s) = i" "free_set s \<noteq> {}"
      by (auto intro: Min_eqI)
    with Some show ?thesis by (simp add: pmm_alloc_page_def)
  qed
qed

lemma take_page_wf:
  assumes "pmm_wf s" and "free_set s \<noteq> {}"
  shows "pmm_wf (fst (take_page s (Min (free_set s))))"
proof -
  let ?i = "Min (free_set s)" and ?s = "fst (take_page s (Min (free_set s)))"
  from assms(2) have i: "?i \<in> free_set s" by simp
  then have lt: "?i < total_pages s" by (simp add: free_set_def)
  have "card (free_set s) = Suc (card (free_set s - {?i}))"
    using i by (metis card_Suc_Diff1 finite_word_set)
  then have "free_pages_c s - 1 = of_nat (card (free_set ?s))"
    using assms(1) by (simp add: free_set_take [OF i] pmm_wf_def)
  moreover have "bitmap_test (bitmap s) j" if "j < ?i" for j
  proof (rule ccontr)
    assume "\<not> bitmap_test (bitmap s) j"
    with that lt have "j \<in> free_set s" by (auto simp: free_set_def)
    then have "?i \<le> j" by simp
    with that show False by simp
  qed
  then have "\<forall>j < ?i + 1. bitmap_test (bitmap_set (bitmap s) ?i) j"
    using word_le_Suc_iff [OF lt] by (auto simp: bitmap_test_set not_le [symmetric])
  moreover have "?i + 1 \<le> total_pages s" using lt by (simp add: word_nat)
  ultimately show ?thesis using assms(1) by (simp add: pmm_wf_def take_page_def)
qed

section \<open>Runs of pages\<close>

text \<open>\<open>run s n k\<close>: the \<open>n\<close> pages from \<open>k\<close> on exist and are free.\<close>

definition run :: "pmm \<Rightarrow> u64 \<Rightarrow> u64 \<Rightarrow> bool" where
  "run s count k \<longleftrightarrow> unat k + unat count \<le> unat (total_pages s)
     \<and> (\<forall>j < count. \<not> bitmap_test (bitmap s) (k + j))"

definition take_run :: "pmm \<Rightarrow> u64 \<Rightarrow> u64 \<Rightarrow> pmm" where
  "take_run s count k =
     s\<lparr>bitmap := set_run (bitmap s) k count 0, free_pages_c := free_pages_c s - count\<rparr>"

lemma unat_52: "n \<le> (2 ^ 52 :: u64) \<Longrightarrow> unat n \<le> 2 ^ 52"
  by (simp add: word_le_nat_alt)

lemma run_blocked:
  assumes "bitmap_test (bitmap s) (start + j)" and "j < count"
    and "start \<le> k" and "k \<le> start + j" and "unat start + unat j < 2 ^ 64"
  shows "\<not> run s count k"
proof
  assume r: "run s count k"
  from assms(5) have "unat (start + j) = unat start + unat j" by (simp add: unat_add_no_wrap)
  with assms(3,4) have "unat (start + j - k) \<le> unat j"
    by (simp add: unat_sub_no_wrap word_le_nat_alt)
  with assms(2) have "start + j - k < count" by (simp add: word_less_nat_alt)
  moreover have "k + (start + j - k) = start + j" by simp
  ultimately show False using assms(1) r unfolding run_def by metis
qed

lemma alloc_pages_loop_spec:
  assumes total: "total_pages s \<le> 2 ^ 52" and "0 < count" and "count \<le> total_pages s"
  shows "start \<le> total_pages s \<Longrightarrow>
    (if \<exists>k \<ge> start. run s count k
     then \<exists>k \<ge> start. run s count k \<and> (\<forall>k'. start \<le> k' \<and> k' < k \<longrightarrow> \<not> run s count k')
       \<and> alloc_pages_loop s count start = Some (take_run s count k, k * PMM_PAGE_SIZE)
     else alloc_pages_loop s count start = Some (s, 0))"
    (is "_ \<Longrightarrow> ?P start")
proof (induction "unat (total_pages s) - unat start" arbitrary: start rule: less_induct)
  case less
  let ?T = "total_pages s" and ?j = "free_run (bitmap s) start count 0"
  have T: "unat ?T \<le> 2 ^ 52" using total by (rule unat_52)
  have le: "unat start \<le> unat ?T" "unat count \<le> unat ?T"
    using less.prems assms(3) by (simp_all add: word_le_nat_alt)
  have sum: "unat (start + count) = unat start + unat count"
    using T le by (intro unat_add_no_wrap) simp
  have j: "?j \<le> count" "\<And>k. k < ?j \<Longrightarrow> \<not> bitmap_test (bitmap s) (start + k)"
    "?j < count \<Longrightarrow> bitmap_test (bitmap s) (start + ?j)"
    using free_run_spec [of 0 count "bitmap s" start] by (auto simp: Let_def)
  consider (stop) "\<not> start + count \<le> ?T" | (found) "start + count \<le> ?T" "?j = count"
    | (skip) "start + count \<le> ?T" "?j < count" using j(1) by fastforce
  then show "?P start"
  proof cases
    case stop
    then have "\<not> run s count k" if "start \<le> k" for k
      using that sum by (auto simp: run_def word_le_nat_alt)
    with stop show ?thesis by (subst alloc_pages_loop.simps) auto
  next
    case found
    then have "run s count start" using j(2) sum by (simp add: run_def word_le_nat_alt)
    moreover have "alloc_pages_loop s count start = Some (take_run s count start, start * PMM_PAGE_SIZE)"
      using found by (subst alloc_pages_loop.simps) (simp add: take_run_def Let_def)
    ultimately show ?thesis by auto
  next
    case skip
    let ?n = "start + ?j + 1"
    have jn: "unat ?j < unat count" using skip(2) by (simp add: word_less_nat_alt)
    have sj: "unat (start + ?j) = unat start + unat ?j"
      using T le jn by (intro unat_add_no_wrap) simp
    have n: "unat ?n = unat start + unat ?j + 1"
      using T le jn sj by (subst unat_add_no_wrap) simp_all
    have nT: "unat ?n \<le> unat ?T" using n jn skip(1) sum by (simp add: word_le_nat_alt)
    have blocked: "\<not> run s count k" if "start \<le> k" "\<not> ?n \<le> k" for k
      using that skip(2) j(3) T le jn n sj
      by (intro run_blocked [of s start ?j]) (simp_all add: word_le_nat_alt)
    then have ge: "start \<le> k \<and> run s count k \<longleftrightarrow> ?n \<le> k \<and> run s count k" for k
      using n by (auto simp: word_le_nat_alt)
    have "alloc_pages_loop s count start = alloc_pages_loop s count ?n"
      using skip by (subst alloc_pages_loop.simps) (auto simp: Let_def)
    moreover have "?P ?n"
      using n nT by (intro less.hyps) (simp_all add: word_le_nat_alt)
    moreover have "(\<exists>k \<ge> start. run s count k) \<longleftrightarrow> (\<exists>k \<ge> ?n. run s count k)"
      using ge by blast
    ultimately show ?thesis using ge blocked by (auto split: if_splits)
  qed
qed

lemma run_set_iff:
  "run s count k \<Longrightarrow> {x. \<exists>j. j < count \<and> x = k + j} \<subseteq> free_set s"
proof
  fix x assume r: "run s count k" and "x \<in> {x. \<exists>j. j < count \<and> x = k + j}"
  then obtain j where j: "j < count" "x = k + j" by auto
  then have "unat k + unat j < unat (total_pages s)"
    using r by (simp add: run_def word_less_nat_alt)
  moreover from this have "unat (k + j) = unat k + unat j"
    using unat_bound [of "total_pages s"] by (intro unat_add_no_wrap) linarith
  ultimately show "x \<in> free_set s"
    using r j by (simp add: free_set_def run_def word_less_nat_alt)
qed

lemma free_set_take_run:
  "free_set (take_run s count k) = free_set s - {x. \<exists>j. j < count \<and> x = k + j}"
  by (auto simp: free_set_def take_run_def set_run_test)

lemma take_run_wf:
  assumes wf: "pmm_wf s" and r: "run s count k"
  shows "pmm_wf (take_run s count k)"
proof -
  let ?R = "{x. \<exists>j. j < count \<and> x = k + j}"
  have sub: "?R \<subseteq> free_set s" using r by (rule run_set_iff)
  then have "card (free_set s - ?R) = card (free_set s) - unat count"
    by (subst card_Diff_subset) (simp_all add: card_word_range)
  moreover have "unat count \<le> card (free_set s)"
    using card_mono [OF _ sub] by (simp add: card_word_range)
  ultimately have "of_nat (card (free_set (take_run s count k))) = free_pages_c s - count"
    using wf by (simp add: free_set_take_run of_nat_diff pmm_wf_def)
  then show ?thesis
    using wf by (simp add: pmm_wf_def take_run_def set_run_test free_set_def)
qed

section \<open>Freeing pages\<close>

lemma free_set_free_page:
  "free_set (pmm_free_page s a) =
   (if a div PMM_PAGE_SIZE < total_pages s then insert (a div PMM_PAGE_SIZE) (free_set s) else free_set s)"
  by (auto simp: free_set_def pmm_free_page_def Let_def bitmap_test_clear)

lemma total_free_page [simp]: "total_pages (pmm_free_page s a) = total_pages s"
  by (simp add: pmm_free_page_def Let_def)

lemma pmm_free_page_wf:
  assumes wf: "pmm_wf s"
  shows "pmm_wf (pmm_free_page s a)"
proof -
  let ?i = "a div PMM_PAGE_SIZE"
  show ?thesis
  proof (cases "?i < total_pages s \<and> bitmap_test (bitmap s) ?i")
    case True
    then have "?i \<notin> free_set s" by (simp add: free_set_def)
    then have "of_nat (card (insert ?i (free_set s))) = free_pages_c s + 1"
      using wf by (simp add: pmm_wf_def add.commute)
    then have "free_pages_c (pmm_free_page s a) = of_nat (card (free_set (pmm_free_page s a)))"
      using True by (simp add: free_set_free_page) (simp add: pmm_free_page_def Let_def not_le)
    then show ?thesis
      using wf True by (auto simp: pmm_wf_def pmm_free_page_def Let_def bitmap_test_clear not_le)
  next
    case False
    then have "pmm_free_page s a = s" by (auto simp: pmm_free_page_def Let_def)
    with wf show ?thesis by simp
  qed
qed

lemma free_pages_loop_wf: "pmm_wf s \<Longrightarrow> pmm_wf (free_pages_loop s start count i)"
proof (induction s start count i rule: free_pages_loop.induct)
  case (1 s start count i)
  then show ?case by (subst free_pages_loop.simps) (simp add: pmm_free_page_wf)
qed

lemma page_addr_div: "i \<le> 2 ^ 52 - 1 \<Longrightarrow> i * PMM_PAGE_SIZE div PMM_PAGE_SIZE = i"
proof -
  assume "i \<le> 2 ^ 52 - 1"
  then have "unat i * 4096 < 2 ^ 64" by (simp add: word_le_nat_alt)
  then have "unat (i * 4096) = unat i * 4096" by (simp add: unat_word_ariths)
  then show ?thesis by (simp add: PMM_PAGE_SIZE_def word_unat_eq_iff unat_div)
qed

section \<open>The allocator interface\<close>

text \<open>
  What the heap, the page tables and the scheduler rely on: a page handed out was free, is no
  longer free, and has the address of its number. The address 0 means failure, so page 0 is
  lost when it is the lowest free page.
\<close>

locale page_allocator =
  fixes alloc :: "'s \<Rightarrow> 's \<times> u64"
    and free :: "'s \<Rightarrow> u64 set"
    and inv :: "'s \<Rightarrow> bool"
  assumes alloc_inv: "inv s \<Longrightarrow> alloc s = (s', a) \<Longrightarrow> inv s'"
    and alloc_page: "inv s \<Longrightarrow> alloc s = (s', a) \<Longrightarrow> a \<noteq> 0 \<Longrightarrow>
      \<exists>i \<in> free s. a = i * PMM_PAGE_SIZE \<and> free s' = free s - {i}"
    and alloc_shrinks: "inv s \<Longrightarrow> alloc s = (s', a) \<Longrightarrow> free s' \<subseteq> free s"
    and free_bound: "inv s \<Longrightarrow> i \<in> free s \<Longrightarrow> i \<le> 2 ^ 52 - 1"
begin

lemma alloc_fresh:
  assumes "inv s" and "alloc s = (s', a)" and "a \<noteq> 0"
  shows "a div PMM_PAGE_SIZE \<in> free s" and "a div PMM_PAGE_SIZE \<notin> free s'"
    and "a = a div PMM_PAGE_SIZE * PMM_PAGE_SIZE"
  using alloc_page [OF assms] free_bound [OF assms(1)] by (auto simp: page_addr_div)

lemma alloc_twice_distinct:
  assumes "inv s" and "alloc s = (s', a)" and "a \<noteq> 0" and "alloc s' = (s'', b)" and "b \<noteq> 0"
  shows "a \<noteq> b"
  using alloc_fresh(2) [OF assms(1-3)] alloc_fresh(1) [OF alloc_inv [OF assms(1,2)] assms(4,5)] by auto

end

lemma pmm_alloc_page_free_set:
  "pmm_wf s \<Longrightarrow> free_set s \<noteq> {} \<Longrightarrow>
   free_set (fst (pmm_alloc_page s)) = free_set s - {Min (free_set s)}"
  by (simp add: pmm_alloc_page_wf free_set_take)

lemma pmm_alloc_page_keeps_wf: "pmm_wf s \<Longrightarrow> pmm_wf (fst (pmm_alloc_page s))"
  by (simp add: pmm_alloc_page_wf take_page_wf)

lemma free_set_bound: "pmm_wf s \<Longrightarrow> i \<in> free_set s \<Longrightarrow> i \<le> 2 ^ 52 - 1"
  by (auto simp: pmm_wf_def free_set_def word_le_nat_alt word_less_nat_alt)

interpretation pmm_pages: page_allocator pmm_alloc_page free_set pmm_wf
proof unfold_locales
  fix s s' :: pmm and a
  assume wf: "pmm_wf s" and eq: "pmm_alloc_page s = (s', a)"
  show "pmm_wf s'" using pmm_alloc_page_keeps_wf [OF wf] eq by simp
  have ne: "free_set s \<noteq> {}" if "a \<noteq> 0"
    using eq that by (auto simp: pmm_alloc_page_wf [OF wf])
  show "\<exists>i \<in> free_set s. a = i * PMM_PAGE_SIZE \<and> free_set s' = free_set s - {i}" if "a \<noteq> 0"
    using eq ne [OF that] pmm_alloc_page_free_set [OF wf ne [OF that]]
    by (intro bexI [of _ "Min (free_set s)"]) (auto simp: pmm_alloc_page_wf [OF wf] take_page_def)
  show "free_set s' \<subseteq> free_set s"
    using eq pmm_alloc_page_free_set [OF wf] pmm_alloc_page_wf [OF wf]
    by (cases "free_set s = {}") auto
qed (rule free_set_bound)

section \<open>Initialisation from the boot memory map\<close>

record memmap_entry =
  me_base :: u64
  me_length :: u64
  me_type :: u64

definition LIMINE_MEMMAP_USABLE :: u64 where
  "LIMINE_MEMMAP_USABLE = 0"

fun highest_addr :: "memmap_entry list \<Rightarrow> u64 \<Rightarrow> u64" where
  "highest_addr [] h = h"
| "highest_addr (e # es) h =
     highest_addr es (let end = me_base e + me_length e in if h < end then end else h)"

fun bitmap_region :: "memmap_entry list \<Rightarrow> u64 \<Rightarrow> u64" where
  "bitmap_region [] bytes = 0"
| "bitmap_region (e # es) bytes =
     (if me_type e = LIMINE_MEMMAP_USABLE \<and> bytes \<le> me_length e then me_base e
      else bitmap_region es bytes)"

function release_range :: "(u64 \<Rightarrow> u8) \<Rightarrow> u64 \<Rightarrow> u64 \<Rightarrow> u64 \<Rightarrow> u64 \<Rightarrow> (u64 \<Rightarrow> u8) \<times> u64" where
  "release_range bm c start count p =
     (if p < count then release_range (bitmap_clear bm (start + p)) (c + 1) start count (p + 1)
      else (bm, c))"
  by pat_completeness auto
termination
  by (relation "measure (\<lambda>(bm, c, start, count, p). unat count - unat p)") (auto simp: loop_term)

declare release_range.simps [simp del]

fun release_usable :: "memmap_entry list \<Rightarrow> (u64 \<Rightarrow> u8) \<times> u64 \<Rightarrow> (u64 \<Rightarrow> u8) \<times> u64" where
  "release_usable [] st = st"
| "release_usable (e # es) st =
     release_usable es
       (if me_type e \<noteq> LIMINE_MEMMAP_USABLE then st
        else release_range (fst st) (snd st) (me_base e div PMM_PAGE_SIZE)
               (me_length e div PMM_PAGE_SIZE) 0)"

function reserve_bitmap :: "(u64 \<Rightarrow> u8) \<Rightarrow> u64 \<Rightarrow> u64 \<Rightarrow> u64 \<Rightarrow> u64 \<Rightarrow> (u64 \<Rightarrow> u8) \<times> u64" where
  "reserve_bitmap bm c start count p =
     (if p < count then
        let idx = start + p in
        if \<not> bitmap_test bm idx then reserve_bitmap (bitmap_set bm idx) (c - 1) start count (p + 1)
        else reserve_bitmap bm c start count (p + 1)
      else (bm, c))"
  by pat_completeness auto
termination
  by (relation "measure (\<lambda>(bm, c, start, count, p). unat count - unat p)") (auto simp: loop_term)

declare reserve_bitmap.simps [simp del]

text \<open>
  \<open>pmm_init\<close> halts the machine when no region can hold the bitmap: the result None. The bytes
  of the bitmap region are whatever the memory held before (\<open>mem\<close>) and are then filled with
  0xFF up to the bitmap's size.
\<close>

definition bitmap_bytes :: "memmap_entry list \<Rightarrow> u64" where
  "bitmap_bytes es = (highest_addr es 0 div PMM_PAGE_SIZE + 7) div 8"

definition pmm_init :: "(u64 \<Rightarrow> u8) \<Rightarrow> memmap_entry list \<Rightarrow> u64 \<Rightarrow> pmm option" where
  "pmm_init mem es hhdm_offset =
     (let total = highest_addr es 0 div PMM_PAGE_SIZE;
          bitmap_phys = bitmap_region es (bitmap_bytes es) in
      if bitmap_phys = 0 then None
      else
        let bm0 = (\<lambda>b. if b < bitmap_bytes es then 0xFF else mem b);
            (bm1, c1) = release_usable es (bm0, 0);
            (bm2, c2) = reserve_bitmap bm1 c1 (bitmap_phys div PMM_PAGE_SIZE)
                          ((bitmap_bytes es + PMM_PAGE_SIZE - 1) div PMM_PAGE_SIZE) 0
        in Some \<lparr>bitmap = bm2, total_pages = total, free_pages_c = c2, hhdm = hhdm_offset,
                 scan_hint = 0\<rparr>)"

subsection \<open>What the memory map must satisfy\<close>

definition entry_pages :: "memmap_entry \<Rightarrow> u64 set" where
  "entry_pages e =
     (if me_type e = LIMINE_MEMMAP_USABLE
      then {x. \<exists>j. j < me_length e div PMM_PAGE_SIZE \<and> x = me_base e div PMM_PAGE_SIZE + j} else {})"

definition usable_pages :: "memmap_entry list \<Rightarrow> u64 set" where
  "usable_pages es = \<Union> (entry_pages ` set es)"

text \<open>
  The Limine protocol promises that no entry wraps around the address space, that usable
  entries do not overlap and that their bases and lengths are multiples of the page size;
  that is all the allocator relies on.
\<close>

fun memmap_ok :: "memmap_entry list \<Rightarrow> bool" where
  "memmap_ok [] = True"
| "memmap_ok (e # es) \<longleftrightarrow> unat (me_base e) + unat (me_length e) < 2 ^ 64
     \<and> (me_type e = LIMINE_MEMMAP_USABLE \<longrightarrow>
          unat (me_base e) mod 4096 = 0 \<and> unat (me_length e) mod 4096 = 0)
     \<and> entry_pages e \<inter> usable_pages es = {} \<and> memmap_ok es"

lemma highest_addr_ge: "h \<le> highest_addr es h"
  by (induction es arbitrary: h) (auto simp: Let_def intro: order_trans less_imp_le)

lemma highest_addr_bounds:
  "memmap_ok es \<Longrightarrow> e \<in> set es \<Longrightarrow> unat (me_base e) + unat (me_length e) \<le> unat (highest_addr es h)"
proof (induction es arbitrary: h)
  case (Cons a es)
  show ?case
  proof (cases "e = a")
    case True
    let ?top = "me_base a + me_length a"
    have "?top \<le> highest_addr es (if h < ?top then ?top else h)"
      by (rule order_trans [OF _ highest_addr_ge]) auto
    moreover have "unat ?top = unat (me_base a) + unat (me_length a)"
      using Cons.prems by (intro unat_add_no_wrap) simp
    ultimately show ?thesis using True by (simp add: word_le_nat_alt Let_def)
  next
    case False
    with Cons show ?thesis by simp
  qed
qed simp

lemma entry_pages_bound:
  assumes "memmap_ok es" and "e \<in> set es"
  shows "entry_pages e \<subseteq> {x. x < highest_addr es 0 div PMM_PAGE_SIZE}"
proof
  fix x assume "x \<in> entry_pages e"
  then obtain j where j: "j < me_length e div PMM_PAGE_SIZE" "x = me_base e div PMM_PAGE_SIZE + j"
    by (auto simp: entry_pages_def split: if_splits)
  let ?b = "unat (me_base e)" and ?l = "unat (me_length e)"
  have "?b div 4096 + ?l div 4096 \<le> (?b + ?l) div 4096" by simp
  also have "\<dots> \<le> unat (highest_addr es 0) div 4096"
    using highest_addr_bounds [OF assms] by (rule div_le_mono)
  finally have top: "?b div 4096 + ?l div 4096 \<le> unat (highest_addr es 0) div 4096" .
  have jl: "unat j < ?l div 4096"
    using j(1) by (simp add: PMM_PAGE_SIZE_def word_less_nat_alt unat_div)
  have "unat (highest_addr es 0) div 4096 \<le> unat (highest_addr es 0)" by simp
  then have "?b div 4096 + unat j < 2 ^ 64"
    using top jl unat_bound [of "highest_addr es 0"] by simp
  then have "unat x = ?b div 4096 + unat j"
    unfolding j(2) by (subst unat_add_no_wrap) (simp_all add: PMM_PAGE_SIZE_def unat_div)
  then show "x \<in> {x. x < highest_addr es 0 div PMM_PAGE_SIZE}"
    using top jl by (simp add: PMM_PAGE_SIZE_def word_less_nat_alt unat_div)
qed

subsection \<open>The loops of the initialisation\<close>

lemma release_range_spec:
  "p \<le> count \<Longrightarrow> release_range bm c start count p = (bm', c') \<Longrightarrow>
   c' = c + (count - p) \<and>
   (\<forall>x. bitmap_test bm' x \<longleftrightarrow> bitmap_test bm x \<and> \<not> (\<exists>j. p \<le> j \<and> j < count \<and> x = start + j))"
proof (induction bm c start count p rule: release_range.induct)
  case (1 bm c start count p)
  show ?case
  proof (cases "p < count")
    case True
    then have "p + 1 \<le> count" by (simp add: word_nat)
    with 1 True show ?thesis
      by (subst (asm) (2) release_range.simps)
        (auto simp: bitmap_test_clear word_le_Suc_iff [OF True])
  next
    case False
    with "1.prems" show ?thesis by (subst (asm) release_range.simps) auto
  qed
qed

text \<open>\<open>free_below T bm\<close>: the free pages of a bitmap for \<open>T\<close> pages.\<close>

definition free_below :: "u64 \<Rightarrow> (u64 \<Rightarrow> u8) \<Rightarrow> u64 set" where
  "free_below T bm = {x. x < T \<and> \<not> bitmap_test bm x}"

lemma release_entry:
  assumes rel: "release_range bm c start count 0 = (bm', c')"
    and R: "R = {x. \<exists>j. j < count \<and> x = start + j}"
    and c: "c = of_nat (card (free_below T bm))"
    and set: "\<forall>x \<in> R. x < T \<and> bitmap_test bm x"
  shows "c' = of_nat (card (free_below T bm')) \<and> (\<forall>x. bitmap_test bm' x \<longleftrightarrow> bitmap_test bm x \<and> x \<notin> R)"
proof -
  have c': "c' = c + count" and test: "\<forall>x. bitmap_test bm' x \<longleftrightarrow> bitmap_test bm x \<and> x \<notin> R"
    using release_range_spec [OF _ rel] by (auto simp: R)
  have "free_below T bm' = free_below T bm \<union> R" "free_below T bm \<inter> R = {}"
    using test set by (auto simp: free_below_def)
  then have "card (free_below T bm') = card (free_below T bm) + unat count"
    by (simp add: card_Un_disjoint R card_word_range)
  with c c' test show ?thesis by simp
qed

lemma release_usable_spec:
  "memmap_ok es \<Longrightarrow> \<forall>e \<in> set es. entry_pages e \<subseteq> {x. x < T} \<Longrightarrow>
   c = of_nat (card (free_below T bm)) \<Longrightarrow> \<forall>x \<in> usable_pages es. bitmap_test bm x \<Longrightarrow>
   release_usable es (bm, c) = (bm', c') \<Longrightarrow>
   c' = of_nat (card (free_below T bm')) \<and>
   (\<forall>x. bitmap_test bm' x \<longleftrightarrow> bitmap_test bm x \<and> x \<notin> usable_pages es)"
proof (induction es arbitrary: bm c)
  case Nil
  then show ?case by (auto simp: usable_pages_def)
next
  case (Cons e es)
  have up: "usable_pages (e # es) = entry_pages e \<union> usable_pages es"
    by (simp add: usable_pages_def)
  show ?case
  proof (cases "me_type e = LIMINE_MEMMAP_USABLE")
    case False
    with Cons show ?thesis by (simp add: up entry_pages_def)
  next
    case True
    obtain bm1 c1 where r: "release_range bm c (me_base e div PMM_PAGE_SIZE)
        (me_length e div PMM_PAGE_SIZE) 0 = (bm1, c1)" by fastforce
    have e: "c1 = of_nat (card (free_below T bm1)) \<and>
        (\<forall>x. bitmap_test bm1 x \<longleftrightarrow> bitmap_test bm x \<and> x \<notin> entry_pages e)"
      using Cons.prems True by (intro release_entry [OF r]) (auto simp: entry_pages_def up)
    have "release_usable es (bm1, c1) = (bm', c')" using Cons.prems(5) True r by simp
    moreover have "\<forall>x \<in> usable_pages es. bitmap_test bm1 x"
      using e Cons.prems(1,4) by (auto simp: up)
    ultimately show ?thesis using Cons.IH [of c1 bm1] Cons.prems(1,2) e by (auto simp: up)
  qed
qed

lemma reserve_bitmap_spec:
  "p \<le> count \<Longrightarrow> reserve_bitmap bm c start count p = (bm', c') \<Longrightarrow>
   c = of_nat (card (free_below T bm)) \<Longrightarrow>
   \<forall>j. p \<le> j \<and> j < count \<longrightarrow> start + j < T \<Longrightarrow>
   c' = of_nat (card (free_below T bm')) \<and>
   (\<forall>x. bitmap_test bm' x \<longleftrightarrow> bitmap_test bm x \<or> (\<exists>j. p \<le> j \<and> j < count \<and> x = start + j))"
proof (induction bm c start count p rule: reserve_bitmap.induct)
  case (1 bm c start count p)
  show ?case
  proof (cases "p < count")
    case lt: True
    then have le: "p + 1 \<le> count" by (simp add: word_nat)
    have rest: "\<forall>j. p + 1 \<le> j \<and> j < count \<longrightarrow> start + j < T"
      using "1.prems"(4) word_le_Suc_iff [OF lt] by auto
    show ?thesis
    proof (cases "bitmap_test bm (start + p)")
      case True
      with lt "1.prems"(2) have "reserve_bitmap bm c start count (p + 1) = (bm', c')"
        by (subst (asm) reserve_bitmap.simps) (simp add: Let_def)
      from "1.IH"(2) [OF lt refl _ le this "1.prems"(3) rest] True show ?thesis
        by (auto simp: word_le_Suc_iff [OF lt])
    next
      case False
      let ?bm = "bitmap_set bm (start + p)"
      from lt False "1.prems"(2) have r: "reserve_bitmap ?bm (c - 1) start count (p + 1) = (bm', c')"
        by (subst (asm) reserve_bitmap.simps) (simp add: Let_def)
      have "start + p \<in> free_below T bm" using False "1.prems"(4) lt by (simp add: free_below_def)
      moreover have "free_below T ?bm = free_below T bm - {start + p}"
        by (auto simp: free_below_def bitmap_test_set)
      ultimately have "card (free_below T bm) = Suc (card (free_below T ?bm))"
        by (metis card_Suc_Diff1 finite_word_set)
      then have "c - 1 = of_nat (card (free_below T ?bm))" using "1.prems"(3) by simp
      from "1.IH"(1) [OF lt refl False le r this rest] lt show ?thesis
        by (auto simp: word_le_Suc_iff [OF lt] bitmap_test_set)
    qed
  next
    case False
    with "1.prems" show ?thesis by (subst (asm) reserve_bitmap.simps) auto
  qed
qed

subsection \<open>The state after initialisation\<close>

definition bitmap_pages :: "memmap_entry list \<Rightarrow> u64 set" where
  "bitmap_pages es =
     {x. \<exists>j. j < (bitmap_bytes es + PMM_PAGE_SIZE - 1) div PMM_PAGE_SIZE
         \<and> x = bitmap_region es (bitmap_bytes es) div PMM_PAGE_SIZE + j}"

lemma bitmap_region_in:
  "bitmap_region es b \<noteq> 0 \<Longrightarrow>
   \<exists>e \<in> set es. me_type e = LIMINE_MEMMAP_USABLE \<and> b \<le> me_length e \<and> me_base e = bitmap_region es b"
  by (induction es) (auto split: if_splits)

lemma memmap_ok_aligned:
  "memmap_ok es \<Longrightarrow> e \<in> set es \<Longrightarrow> me_type e = LIMINE_MEMMAP_USABLE \<Longrightarrow> unat (me_length e) mod 4096 = 0"
  by (induction es) auto

lemma total_pages_bound: "(h :: u64) div PMM_PAGE_SIZE \<le> 2 ^ 52 - 1"
proof -
  have "unat h div 4096 < 2 ^ 52" using unat_bound [of h] by (intro div_less_iff_less_mult [THEN iffD2]) simp_all
  then show ?thesis by (simp add: PMM_PAGE_SIZE_def word_le_nat_alt unat_div)
qed

lemma bitmap_bytes_unat:
  "unat (bitmap_bytes es) = (unat (highest_addr es 0 div PMM_PAGE_SIZE) + 7) div 8"
proof -
  have "unat (highest_addr es 0 div PMM_PAGE_SIZE) \<le> 2 ^ 52 - 1"
    using total_pages_bound [of "highest_addr es 0"] by (simp add: word_le_nat_alt)
  then have "unat (highest_addr es 0 div PMM_PAGE_SIZE + 7) = unat (highest_addr es 0 div PMM_PAGE_SIZE) + 7"
    by (subst unat_add_no_wrap) simp_all
  then show ?thesis by (simp add: bitmap_bytes_def unat_div)
qed

lemma filled_bitmap_test:
  assumes "x < highest_addr es 0 div PMM_PAGE_SIZE"
  shows "bitmap_test (\<lambda>b. if b < bitmap_bytes es then 0xFF else mem b) x"
proof -
  have "unat x div 8 < (unat (highest_addr es 0 div PMM_PAGE_SIZE) + 7) div 8"
    using assms by (simp add: word_less_nat_alt)
  then have "x div 8 < bitmap_bytes es"
    by (simp add: word_less_nat_alt bitmap_bytes_unat unat_div)
  moreover have ff: "(0xFF :: u8) = - 1" by simp
  have "bit (0xFF :: u8) (unat (x mod 8))" unfolding ff using mod_8_less [of x] by simp
  ultimately show ?thesis by (simp add: bitmap_test_bit)
qed

lemma ceil_pages_le:
  fixes b l :: u64
  assumes "b \<le> l" and "unat l mod 4096 = 0"
  shows "(b + PMM_PAGE_SIZE - 1) div PMM_PAGE_SIZE \<le> l div PMM_PAGE_SIZE"
proof (cases "b = 0")
  case False
  then have b1: "unat (b - 1) = unat b - 1" by (simp add: unat_minus_one)
  have b0: "0 < unat b" using False by (simp add: unat_gt_0)
  obtain q where q: "unat l = 4096 * q" using assms(2) by auto
  have "unat b \<le> 4096 * q" using assms(1) q by (simp add: word_le_nat_alt)
  moreover have "q < 2 ^ 52" using unat_bound [of l] q by simp
  ultimately have lim: "unat (b - 1) + 4096 < 2 ^ 64" and "unat b - 1 + 4096 < Suc q * 4096"
    using b0 b1 by simp_all
  then have quot: "(unat b - 1 + 4096) div 4096 \<le> q"
    using less_mult_imp_div_less [of "unat b - 1 + 4096" "Suc q" 4096] by simp
  from lim have "unat (b - 1 + 4096) = unat b - 1 + 4096"
    using b1 by (subst unat_add_no_wrap) simp_all
  moreover have "b + 4096 - 1 = b - 1 + 4096" by simp
  ultimately show ?thesis
    using q quot by (simp add: PMM_PAGE_SIZE_def word_le_nat_alt unat_div)
qed (simp add: PMM_PAGE_SIZE_def)

lemma bitmap_pages_usable:
  assumes "memmap_ok es" and "bitmap_region es (bitmap_bytes es) \<noteq> 0"
  shows "bitmap_pages es \<subseteq> usable_pages es"
proof
  fix x assume "x \<in> bitmap_pages es"
  then obtain j where j: "j < (bitmap_bytes es + PMM_PAGE_SIZE - 1) div PMM_PAGE_SIZE"
    "x = bitmap_region es (bitmap_bytes es) div PMM_PAGE_SIZE + j" by (auto simp: bitmap_pages_def)
  obtain e where e: "e \<in> set es" "me_type e = LIMINE_MEMMAP_USABLE" "bitmap_bytes es \<le> me_length e"
    "me_base e = bitmap_region es (bitmap_bytes es)" using bitmap_region_in [OF assms(2)] by auto
  have "j < me_length e div PMM_PAGE_SIZE"
    using j(1) ceil_pages_le [OF e(3) memmap_ok_aligned [OF assms(1) e(1,2)]] by (rule less_le_trans)
  then have "x \<in> entry_pages e" using j(2) e by (auto simp: entry_pages_def)
  then show "x \<in> usable_pages es" using e(1) by (auto simp: usable_pages_def)
qed

lemma pmm_init_Some:
  assumes ok: "memmap_ok es" and init: "pmm_init mem es off = Some s"
  shows "pmm_wf s \<and> free_set s = usable_pages es - bitmap_pages es \<and> hhdm s = off
    \<and> total_pages s = highest_addr es 0 div PMM_PAGE_SIZE"
proof -
  let ?T = "highest_addr es 0 div PMM_PAGE_SIZE"
  let ?bm0 = "\<lambda>b. if b < bitmap_bytes es then 0xFF else mem b"
  from init have region: "bitmap_region es (bitmap_bytes es) \<noteq> 0"
    by (auto simp: pmm_init_def Let_def)
  obtain bm1 c1 where r1: "release_usable es (?bm0, 0) = (bm1, c1)" by fastforce
  obtain bm2 c2 where r2: "reserve_bitmap bm1 c1 (bitmap_region es (bitmap_bytes es) div PMM_PAGE_SIZE)
      ((bitmap_bytes es + PMM_PAGE_SIZE - 1) div PMM_PAGE_SIZE) 0 = (bm2, c2)" by fastforce
  have s: "s = \<lparr>bitmap = bm2, total_pages = ?T, free_pages_c = c2, hhdm = off, scan_hint = 0\<rparr>"
    using init region r1 r2 by (simp add: pmm_init_def Let_def)
  have below: "\<forall>e \<in> set es. entry_pages e \<subseteq> {x. x < ?T}"
    using entry_pages_bound [OF ok] by blast
  then have up: "usable_pages es \<subseteq> {x. x < ?T}" by (auto simp: usable_pages_def)
  have full: "free_below ?T ?bm0 = {}" using filled_bitmap_test by (auto simp: free_below_def)
  have 1: "c1 = of_nat (card (free_below ?T bm1)) \<and>
      (\<forall>x. bitmap_test bm1 x \<longleftrightarrow> bitmap_test ?bm0 x \<and> x \<notin> usable_pages es)"
    using up filled_bitmap_test full by (intro release_usable_spec [OF ok below _ _ r1]) auto
  have 2: "c2 = of_nat (card (free_below ?T bm2)) \<and>
      (\<forall>x. bitmap_test bm2 x \<longleftrightarrow> bitmap_test bm1 x \<or> x \<in> bitmap_pages es)"
    using reserve_bitmap_spec [OF _ r2 conjunct1 [OF 1]] up bitmap_pages_usable [OF ok region]
    by (fastforce simp: bitmap_pages_def)
  have "free_set s = free_below ?T bm2" by (simp add: s free_set_def free_below_def)
  moreover have "\<dots> = usable_pages es - bitmap_pages es"
    using 1 2 up filled_bitmap_test by (auto simp: free_below_def)
  moreover have "?T \<le> 2 ^ 52"
    using total_pages_bound [of "highest_addr es 0"] by (simp add: word_le_nat_alt)
  ultimately show ?thesis using 2 by (simp add: s pmm_wf_def)
qed

section \<open>Sequences of operations\<close>

datatype pmm_op = Alloc_page | Alloc_pages u64 | Free_page u64 | Free_pages u64 u64

fun pmm_step :: "pmm \<Rightarrow> pmm_op \<Rightarrow> pmm option" where
  "pmm_step s Alloc_page = Some (fst (pmm_alloc_page s))"
| "pmm_step s (Alloc_pages n) = map_option fst (pmm_alloc_pages s n)"
| "pmm_step s (Free_page a) = Some (pmm_free_page s a)"
| "pmm_step s (Free_pages a n) = Some (pmm_free_pages s a n)"

fun pmm_run :: "pmm \<Rightarrow> pmm_op list \<Rightarrow> pmm option" where
  "pmm_run s [] = Some s"
| "pmm_run s (x # xs) = Option.bind (pmm_step s x) (\<lambda>s'. pmm_run s' xs)"

lemma pmm_alloc_pages_cases:
  assumes wf: "pmm_wf s"
  shows "(\<nexists>k. 0 < n \<and> run s n k) \<and> pmm_alloc_pages s n = Some (s, 0) \<or>
    (\<exists>k. 0 < n \<and> run s n k \<and> (\<forall>k' < k. \<not> run s n k')
      \<and> pmm_alloc_pages s n = Some (take_run s n k, k * PMM_PAGE_SIZE))"
proof (cases "n = 0 \<or> total_pages s < n")
  case True
  then have "\<nexists>k. 0 < n \<and> run s n k" by (auto simp: run_def word_less_nat_alt)
  with True show ?thesis by (simp add: pmm_alloc_pages_def)
next
  case False
  then have n: "0 < n" "n \<le> total_pages s" by (auto simp: word_neq_0_conv not_less)
  moreover have "total_pages s \<le> 2 ^ 52" using wf by (simp add: pmm_wf_def)
  ultimately show ?thesis
    using alloc_pages_loop_spec [of s n 0] False by (auto simp: pmm_alloc_pages_def split: if_splits)
qed

lemma pmm_step_wf: "pmm_wf s \<Longrightarrow> \<exists>s'. pmm_step s x = Some s' \<and> pmm_wf s'"
  using pmm_alloc_pages_cases [of s]
  by (cases x) (auto simp: pmm_alloc_page_keeps_wf pmm_free_page_wf pmm_free_pages_def
    free_pages_loop_wf take_run_wf, metis fst_conv take_run_wf option.simps(9))

lemma pmm_run_wf: "pmm_wf s \<Longrightarrow> \<exists>s'. pmm_run s xs = Some s' \<and> pmm_wf s'"
proof (induction xs arbitrary: s)
  case (Cons x xs)
  with pmm_step_wf [of s x] show ?case by (auto simp: bind_eq_Some_conv)
qed simp

section \<open>Properties of the page allocator\<close>

text \<open>A small pool for the examples below: four pages, the first two in use.\<close>

definition pool4 :: pmm where
  "pool4 = \<lparr>bitmap = (\<lambda>_. 3), total_pages = 4, free_pages_c = 2, hhdm = 0, scan_hint = 2\<rparr>"

lemma below_4: "i < (4 :: u64) \<longleftrightarrow> i = 0 \<or> i = 1 \<or> i = 2 \<or> i = 3"
  by (auto simp: word_less_nat_alt word_unat_eq_iff)

lemma below_2: "i < (2 :: u64) \<longleftrightarrow> i = 0 \<or> i = 1"
  by (auto simp: word_less_nat_alt word_unat_eq_iff)

lemma pool4_free: "free_set pool4 = {2, 3}"
  by (auto simp: free_set_def pool4_def below_4 bitmap_test_def)

lemma pool4_wf: "pmm_wf pool4"
  unfolding pmm_wf_def pool4_free by (auto simp: pool4_def below_2 bitmap_test_def)

lemma pool4_run: "run pool4 2 2"
  by (auto simp: run_def pool4_def below_2 bitmap_test_def)

lemma pool4_run_first: "k < 2 \<Longrightarrow> \<not> run pool4 2 k"
  by (auto simp: run_def pool4_def below_2 bitmap_test_def)

lemma pool4_alloc2: "pmm_alloc_pages pool4 2 = Some (take_run pool4 2 2, 8192)"
proof -
  have "0 < (2 :: u64) \<and> run pool4 2 2" using pool4_run by simp
  then obtain k where k: "run pool4 2 k" "\<forall>k' < k. \<not> run pool4 2 k'"
    and a: "pmm_alloc_pages pool4 2 = Some (take_run pool4 2 k, k * PMM_PAGE_SIZE)"
    using pmm_alloc_pages_cases [OF pool4_wf, of 2] by blast
  have "k = 2" using k pool4_run pool4_run_first by (metis linorder_neqE)
  with a show ?thesis by (simp add: PMM_PAGE_SIZE_def)
qed

text \<open>C27. After \<open>pmm_init\<close> on a memory map that keeps the boot protocol's promises, the free
  pages are exactly the usable ones that do not hold the bitmap itself, the free counter
  counts them, and the invariant of the allocator holds.\<close>

theorem pmm_init_establishes:
  assumes "memmap_ok es" and "pmm_init mem es off = Some s"
  shows "free_set s = usable_pages es - bitmap_pages es
    \<and> pmm_free_pages_count s = of_nat (card (usable_pages es - bitmap_pages es))
    \<and> pmm_total_pages s = highest_addr es 0 div PMM_PAGE_SIZE \<and> pmm_wf s"
  using pmm_init_Some [OF assms]
  by (auto simp: pmm_wf_def pmm_free_pages_count_def pmm_total_pages_def)

theorem pmm_init_establishes_witness:
  "\<exists>s. pmm_init (\<lambda>_. 0) [\<lparr>me_base = 4096, me_length = 16384, me_type = 0\<rparr>] 0 = Some s
     \<and> pmm_wf s \<and> pmm_total_pages s = 5"
proof -
  let ?es = "[\<lparr>me_base = 4096, me_length = 16384, me_type = 0\<rparr>]"
  have ok: "memmap_ok ?es" by (simp add: usable_pages_def)
  have "pmm_init (\<lambda>_. 0) ?es 0 \<noteq> None"
    by (simp add: pmm_init_def bitmap_bytes_def PMM_PAGE_SIZE_def LIMINE_MEMMAP_USABLE_def
      Let_def split: prod.splits)
  then obtain s where s: "pmm_init (\<lambda>_. 0) ?es 0 = Some s" by auto
  from pmm_init_establishes [OF ok s] s show ?thesis by (simp add: PMM_PAGE_SIZE_def)
qed

text \<open>C18. Every sequence of allocations and frees, of single pages and of runs, with any
  arguments, returns, and keeps the invariant: the counter is the number of free pages and no
  page below the scan hint is free.\<close>

theorem pmm_run_keeps_wf:
  assumes "pmm_wf s"
  shows "\<exists>s'. pmm_run s ops = Some s' \<and> pmm_wf s' \<and>
    pmm_free_pages_count s' = of_nat (card (free_set s'))"
  using pmm_run_wf [OF assms] by (auto simp: pmm_wf_def pmm_free_pages_count_def)

theorem pmm_run_keeps_wf_witness:
  "\<exists>s'. pmm_run pool4 [Alloc_pages 2, Alloc_page, Free_page 8192, Free_page 8192] = Some s' \<and> pmm_wf s'"
  using pmm_run_keeps_wf [OF pool4_wf] by blast

text \<open>\<open>pmm_alloc_page\<close> hands out the lowest free page and removes exactly that page from
  the free set; it returns 0 and changes nothing when no page is free.\<close>

theorem pmm_alloc_page_lowest:
  assumes "pmm_wf s"
  shows "if free_set s = {} then pmm_alloc_page s = (s, 0)
    else \<exists>s'. pmm_alloc_page s = (s', Min (free_set s) * PMM_PAGE_SIZE) \<and> pmm_wf s'
      \<and> free_set s' = free_set s - {Min (free_set s)}"
proof (cases "free_set s = {}")
  case True
  with pmm_alloc_page_wf [OF assms] show ?thesis by (simp only: if_True simp_thms)
next
  case False
  then have m: "Min (free_set s) \<in> free_set s" by simp
  from False pmm_alloc_page_wf [OF assms]
  have "pmm_alloc_page s = take_page s (Min (free_set s))" by simp
  then have "pmm_alloc_page s = (fst (take_page s (Min (free_set s))), Min (free_set s) * PMM_PAGE_SIZE)"
    by (simp add: take_page_def)
  moreover have "pmm_wf (fst (take_page s (Min (free_set s))))" by (rule take_page_wf [OF assms False])
  moreover note free_set_take [OF m]
  ultimately show ?thesis using False by auto
qed

theorem pmm_alloc_page_lowest_witness:
  "\<exists>s'. pmm_alloc_page pool4 = (s', 8192) \<and> free_set s' = {3}"
  using pmm_alloc_page_lowest [OF pool4_wf] by (auto simp: pool4_free PMM_PAGE_SIZE_def)

text \<open>C19. \<open>pmm_alloc_pages\<close> terminates, returns the lowest run of \<open>n\<close> free pages and takes
  exactly that run, and returns 0 unchanged only when there is no such run: skipping past a
  used page never skips a run.\<close>

theorem pmm_alloc_pages_first_fit:
  assumes "pmm_wf s"
  shows "if 0 < n \<and> (\<exists>k. run s n k)
    then \<exists>k s'. run s n k \<and> (\<forall>k' < k. \<not> run s n k')
      \<and> pmm_alloc_pages s n = Some (s', k * PMM_PAGE_SIZE) \<and> pmm_wf s'
      \<and> free_set s' = free_set s - {x. \<exists>j. j < n \<and> x = k + j}
    else pmm_alloc_pages s n = Some (s, 0)"
  using pmm_alloc_pages_cases [OF assms, of n] take_run_wf [OF assms]
  by (auto simp: free_set_take_run)

theorem pmm_alloc_pages_first_fit_witness:
  "\<exists>s'. pmm_alloc_pages pool4 2 = Some (s', 8192) \<and> free_set s' = {}"
proof -
  note r = pool4_run
  from pool4_run_first have "k = 2" if "run pool4 2 k" "\<forall>k' < k. \<not> run pool4 2 k'" for k
    using that r by (metis linorder_neqE)
  moreover have "{x. \<exists>j. j < 2 \<and> x = 2 + j} = {2, 3 :: u64}" by (auto simp: below_2)
  moreover have "0 < (2 :: u64) \<and> (\<exists>k. run pool4 2 k)" using r by auto
  then obtain k s' where k: "run pool4 2 k" "\<forall>k' < k. \<not> run pool4 2 k'"
    and "pmm_alloc_pages pool4 2 = Some (s', k * PMM_PAGE_SIZE)"
    "free_set s' = {2, 3} - {x. \<exists>j. j < 2 \<and> x = k + j}"
    using pmm_alloc_pages_first_fit [OF pool4_wf, of 2] unfolding pool4_free by auto
  moreover from calculation(1) k have "k = 2" by blast
  ultimately show ?thesis by (auto simp: PMM_PAGE_SIZE_def)
qed

text \<open>Freeing the page just allocated restores the free set and the counter, and freeing
  it a second time changes nothing: a double free is harmless.\<close>

theorem pmm_alloc_free_roundtrip:
  assumes wf: "pmm_wf s" and ne: "free_set s \<noteq> {}" and alloc: "pmm_alloc_page s = (s', a)"
  shows "free_set (pmm_free_page s' a) = free_set s
    \<and> pmm_free_pages_count (pmm_free_page s' a) = pmm_free_pages_count s
    \<and> pmm_free_page (pmm_free_page s' a) a = pmm_free_page s' a"
proof -
  let ?i = "Min (free_set s)"
  have i: "?i \<in> free_set s" using ne by simp
  have a: "a div PMM_PAGE_SIZE = ?i" and s': "s' = fst (take_page s ?i)"
    using alloc ne page_addr_div [OF free_set_bound [OF wf i]]
    by (auto simp: pmm_alloc_page_wf [OF wf] take_page_def)
  have t: "total_pages s' = total_pages s" by (simp add: s' take_page_def)
  have "free_set (pmm_free_page s' a) = free_set s"
  proof -
    have "?i < total_pages s'" using free_set_bound [OF wf i] i t by (simp add: free_set_def)
    moreover have "free_set s' = free_set s - {?i}" using free_set_take [OF i] s' by simp
    ultimately show ?thesis using i by (simp add: free_set_free_page a insert_absorb)
  qed
  moreover have "pmm_wf (pmm_free_page s' a)"
    using wf ne by (simp add: s' pmm_free_page_wf take_page_wf)
  moreover have "pmm_free_page (pmm_free_page s' a) a = pmm_free_page s' a"
  proof -
    have "?i \<in> free_set (pmm_free_page s' a)" using calculation(1) i by simp
    then have "\<not> bitmap_test (bitmap (pmm_free_page s' a)) ?i" by (simp add: free_set_def)
    then show ?thesis by (simp add: pmm_free_page_def [of "pmm_free_page s' a"] Let_def a)
  qed
  ultimately show ?thesis using wf by (simp add: pmm_wf_def pmm_free_pages_count_def)
qed

theorem pmm_alloc_free_roundtrip_witness:
  "free_set (pmm_free_page (fst (pmm_alloc_page pool4)) (snd (pmm_alloc_page pool4))) = {2, 3}"
  using pmm_alloc_free_roundtrip [OF pool4_wf, of "fst (pmm_alloc_page pool4)" "snd (pmm_alloc_page pool4)"]
  by (simp add: pool4_free)

text \<open>When page 0 is free it is the one handed out, and its address is the failure value: the
  caller sees a failure and the page is lost.\<close>

lemma pmm_page_zero_lost:
  assumes "pmm_wf s" and "0 \<in> free_set s"
  shows "snd (pmm_alloc_page s) = 0 \<and> 0 \<notin> free_set (fst (pmm_alloc_page s))"
proof -
  have "Min (free_set s) = 0" using assms(2) by (intro Min_eqI) auto
  with assms show ?thesis
    using pmm_alloc_page_wf [OF assms(1)] free_set_take [OF assms(2)] by (auto simp: take_page_def)
qed

end
