(* ===== verification/Heap.thy ===== *)
theory Heap
  imports Pmm
begin

text \<open>
  kernel/src/mm/heap.c: the kernel heap, a singly linked list of blocks, each a 24-byte header
  followed by its payload. Headers live in memory at the addresses the code computes: the
  state is the head pointer and a store of headers by address. The abstraction is the list of
  blocks that the links reach (\<open>blocks\<close>); a well-formed heap is one whose blocks tile the
  pages reserved by \<open>heap_init\<close> (\<open>tiled\<close>), so that live payloads never overlap.
\<close>

section \<open>State and operations\<close>

record block_header =
  bh_size :: u64
  bh_free :: int
  bh_next :: u64

record heap =
  heap_head :: u64
  hdr :: "u64 \<Rightarrow> block_header"

definition HEADER_SIZE :: u64 where
  "HEADER_SIZE = 24"

definition ALIGN8 :: "u64 \<Rightarrow> u64" where
  "ALIGN8 x = (x + 7) AND NOT 7"

definition upd_hdr :: "heap \<Rightarrow> u64 \<Rightarrow> (block_header \<Rightarrow> block_header) \<Rightarrow> heap" where
  "upd_hdr h a f = h\<lparr>hdr := (hdr h)(a := f (hdr h a))\<rparr>"

text \<open>\<open>heap_init\<close> is given the header store that the reserved pages happen to hold. The
  result \<open>None\<close> stands for the halt on failure.\<close>

definition heap_init :: "pmm \<Rightarrow> (u64 \<Rightarrow> block_header) \<Rightarrow> u64 \<Rightarrow> u64 \<Rightarrow> (pmm \<times> heap) option" where
  "heap_init s m hhdm_offset initial_pages =
    (case pmm_alloc_pages s initial_pages of
      None \<Rightarrow> None
    | Some (s', phys) \<Rightarrow>
        if phys = 0 then None
        else Some (s', upd_hdr \<lparr>heap_head = phys + hhdm_offset, hdr = m\<rparr> (phys + hhdm_offset)
          (\<lambda>_. \<lparr>bh_size = initial_pages * PMM_PAGE_SIZE - HEADER_SIZE, bh_free = 1, bh_next = 0\<rparr>)))"

text \<open>The block found by \<open>kmalloc\<close> is split when the remainder can hold a header and eight
  bytes; the stores are in the order of the code.\<close>

definition split_block :: "heap \<Rightarrow> u64 \<Rightarrow> u64 \<Rightarrow> heap" where
  "split_block h sz cur =
    (let rest = cur + HEADER_SIZE + sz;
         h1 = upd_hdr h rest (\<lambda>b. b\<lparr>bh_size := bh_size (hdr h cur) - sz - HEADER_SIZE\<rparr>);
         h2 = upd_hdr h1 rest (\<lambda>b. b\<lparr>bh_free := 1\<rparr>);
         h3 = upd_hdr h2 rest (\<lambda>b. b\<lparr>bh_next := bh_next (hdr h2 cur)\<rparr>);
         h4 = upd_hdr h3 cur (\<lambda>b. b\<lparr>bh_next := rest\<rparr>)
     in upd_hdr h4 cur (\<lambda>b. b\<lparr>bh_size := sz\<rparr>))"

definition take_block :: "heap \<Rightarrow> u64 \<Rightarrow> u64 \<Rightarrow> heap \<times> u64" where
  "take_block h sz cur =
    (let h' = (if sz + HEADER_SIZE + 8 \<le> bh_size (hdr h cur) then split_block h sz cur else h)
     in (upd_hdr h' cur (\<lambda>b. b\<lparr>bh_free := 0\<rparr>), cur + HEADER_SIZE))"

partial_function (option) kmalloc_loop :: "heap \<Rightarrow> u64 \<Rightarrow> u64 \<Rightarrow> (heap \<times> u64) option" where
  "kmalloc_loop h sz cur =
    (if cur = 0 then Some (h, 0)
     else if bh_free (hdr h cur) \<noteq> 0 \<and> sz \<le> bh_size (hdr h cur) then Some (take_block h sz cur)
     else kmalloc_loop h sz (bh_next (hdr h cur)))"

definition kmalloc :: "heap \<Rightarrow> u64 \<Rightarrow> (heap \<times> u64) option" where
  "kmalloc h sz = (if sz = 0 then Some (h, 0) else kmalloc_loop h (ALIGN8 sz) (heap_head h))"

definition kfree :: "heap \<Rightarrow> u64 \<Rightarrow> heap" where
  "kfree h ptr =
    (if ptr = 0 then h
     else
       (let blk = ptr - HEADER_SIZE;
            h1 = upd_hdr h blk (\<lambda>b. b\<lparr>bh_free := 1\<rparr>);
            nxt = bh_next (hdr h1 blk)
        in if nxt \<noteq> 0 \<and> bh_free (hdr h1 nxt) \<noteq> 0 \<and> nxt = blk + HEADER_SIZE + bh_size (hdr h1 blk)
           then
             (let h2 = upd_hdr h1 blk
                    (\<lambda>b. b\<lparr>bh_size := bh_size b + (HEADER_SIZE + bh_size (hdr h1 nxt))\<rparr>)
              in upd_hdr h2 blk (\<lambda>b. b\<lparr>bh_next := bh_next (hdr h2 (bh_next b))\<rparr>))
           else h1))"

section \<open>The abstract heap: a list of blocks\<close>

text \<open>A block of the abstract heap: address of the header, size of the payload, free or not.\<close>

type_synonym block = "u64 \<times> u64 \<times> bool"

fun blocks :: "(u64 \<Rightarrow> block_header) \<Rightarrow> u64 \<Rightarrow> block list \<Rightarrow> bool" where
  "blocks m p [] \<longleftrightarrow> p = 0"
| "blocks m p ((a, n, f) # bs) \<longleftrightarrow>
    p = a \<and> a \<noteq> 0 \<and> bh_size (m a) = n \<and> (bh_free (m a) \<noteq> 0) = f \<and> blocks m (bh_next (m a)) bs"

fun tiled :: "nat \<Rightarrow> nat \<Rightarrow> block list \<Rightarrow> bool" where
  "tiled lo hi [] \<longleftrightarrow> lo = hi"
| "tiled lo hi ((a, n, f) # bs) \<longleftrightarrow>
    unat a = lo \<and> 8 dvd unat n \<and> lo + 24 + unat n \<le> hi \<and> tiled (lo + 24 + unat n) hi bs"

definition heap_wf :: "nat \<Rightarrow> nat \<Rightarrow> heap \<Rightarrow> block list \<Rightarrow> bool" where
  "heap_wf lo hi h bs \<longleftrightarrow> blocks (hdr h) (heap_head h) bs \<and> tiled lo hi bs
    \<and> 0 < lo \<and> 8 dvd lo \<and> hi < 2 ^ 64"

text \<open>First fit with splitting, and release with forward coalescing, on the block list.\<close>

fun alloc_list :: "u64 \<Rightarrow> block list \<Rightarrow> block list \<times> u64" where
  "alloc_list sz [] = ([], 0)"
| "alloc_list sz ((a, n, f) # bs) =
    (if f \<and> sz \<le> n
     then (if unat sz + 32 \<le> unat n
           then ((a, sz, False) # (a + 24 + sz, n - sz - 24, True) # bs, a + 24)
           else ((a, n, False) # bs, a + 24))
     else (case alloc_list sz bs of (bs', r) \<Rightarrow> ((a, n, f) # bs', r)))"

fun merge_next :: "u64 \<Rightarrow> u64 \<Rightarrow> block list \<Rightarrow> block list" where
  "merge_next a n ((b, k, True) # bs) = (a, n + (24 + k), True) # bs"
| "merge_next a n bs = (a, n, True) # bs"

fun free_list :: "u64 \<Rightarrow> block list \<Rightarrow> block list" where
  "free_list p [] = []"
| "free_list p ((a, n, f) # bs) =
    (if p = a + 24 then merge_next a n bs else (a, n, f) # free_list p bs)"

lemma hdr_upd_hdr [simp]: "hdr (upd_hdr h a f) b = (if b = a then f (hdr h a) else hdr h b)"
  by (simp add: upd_hdr_def)

lemma head_upd_hdr [simp]: "heap_head (upd_hdr h a f) = heap_head h"
  by (simp add: upd_hdr_def)

lemma tiled_le: "tiled lo hi bs \<Longrightarrow> lo \<le> hi"
  by (induction lo hi bs rule: tiled.induct) auto

lemma blocks_cong:
  "tiled lo hi bs \<Longrightarrow> (\<And>b. lo \<le> unat b \<Longrightarrow> m b = m' b) \<Longrightarrow> blocks m p bs = blocks m' p bs"
proof (induction lo hi bs arbitrary: p rule: tiled.induct)
  case (2 lo hi a n f bs)
  then have eq: "m a = m' a" by auto
  have "blocks m q bs = blocks m' q bs" for q
    by (rule "2.IH") (use 2 in auto)
  with eq show ?case by simp
qed simp

lemma block_end:
  fixes a n :: u64
  assumes "lo + 24 + unat n \<le> hi" and "hi < 2 ^ 64" and "unat a = lo"
  shows "unat (a + 24) = lo + 24" and "unat (a + 24 + n) = lo + 24 + unat n"
proof -
  have "unat (a + 24) = unat a + unat (24 :: u64)"
    using assms by (intro unat_add_no_wrap) simp
  then show 1: "unat (a + 24) = lo + 24" using assms by simp
  have "unat (a + 24 + n) = unat (a + 24) + unat n"
    using assms 1 by (intro unat_add_no_wrap) simp
  with 1 show "unat (a + 24 + n) = lo + 24 + unat n" by simp
qed

text \<open>The links of a well-formed heap lead to the adjacent block.\<close>

lemma blocks_next:
  assumes "blocks m p bs" and "tiled lo hi bs" and "bs \<noteq> []"
  shows "unat p = lo" and "p \<noteq> 0"
  using assms by (cases bs; auto)+

section \<open>Allocation refines first fit\<close>

lemma take_block_no_split:
  assumes "\<not> sz + HEADER_SIZE + 8 \<le> bh_size (hdr h a)"
  shows "take_block h sz a = (upd_hdr h a (\<lambda>b. b\<lparr>bh_free := 0\<rparr>), a + 24)"
  using assms by (simp add: take_block_def HEADER_SIZE_def)

lemma take_block_split:
  assumes "sz + HEADER_SIZE + 8 \<le> bh_size (hdr h a)" and "a + 24 + sz \<noteq> a"
  shows "fst (take_block h sz a) = h\<lparr>hdr := (hdr h)
      (a + 24 + sz := \<lparr>bh_size = bh_size (hdr h a) - sz - 24, bh_free = 1, bh_next = bh_next (hdr h a)\<rparr>,
       a := \<lparr>bh_size = sz, bh_free = 0, bh_next = a + 24 + sz\<rparr>)\<rparr>"
  and "snd (take_block h sz a) = a + 24"
  using assms
  by (auto simp: take_block_def split_block_def upd_hdr_def Let_def HEADER_SIZE_def fun_upd_def
      intro!: heap.equality ext)

lemma split_guard:
  assumes "lo + 24 + unat n \<le> hi" and "hi < 2 ^ 64" and "8 \<le> lo" and "sz \<le> n"
  shows "sz + HEADER_SIZE + 8 \<le> n \<longleftrightarrow> unat sz + 32 \<le> unat n"
proof -
  have "unat sz \<le> unat n" using assms(4) by (simp add: word_le_nat_alt)
  with assms have "unat sz + unat (32 :: u64) < 2 ^ 64" by simp
  then have "unat (sz + 32) = unat sz + 32" using unat_add_no_wrap [of sz 32] by simp
  moreover have "sz + HEADER_SIZE + 8 = sz + 32" by (simp add: HEADER_SIZE_def add.assoc)
  ultimately show ?thesis by (simp only: word_le_nat_alt)
qed


lemma sub_split:
  fixes n sz :: u64
  assumes "unat sz + 32 \<le> unat n"
  shows "unat (n - sz - 24) = unat n - unat sz - 24"
proof -
  have "unat (n - sz) = unat n - unat sz"
    using assms by (intro unat_sub_no_wrap) (simp add: word_le_nat_alt)
  moreover from this have "unat (n - sz - 24) = unat (n - sz) - unat (24 :: u64)"
    using assms by (intro unat_sub_no_wrap) (simp add: word_le_nat_alt)
  ultimately show ?thesis by simp
qed

lemma take_block_refines:
  assumes b: "blocks (hdr h) p ((a, n, True) # bs)" and t: "tiled lo hi ((a, n, True) # bs)"
    and hi: "hi < 2 ^ 64" and lo: "8 \<le> lo" and sz: "sz \<le> n" "8 dvd unat sz"
  shows "\<exists>h'. take_block h sz p = (h', snd (alloc_list sz ((a, n, True) # bs)))
    \<and> heap_head h' = heap_head h \<and> blocks (hdr h') p (fst (alloc_list sz ((a, n, True) # bs)))
    \<and> tiled lo hi (fst (alloc_list sz ((a, n, True) # bs)))
    \<and> (\<forall>c. unat c < lo \<longrightarrow> hdr h' c = hdr h c)"
proof -
  from b t have p: "p = a" "a \<noteq> 0" "bh_size (hdr h a) = n" "unat a = lo"
    and bs: "blocks (hdr h) (bh_next (hdr h a)) bs" "tiled (lo + 24 + unat n) hi bs"
    and n: "8 dvd unat n" "lo + 24 + unat n \<le> hi" by auto
  note guard = split_guard [OF n(2) hi lo sz(1)]
  show ?thesis
  proof (cases "unat sz + 32 \<le> unat n")
    case True
    let ?r = "a + 24 + sz"
    have r: "unat ?r = lo + 24 + unat sz"
      by (rule block_end(2) [of _ _ hi]) (use True n hi p in auto)
    then have "unat ?r \<noteq> unat a" "unat ?r \<noteq> 0" using p(4) by simp_all
    then have ra: "?r \<noteq> a" "?r \<noteq> 0" by (metis, metis unat_0)
    let ?h' = "fst (take_block h sz a)"
    have h': "?h' = h\<lparr>hdr := (hdr h)
        (?r := \<lparr>bh_size = n - sz - 24, bh_free = 1, bh_next = bh_next (hdr h a)\<rparr>,
         a := \<lparr>bh_size = sz, bh_free = 0, bh_next = ?r\<rparr>)\<rparr>"
      and sn: "snd (take_block h sz a) = a + 24"
      using take_block_split [of sz h a] guard True p(3) ra(1) by simp_all
    have rest: "unat (n - sz - 24) = unat n - unat sz - 24" by (rule sub_split [OF True])
    have "blocks (hdr ?h') (bh_next (hdr h a)) bs"
      using bs(1) by (subst blocks_cong [OF bs(2), of "hdr ?h'" "hdr h"])
        (use True p(4) r in \<open>auto simp: h'\<close>)
    then have "blocks (hdr ?h') a ((a, sz, False) # (?r, n - sz - 24, True) # bs)"
      using ra p(2) by (simp add: h')
    moreover have "tiled lo hi ((a, sz, False) # (?r, n - sz - 24, True) # bs)"
      using bs(2) n True r rest p(4) sz(2) by (auto simp: ac_simps intro: dvd_diff_nat)
    moreover have "\<forall>c. unat c < lo \<longrightarrow> hdr ?h' c = hdr h c" using p(4) r by (auto simp: h')
    moreover have "take_block h sz a = (?h', a + 24)" using sn by (metis prod.collapse)
    ultimately show ?thesis using True sz(1) p(1) by (intro exI [of _ ?h']) (simp add: h')
  next
    case False
    let ?h' = "upd_hdr h a (\<lambda>b. b\<lparr>bh_free := 0\<rparr>)"
    have "blocks (hdr ?h') (bh_next (hdr h a)) bs"
      using bs(1) by (subst blocks_cong [OF bs(2), of "hdr ?h'" "hdr h"]) (use p(4) in auto)
    then show ?thesis
      using False sz(1) p bs(2) n guard take_block_no_split [of sz h a]
      by (intro exI [of _ ?h']) auto
  qed
qed

lemma kmalloc_loop_refines:
  assumes "blocks (hdr h) p bs" and "tiled lo hi bs" and "hi < 2 ^ 64" and "8 \<le> lo"
    and sz: "8 dvd unat sz"
  shows "\<exists>h'. kmalloc_loop h sz p = Some (h', snd (alloc_list sz bs)) \<and> heap_head h' = heap_head h
    \<and> blocks (hdr h') p (fst (alloc_list sz bs)) \<and> tiled lo hi (fst (alloc_list sz bs))
    \<and> (\<forall>c. unat c < lo \<longrightarrow> hdr h' c = hdr h c)"
  using assms(1,2,3,4)
proof (induction lo hi bs arbitrary: p rule: tiled.induct)
  case (1 lo hi)
  then show ?case by (auto simp: kmalloc_loop.simps)
next
  case (2 lo hi a n f bs)
  then have p: "p = a" "a \<noteq> 0" "bh_size (hdr h a) = n" "(bh_free (hdr h a) \<noteq> 0) = f" "unat a = lo"
    by auto
  show ?case
  proof (cases "f \<and> sz \<le> n")
    case True
    then have "kmalloc_loop h sz p = Some (take_block h sz p)"
      using p by (subst kmalloc_loop.simps) simp
    moreover have "\<exists>h'. take_block h sz p = (h', snd (alloc_list sz ((a, n, f) # bs)))
      \<and> heap_head h' = heap_head h \<and> blocks (hdr h') p (fst (alloc_list sz ((a, n, f) # bs)))
      \<and> tiled lo hi (fst (alloc_list sz ((a, n, f) # bs)))
      \<and> (\<forall>c. unat c < lo \<longrightarrow> hdr h' c = hdr h c)"
    proof -
      from True have f: "f = True" and fit: "sz \<le> n" by simp_all
      show ?thesis using "2.prems"(1,2) unfolding f
        by (rule take_block_refines [OF _ _ "2.prems"(3,4) fit sz])
    qed
    ultimately show ?thesis by (simp only: option.inject)
  next
    case False
    then have l: "kmalloc_loop h sz p = kmalloc_loop h sz (bh_next (hdr h a))"
      using p by (subst kmalloc_loop.simps) auto
    obtain h' where h': "kmalloc_loop h sz (bh_next (hdr h a)) = Some (h', snd (alloc_list sz bs))"
      "heap_head h' = heap_head h" "blocks (hdr h') (bh_next (hdr h a)) (fst (alloc_list sz bs))"
      "tiled (lo + 24 + unat n) hi (fst (alloc_list sz bs))"
      "\<forall>c. unat c < lo + 24 + unat n \<longrightarrow> hdr h' c = hdr h c"
      using "2.IH" [of "bh_next (hdr h a)"] "2.prems" p(1) by auto
    moreover from h'(5) p(5) have "hdr h' a = hdr h a" by simp
    ultimately show ?thesis using l False "2.prems" p
      by (intro exI [of _ h']) (auto split: prod.splits)
  qed
qed

text \<open>Rounding up to a multiple of eight, and where it wraps.\<close>

lemma ALIGN8_unat: "unat (ALIGN8 x) = unat (x + 7) div 8 * 8"
proof -
  have m: "(7 :: u64) = mask 3" by (simp add: mask_eq_exp_minus_1)
  have "ALIGN8 x = push_bit 3 (drop_bit 3 (x + 7))"
    unfolding ALIGN8_def m by (rule bit_word_eqI) (auto simp: bit_simps)
  moreover have id: "take_bit 64 (unat (x + 7)) = unat (x + 7)"
    using unat_bound [of "x + 7"] by (intro take_bit_nat_eq_self) simp
  ultimately have "unat (ALIGN8 x) = take_bit 64 (push_bit 3 (drop_bit 3 (unat (x + 7))))"
    by (simp add: unsigned_push_bit_eq unsigned_drop_bit_eq id)
  moreover have "push_bit 3 (drop_bit 3 (unat (x + 7))) \<le> unat (x + 7)"
    by (simp add: push_bit_eq_mult drop_bit_eq_div)
  then have "take_bit 64 (push_bit 3 (drop_bit 3 (unat (x + 7)))) = push_bit 3 (drop_bit 3 (unat (x + 7)))"
    using unat_bound [of "x + 7"] by (intro take_bit_nat_eq_self) simp
  ultimately show ?thesis by (simp add: push_bit_eq_mult drop_bit_eq_div)
qed


lemma ALIGN8_dvd: "8 dvd unat (ALIGN8 x)"
  by (simp add: ALIGN8_unat)

lemma ALIGN8_ge:
  assumes "x \<le> - 8" and "x \<noteq> 0"
  shows "x \<le> ALIGN8 x" and "unat (ALIGN8 x) < unat x + 8"
proof -
  have "unat x \<le> 2 ^ 64 - 8" using assms(1) by (simp add: word_le_nat_alt)
  then have "unat (x + 7) = unat x + unat (7 :: u64)"
    by (intro unat_add_no_wrap) simp
  then have "unat (ALIGN8 x) = (unat x + 7) div 8 * 8" by (simp add: ALIGN8_unat)
  then show "x \<le> ALIGN8 x" "unat (ALIGN8 x) < unat x + 8"
    unfolding word_le_nat_alt by presburger+
qed

lemma kmalloc_refines:
  assumes "heap_wf lo hi h bs" and "sz \<noteq> 0"
  shows "\<exists>h'. kmalloc h sz = Some (h', snd (alloc_list (ALIGN8 sz) bs))
    \<and> heap_wf lo hi h' (fst (alloc_list (ALIGN8 sz) bs))"
proof -
  have "8 \<le> lo" using assms by (auto simp: heap_wf_def dest: dvd_imp_le)
  with assms kmalloc_loop_refines [of h "heap_head h" bs lo hi "ALIGN8 sz"] ALIGN8_dvd
  show ?thesis by (auto simp: heap_wf_def kmalloc_def)
qed

section \<open>Release refines the abstract release\<close>

text \<open>The addresses and sizes of the allocated payloads.\<close>

definition live :: "block list \<Rightarrow> (u64 \<times> u64) set" where
  "live bs = {(a + 24, n) | a n. (a, n, False) \<in> set bs}"

lemma tiled_member:
  assumes "tiled lo hi bs" and "(a, n, f) \<in> set bs"
  shows "lo \<le> unat a \<and> unat a + 24 + unat n \<le> hi \<and> 8 dvd unat n"
  using assms
proof (induction lo hi bs rule: tiled.induct)
  case (2 lo hi b k g bs)
  then show ?case by (auto dest: tiled_le)
qed simp

lemma merge_refines:
  assumes b: "blocks (hdr h) a ((a, n, f) # bs)" and t: "tiled lo hi ((a, n, f) # bs)"
    and hi: "hi < 2 ^ 64"
  shows "blocks (hdr (kfree h (a + 24))) a (merge_next a n bs) \<and> tiled lo hi (merge_next a n bs)
    \<and> heap_head (kfree h (a + 24)) = heap_head h
    \<and> (\<forall>c. unat c < lo \<longrightarrow> hdr (kfree h (a + 24)) c = hdr h c)"
proof -
  from b t have a: "a \<noteq> 0" "bh_size (hdr h a) = n" "unat a = lo"
    and bs: "blocks (hdr h) (bh_next (hdr h a)) bs" "tiled (lo + 24 + unat n) hi bs"
    and n: "lo + 24 + unat n \<le> hi" "8 dvd unat n" by auto
  note e = block_end [OF n(1) hi a(3)]
  from e(1) have nz: "a + 24 \<noteq> 0" by auto
  have frame: "blocks m p bs = blocks (hdr h) p bs"
    if "\<And>c. c \<noteq> a \<Longrightarrow> m c = hdr h c" for m p
  proof (rule blocks_cong [OF bs(2)])
    fix c :: u64
    assume "lo + 24 + unat n \<le> unat c"
    with a(3) have "c \<noteq> a" by auto
    then show "m c = hdr h c" by (rule that)
  qed
  show ?thesis
  proof (cases bs)
    case Nil
    then show ?thesis using a bs n nz by (simp add: kfree_def HEADER_SIZE_def Let_def)
  next
    case (Cons c cs)
    obtain d k g where c: "c = (d, k, g)" by (cases c)
    from bs Cons c have d: "bh_next (hdr h a) = d" "d \<noteq> 0" "unat d = lo + 24 + unat n"
      "bh_size (hdr h d) = k" "(bh_free (hdr h d) \<noteq> 0) = g"
      "blocks (hdr h) (bh_next (hdr h d)) cs" "tiled (lo + 24 + unat n + 24 + unat k) hi cs"
      "8 dvd unat k" "lo + 24 + unat n + 24 + unat k \<le> hi" by auto
    have adj: "d = a + 24 + n" using e(2) d(3) by (simp add: word_unat_eq_iff)
    from d(3) a(3) have da: "d \<noteq> a" by auto
    show ?thesis
    proof (cases g)
      case False
      let ?h = "kfree h (a + 24)"
      have h': "?h = upd_hdr h a (\<lambda>b. b\<lparr>bh_free := 1\<rparr>)"
        using False a d da nz by (auto simp: kfree_def HEADER_SIZE_def Let_def)
      have "blocks (hdr ?h) d bs" using bs(1) d(1) by (subst frame) (simp_all add: h')
      then show ?thesis using False a d(1-5) n bs(2) Cons c h' by auto
    next
      case True
      have sum: "unat (n + (24 + k)) = unat n + 24 + unat k"
      proof -
        have "unat (24 + k) = unat (24 :: u64) + unat k"
          using d(9) hi by (intro unat_add_no_wrap) simp
        moreover from this have "unat (n + (24 + k)) = unat n + unat (24 + k)"
          using d(9) hi by (intro unat_add_no_wrap) simp
        ultimately show ?thesis by simp
      qed
      let ?h = "kfree h (a + 24)"
      have h': "hdr ?h = (hdr h)(a := \<lparr>bh_size = n + (24 + k), bh_free = 1, bh_next = bh_next (hdr h d)\<rparr>)"
        "heap_head ?h = heap_head h"
        using True a d da nz adj by (auto simp: kfree_def HEADER_SIZE_def Let_def upd_hdr_def fun_eq_iff)
      have "blocks (hdr ?h) (bh_next (hdr h d)) cs"
        using d(6) by (subst blocks_cong [OF d(7), of "hdr ?h" "hdr h"]) (use a(3) in \<open>auto simp: h'\<close>)
      then show ?thesis using True Cons c a d n sum by (simp add: h' dvd_add ac_simps)
    qed
  qed
qed


lemma kfree_refines_aux:
  assumes "blocks (hdr h) p bs" and "tiled lo hi bs" and "hi < 2 ^ 64" and "(a, n, f) \<in> set bs"
  shows "blocks (hdr (kfree h (a + 24))) p (free_list (a + 24) bs) \<and> tiled lo hi (free_list (a + 24) bs)
    \<and> heap_head (kfree h (a + 24)) = heap_head h
    \<and> (\<forall>c. unat c < lo \<longrightarrow> hdr (kfree h (a + 24)) c = hdr h c)"
  using assms
proof (induction lo hi bs arbitrary: p rule: tiled.induct)
  case (2 lo hi b k g bs)
  show ?case
  proof (cases "b = a")
    case True
    with "2.prems" have p: "p = a" and m: "free_list (a + 24) ((b, k, g) # bs) = merge_next a k bs" by auto
    from "2.prems"(1,2) have "blocks (hdr h) a ((a, k, g) # bs)" "tiled lo hi ((a, k, g) # bs)"
      unfolding True p by simp_all
    from merge_refines [OF this "2.prems"(3)] show ?thesis unfolding m p by blast
  next
    case False
    with "2.prems" have mem: "(a, n, f) \<in> set bs" by auto
    with "2.IH" [of "bh_next (hdr h b)"] "2.prems"
    have ih: "blocks (hdr (kfree h (a + 24))) (bh_next (hdr h b)) (free_list (a + 24) bs)"
      "tiled (lo + 24 + unat k) hi (free_list (a + 24) bs)"
      "heap_head (kfree h (a + 24)) = heap_head h"
      "\<forall>c. unat c < lo + 24 + unat k \<longrightarrow> hdr (kfree h (a + 24)) c = hdr h c" by auto
    then have "hdr (kfree h (a + 24)) b = hdr h b" using "2.prems"(2) by auto
    with ih False "2.prems" show ?thesis by auto
  qed
qed simp

lemma kfree_refines:
  assumes "heap_wf lo hi h bs" and "(p, n) \<in> live bs"
  shows "heap_wf lo hi (kfree h p) (free_list p bs)"
  using assms kfree_refines_aux [of h "heap_head h" bs lo hi]
  by (auto simp: heap_wf_def live_def)

section \<open>Live payloads\<close>

lemma alloc_list_fails:
  assumes "tiled lo hi bs" and "hi < 2 ^ 64" and "0 < lo"
  shows "snd (alloc_list sz bs) = 0 \<longleftrightarrow> (\<forall>(a, n, f) \<in> set bs. f \<longrightarrow> n < sz)"
    and "snd (alloc_list sz bs) = 0 \<Longrightarrow> fst (alloc_list sz bs) = bs"
proof -
  have "(snd (alloc_list sz bs) = 0 \<longleftrightarrow> (\<forall>(a, n, f) \<in> set bs. f \<longrightarrow> n < sz))
    \<and> (snd (alloc_list sz bs) = 0 \<longrightarrow> fst (alloc_list sz bs) = bs)"
    using assms
  proof (induction lo hi bs rule: tiled.induct)
    case (2 lo hi a n f bs)
    then have "unat (a + 24) = lo + 24" by (intro block_end(1) [of lo n hi a]) auto
    then have "a + 24 \<noteq> 0" by auto
    with 2 show ?case by (auto split: prod.splits simp: not_le)
  qed simp
  then show "snd (alloc_list sz bs) = 0 \<longleftrightarrow> (\<forall>(a, n, f) \<in> set bs. f \<longrightarrow> n < sz)"
    and "snd (alloc_list sz bs) = 0 \<Longrightarrow> fst (alloc_list sz bs) = bs" by blast+
qed

lemma live_Cons:
  "live ((a, n, f) # bs) = (if f then live bs else insert (a + 24, n) (live bs))"
  by (auto simp: live_def)

lemma live_after:
  assumes "tiled lo hi bs" and "(p, n) \<in> live bs" and "hi < 2 ^ 64"
  shows "lo + 24 \<le> unat p" and "unat p + unat n \<le> hi"
proof -
  from assms(2) obtain a where a: "p = a + 24" "(a, n, False) \<in> set bs" by (auto simp: live_def)
  with tiled_member [OF assms(1) a(2)] have b: "lo \<le> unat a" "unat a + 24 + unat n \<le> hi" by auto
  with block_end(1) [OF b(2) assms(3) refl] a(1) show "lo + 24 \<le> unat p" "unat p + unat n \<le> hi" by auto
qed

lemma tiled_alloc_list:
  assumes "tiled lo hi bs" and "hi < 2 ^ 64" and "8 dvd unat sz"
  shows "tiled lo hi (fst (alloc_list sz bs))"
  using assms
proof (induction lo hi bs rule: tiled.induct)
  case (2 lo hi a n f bs)
  show ?case
  proof (cases "f \<and> sz \<le> n \<and> unat sz + 32 \<le> unat n")
    case True
    moreover from this have "unat (a + 24 + sz) = lo + 24 + unat sz"
      using "2.prems" by (intro block_end(2) [of lo sz hi a]) auto
    ultimately show ?thesis using "2.prems" sub_split [of sz n]
      by (auto simp: ac_simps intro: dvd_diff_nat)
  next
    case False
    with 2 show ?thesis by (auto split: prod.splits)
  qed
qed simp

lemma alloc_list_live:
  assumes "tiled lo hi bs" and "hi < 2 ^ 64" and "0 < lo" and "snd (alloc_list sz bs) \<noteq> 0"
    and "8 dvd unat sz"
  shows "\<exists>n. live (fst (alloc_list sz bs)) = insert (snd (alloc_list sz bs), n) (live bs)
    \<and> (\<forall>k. (snd (alloc_list sz bs), k) \<notin> live bs) \<and> sz \<le> n \<and> unat n < unat sz + 32"
  using assms
proof (induction lo hi bs rule: tiled.induct)
  case (2 lo hi a n f bs)
  then have e: "unat (a + 24) = lo + 24" by (intro block_end(1) [of lo n hi a]) auto
  have fresh: "(a + 24, k) \<notin> live bs" for k
    using "2.prems"(1) live_after(1) [of "lo + 24 + unat n" hi bs "a + 24" k] "2.prems"(2) e by auto
  show ?case
  proof (cases "f \<and> sz \<le> n")
    case True
    then show ?thesis using fresh
      by (cases "unat sz + 32 \<le> unat n") (auto simp: live_Cons not_le)
  next
    case False
    then have r: "snd (alloc_list sz ((a, n, f) # bs)) = snd (alloc_list sz bs)"
      "fst (alloc_list sz ((a, n, f) # bs)) = (a, n, f) # fst (alloc_list sz bs)"
      by (auto split: prod.splits)
    with "2.IH" "2.prems" obtain k where k: "live (fst (alloc_list sz bs)) = insert (snd (alloc_list sz bs), k) (live bs)"
      "\<forall>k. (snd (alloc_list sz bs), k) \<notin> live bs" "sz \<le> k" "unat k < unat sz + 32" by auto
    have t: "tiled (lo + 24 + unat n) hi bs" using "2.prems"(1) by simp
    have "tiled (lo + 24 + unat n) hi (fst (alloc_list sz bs))"
      by (rule tiled_alloc_list [OF t "2.prems"(2,5)])
    from live_after(1) [OF this _ "2.prems"(2), of "snd (alloc_list sz bs)" k]
    have "lo + 24 + unat n + 24 \<le> unat (snd (alloc_list sz bs))" by (simp add: k(1))
    with e have "snd (alloc_list sz bs) \<noteq> a + 24" by auto
    with k r show ?thesis by (auto simp: live_Cons)
  qed
qed simp


lemma live_merge_next: "live (merge_next a n bs) = live bs"
  by (induction a n bs rule: merge_next.induct) (auto simp: live_Cons)

lemma free_list_live:
  assumes "tiled lo hi bs" and "hi < 2 ^ 64" and "(p, n) \<in> live bs"
  shows "live (free_list p bs) = live bs - {(p, n)}"
  using assms
proof (induction lo hi bs rule: tiled.induct)
  case (2 lo hi a k f bs)
  then have e: "unat (a + 24) = lo + 24" by (intro block_end(1) [of lo k hi a]) auto
  have fresh: "(a + 24, j) \<notin> live bs" for j
    using "2.prems"(1) live_after(1) [of "lo + 24 + unat k" hi bs "a + 24" j] "2.prems"(2) e by auto
  show ?case
  proof (cases "p = a + 24")
    case True
    with "2.prems"(3) fresh have "\<not> f" "n = k" by (auto simp: live_Cons split: if_splits)
    with True fresh show ?thesis by (auto simp: live_Cons live_merge_next)
  next
    case False
    with 2 show ?thesis by (auto simp: live_Cons split: if_splits)
  qed
qed (simp add: live_def)

lemma live_disjoint:
  assumes "tiled lo hi bs" and "hi < 2 ^ 64" and "(p, n) \<in> live bs" and "(q, k) \<in> live bs"
    and "(p, n) \<noteq> (q, k)"
  shows "unat p + unat n + 24 \<le> unat q \<or> unat q + unat k + 24 \<le> unat p"
  using assms
proof (induction lo hi bs rule: tiled.induct)
  case (2 lo hi a j f bs)
  then have e: "unat (a + 24) = lo + 24" by (intro block_end(1) [of lo j hi a]) auto
  have after: "lo + 24 + unat j + 24 \<le> unat r" if "(r, l) \<in> live bs" for r l
    using live_after(1) [of "lo + 24 + unat j" hi bs r l] that "2.prems"(1,2) by auto
  show ?case
  proof (cases "(p, n) \<in> live bs \<and> (q, k) \<in> live bs")
    case True
    with 2 show ?thesis by auto
  next
    case False
    with "2.prems"(3-5) e after show ?thesis
      by (cases f) (auto simp: live_Cons)
  qed
qed (simp add: live_def)

lemma free_then_alloc:
  assumes "tiled lo hi bs" and "hi < 2 ^ 64" and "snd (alloc_list sz bs) \<noteq> 0" and "8 dvd unat sz"
  shows "snd (alloc_list sz (free_list (snd (alloc_list sz bs)) (fst (alloc_list sz bs)))) =
    snd (alloc_list sz bs)"
  using assms
proof (induction lo hi bs rule: tiled.induct)
  case (2 lo hi a n f bs)
  then have e: "unat (a + 24) = lo + 24" by (intro block_end(1) [of lo n hi a]) auto
  show ?case
  proof (cases "f \<and> sz \<le> n")
    case True
    show ?thesis
    proof (cases "unat sz + 32 \<le> unat n")
      case True
      then show ?thesis using \<open>f \<and> sz \<le> n\<close> by (simp add: algebra_simps)
    next
      case small: False
      have fits: "sz \<le> n + (24 + j)" if "bs = (b, j, True) # cs" for b j cs
      proof -
        from that "2.prems"(1,2) have j: "lo + 24 + unat n + 24 + unat j < 2 ^ 64" by auto
        then have "unat (24 + j) = unat (24 :: u64) + unat j" by (intro unat_add_no_wrap) simp
        moreover from this j have "unat (n + (24 + j)) = unat n + unat (24 + j)"
          by (intro unat_add_no_wrap) simp
        ultimately show ?thesis using \<open>f \<and> sz \<le> n\<close> by (simp add: word_le_nat_alt)
      qed
      then show ?thesis using True small
        by (cases "(a, n, bs)" rule: merge_next.cases) auto
    qed
  next
    case False
    then have r: "alloc_list sz ((a, n, f) # bs) = ((a, n, f) # fst (alloc_list sz bs), snd (alloc_list sz bs))"
      by (auto split: prod.splits)
    with "2.prems" have t: "tiled (lo + 24 + unat n) hi bs" and nz: "snd (alloc_list sz bs) \<noteq> 0"
      by auto
    from e have "0 < lo + 24 + unat n" by simp
    from alloc_list_live [OF t "2.prems"(2) this nz "2.prems"(4)]
    obtain k where "(snd (alloc_list sz bs), k) \<in> live (fst (alloc_list sz bs))" by auto
    from live_after(1) [OF tiled_alloc_list [OF t "2.prems"(2,4)] this "2.prems"(2)] e
    have "snd (alloc_list sz bs) \<noteq> a + 24" by auto
    moreover have "snd (alloc_list sz (free_list (snd (alloc_list sz bs)) (fst (alloc_list sz bs)))) =
      snd (alloc_list sz bs)"
      by (rule "2.IH" [OF t "2.prems"(2) nz "2.prems"(4)])
    ultimately show ?thesis using False by (auto simp: r split: prod.splits)
  qed
qed simp

lemma live_aligned:
  assumes "tiled lo hi bs" and "hi < 2 ^ 64" and "8 dvd lo" and "(p, n) \<in> live bs"
  shows "8 dvd unat p"
  using assms
proof (induction lo hi bs rule: tiled.induct)
  case (2 lo hi a k f bs)
  then have "unat (a + 24) = lo + 24" by (intro block_end(1) [of lo k hi a]) auto
  with 2 show ?case by (auto simp: live_Cons split: if_splits)
qed (simp add: live_def)

section \<open>Clients of the heap\<close>

text \<open>
  The states a client can reach from \<open>h0\<close>, with the allocations it holds (address and
  requested size). A client frees only what it holds. Requests above \<open>2\<^sup>6\<^sup>4 - 8\<close> are excluded:
  rounding them up wraps to 0.
\<close>

inductive heap_reach :: "heap \<Rightarrow> heap \<Rightarrow> (u64 \<times> u64) set \<Rightarrow> bool" for h0 where
  reach_start: "heap_reach h0 h0 {}"
| reach_null: "heap_reach h0 h A \<Longrightarrow> kmalloc h sz = Some (h', 0) \<Longrightarrow> heap_reach h0 h' A"
| reach_kmalloc: "heap_reach h0 h A \<Longrightarrow> sz \<le> - 8 \<Longrightarrow> kmalloc h sz = Some (h', p) \<Longrightarrow> p \<noteq> 0 \<Longrightarrow>
    heap_reach h0 h' (insert (p, sz) A)"
| reach_kfree: "heap_reach h0 h A \<Longrightarrow> (p, sz) \<in> A \<Longrightarrow> heap_reach h0 (kfree h p) (A - {(p, sz)})"

inductive_cases heap_reach_elim: "heap_reach h0 h A"

text \<open>What ties the client's allocations to the abstract heap.\<close>

definition held :: "(u64 \<times> u64) set \<Rightarrow> block list \<Rightarrow> bool" where
  "held A bs \<longleftrightarrow> (\<forall>p sz. (p, sz) \<in> A \<longrightarrow> (\<exists>n. (p, n) \<in> live bs \<and> sz \<le> n))
    \<and> (\<forall>p sz sz'. (p, sz) \<in> A \<longrightarrow> (p, sz') \<in> A \<longrightarrow> sz = sz')"

lemma held_insert:
  assumes "held A bs" and "live bs' = insert (p, n) (live bs)" and "\<forall>k. (p, k) \<notin> live bs" and "sz \<le> n"
  shows "held (insert (p, sz) A) bs'"
proof -
  from assms(1,3) have "(p, k) \<notin> A" for k unfolding held_def by blast
  with assms show ?thesis unfolding held_def by (metis insert_iff prod.inject)
qed

lemma held_remove:
  assumes "held A bs" and "live bs' = live bs - {(p, n)}" and "(p, sz) \<in> A"
  shows "held (A - {(p, sz)}) bs'"
proof -
  from assms have "(p, k) \<notin> A - {(p, sz)}" for k by (auto simp: held_def)
  with assms show ?thesis unfolding held_def by (metis DiffE DiffI prod.inject singletonD)
qed

lemma heap_reach_invariant:
  assumes "heap_reach h0 h A" and "heap_wf lo hi h0 bs0"
  shows "\<exists>bs. heap_wf lo hi h bs \<and> held A bs"
  using assms
proof (induction rule: heap_reach.induct)
  case reach_start
  then show ?case by (auto simp: held_def)
next
  case (reach_null h A sz h')
  then obtain bs where bs: "heap_wf lo hi h bs" "held A bs" by auto
  show ?case
  proof (cases "sz = 0")
    case True
    with bs reach_null.hyps(2) show ?thesis by (auto simp: kmalloc_def)
  next
    case False
    from kmalloc_refines [OF bs(1) this] reach_null.hyps(2)
    have "snd (alloc_list (ALIGN8 sz) bs) = 0" "heap_wf lo hi h' (fst (alloc_list (ALIGN8 sz) bs))" by auto
    moreover from this alloc_list_fails(2) [of lo hi bs] bs(1)
    have "fst (alloc_list (ALIGN8 sz) bs) = bs" by (simp add: heap_wf_def)
    ultimately show ?thesis using bs(2) by auto
  qed
next
  case (reach_kmalloc h A sz h' p)
  then obtain bs where bs: "heap_wf lo hi h bs" "held A bs" by auto
  from reach_kmalloc.hyps have sz: "sz \<noteq> 0" by (auto simp: kmalloc_def)
  let ?bs = "fst (alloc_list (ALIGN8 sz) bs)"
  from kmalloc_refines [OF bs(1) sz] reach_kmalloc.hyps(3)
  have p: "snd (alloc_list (ALIGN8 sz) bs) = p" and wf: "heap_wf lo hi h' ?bs" by auto
  with alloc_list_live [of lo hi bs "ALIGN8 sz"] bs(1) reach_kmalloc.hyps(4) ALIGN8_dvd
  obtain n where n: "live ?bs = insert (p, n) (live bs)" "\<forall>k. (p, k) \<notin> live bs" "ALIGN8 sz \<le> n"
    by (auto simp: heap_wf_def)
  with ALIGN8_ge(1) [OF reach_kmalloc.hyps(2) sz] have "sz \<le> n" by simp
  with n bs(2) have "held (insert (p, sz) A) ?bs" by (intro held_insert [of A bs])
  with wf show ?case by blast
next
  case (reach_kfree h A p sz)
  then obtain bs where bs: "heap_wf lo hi h bs" "held A bs" by auto
  with reach_kfree.hyps(2) obtain n where n: "(p, n) \<in> live bs" unfolding held_def by blast
  from bs(1) have "live (free_list p bs) = live bs - {(p, n)}"
    by (intro free_list_live [OF _ _ n]) (auto simp: heap_wf_def)
  with bs(2) reach_kfree.hyps(2) have "held (A - {(p, sz)}) (free_list p bs)"
    by (intro held_remove [of A bs])
  with kfree_refines [OF bs(1) n] show ?case by blast
qed


lemma dvd_unat_add:
  fixes a b :: u64
  assumes "8 dvd unat a" and "8 dvd unat b"
  shows "8 dvd unat (a + b)"
  using assms by (simp add: unat_word_ariths dvd_mod)

lemma heap_init_wf:
  assumes init: "heap_init s m off np = Some (s', h0)" and wf: "pmm_wf s"
    and head: "heap_head h0 \<noteq> 0" and off: "8 dvd unat off"
    and fits: "unat (heap_head h0) + unat np * 4096 < 2 ^ 64"
  shows "heap_wf (unat (heap_head h0)) (unat (heap_head h0) + unat np * 4096) h0
    [(heap_head h0, np * 4096 - 24, True)]"
proof -
  from init obtain phys where phys: "pmm_alloc_pages s np = Some (s', phys)" "phys \<noteq> 0"
    and h0: "heap_head h0 = phys + off"
      "hdr h0 (heap_head h0) = \<lparr>bh_size = np * 4096 - 24, bh_free = 1, bh_next = 0\<rparr>"
    by (auto simp: heap_init_def PMM_PAGE_SIZE_def HEADER_SIZE_def split: option.splits if_splits)
  from phys have np: "np \<noteq> 0" by (auto simp: pmm_alloc_pages_def)
  obtain k where "phys = k * 4096"
    using pmm_alloc_pages_cases [OF wf, of np] phys by (auto simp: PMM_PAGE_SIZE_def split: if_splits)
  then have "8 dvd unat phys" by (simp add: unat_word_ariths dvd_mod)
  then have lo: "8 dvd unat (heap_head h0)" using off by (simp only: h0(1) dvd_unat_add)
  have "unat (np * 4096) = unat np * 4096" using fits by (simp add: unat_word_ariths)
  moreover have "0 < unat np" using np by (simp add: unat_gt_0)
  moreover from calculation have "unat (np * 4096 - 24) = unat (np * 4096) - unat (24 :: u64)"
    by (intro unat_sub_no_wrap) (simp add: word_le_nat_alt)
  moreover from calculation(2) have "24 + (unat np * 4096 - 24) = unat np * 4096" by simp
  ultimately show ?thesis using head fits lo h0(2)
    by (simp add: heap_wf_def unat_gt_0 dvd_diff_nat)
qed

section \<open>Properties of the heap\<close>

text \<open>The heap that \<open>heap_init\<close> makes of the two free pages of the example pool.\<close>

definition heap1 :: heap where
  "heap1 = \<lparr>heap_head = 8192, hdr = (\<lambda>_. \<lparr>bh_size = 8168, bh_free = 1, bh_next = 0\<rparr>)\<rparr>"

lemma heap1_init: "heap_init pool4 (hdr heap1) 0 2 = Some (take_run pool4 2 2, heap1)"
  by (simp add: heap_init_def pool4_alloc2 upd_hdr_def heap1_def PMM_PAGE_SIZE_def HEADER_SIZE_def
      fun_upd_idem)

lemma heap1_wf: "heap_wf 8192 16384 heap1 [(8192, 8168, True)]"
  by (simp add: heap_wf_def heap1_def)

lemma heap1_alloc: "\<exists>h. kmalloc heap1 100 = Some (h, 8216) \<and>
    heap_wf 8192 16384 h [(8192, 104, False), (8320, 8040, True)]"
  using kmalloc_refines [OF heap1_wf, of 100] by (simp add: ALIGN8_def word_le_nat_alt)


text \<open>C3. From \<open>heap_init\<close> on, whatever a client allocates and frees: the payloads it holds lie
  inside the reserved pages, behind their headers, aligned to 8, pairwise disjoint with at
  least a header between them, and a further \<open>kmalloc\<close> of any size returns.\<close>

theorem heap_allocations_disjoint:
  assumes init: "heap_init s m off np = Some (s', h0)" and wf: "pmm_wf s"
    and head: "heap_head h0 \<noteq> 0" and off: "8 dvd unat off"
    and fits: "unat (heap_head h0) + unat np * 4096 < 2 ^ 64"
    and reach: "heap_reach h0 h A"
  shows "((p, n) \<in> A \<longrightarrow> unat (heap_head h0) + 24 \<le> unat p
      \<and> unat p + unat n \<le> unat (heap_head h0) + unat np * 4096 \<and> 8 dvd unat p)
    \<and> ((p, n) \<in> A \<longrightarrow> (q, k) \<in> A \<longrightarrow> (p, n) \<noteq> (q, k) \<longrightarrow>
      unat p + unat n + 24 \<le> unat q \<or> unat q + unat k + 24 \<le> unat p)
    \<and> kmalloc h sz \<noteq> None"
proof -
  let ?lo = "unat (heap_head h0)" and ?hi = "unat (heap_head h0) + unat np * 4096"
  obtain bs where bs: "heap_wf ?lo ?hi h bs" "held A bs"
    using heap_reach_invariant [OF reach heap_init_wf [OF init wf head off fits]] by blast
  then have t: "tiled ?lo ?hi bs" "?hi < 2 ^ 64" "8 dvd ?lo" by (simp_all add: heap_wf_def)
  have in_live: "\<exists>k. (r, k) \<in> live bs \<and> unat j \<le> unat k" if "(r, j) \<in> A" for r j
    using bs(2) that unfolding held_def word_le_nat_alt by blast
  have "8 dvd unat r" if "(r, j) \<in> live bs" for r j
    using that t live_aligned by blast
  with in_live live_after [OF t(1) _ t(2)] have "(p, n) \<in> A \<longrightarrow> ?lo + 24 \<le> unat p
      \<and> unat p + unat n \<le> ?hi \<and> 8 dvd unat p"
    by (meson add_left_mono order_trans)
  moreover have "unat p + unat n + 24 \<le> unat q \<or> unat q + unat k + 24 \<le> unat p"
    if A: "(p, n) \<in> A" "(q, k) \<in> A" "(p, n) \<noteq> (q, k)"
  proof -
    from A bs(2) have "p \<noteq> q" unfolding held_def by blast
    moreover from in_live A obtain n' k' where "(p, n') \<in> live bs" "unat n \<le> unat n'"
      "(q, k') \<in> live bs" "unat k \<le> unat k'" by blast
    ultimately show ?thesis using live_disjoint [OF t(1,2), of p n' q k'] by auto
  qed
  moreover have "kmalloc h sz \<noteq> None"
    using kmalloc_refines [OF bs(1), of sz] by (cases "sz = 0") (auto simp: kmalloc_def)
  ultimately show ?thesis by blast
qed


theorem heap_allocations_disjoint_witness:
  "\<exists>h h' p. kmalloc heap1 100 = Some (h, 8216) \<and> kmalloc h 300 = Some (h', p)"
proof -
  obtain h where h: "kmalloc heap1 100 = Some (h, 8216)" using heap1_alloc by blast
  then have "heap_reach heap1 h {(8216, 100)}"
    using heap_reach.reach_kmalloc [OF heap_reach.reach_start, of 100 heap1 h 8216]
    by (simp add: word_le_nat_alt)
  from heap_allocations_disjoint [OF heap1_init pool4_wf _ _ _ this, of 8216 100 8216 100 300] h
  show ?thesis by (auto simp: heap1_def)
qed

text \<open>C21. On a well-formed heap \<open>kmalloc\<close> is first fit with splitting on the list of blocks and
  \<open>kfree\<close> of a live payload is release with forward coalescing: the heap stays a tiling of its
  pages, exactly one payload enters or leaves the live set, and NULL is returned, with nothing
  changed, exactly when no free block is large enough.\<close>

theorem kmalloc_kfree_refine:
  assumes wf: "heap_wf lo hi h bs" and sz: "sz \<noteq> 0"
  shows "(\<exists>h'. kmalloc h sz = Some (h', snd (alloc_list (ALIGN8 sz) bs))
      \<and> heap_wf lo hi h' (fst (alloc_list (ALIGN8 sz) bs)))
    \<and> (snd (alloc_list (ALIGN8 sz) bs) = 0 \<longleftrightarrow> (\<forall>(a, n, f) \<in> set bs. f \<longrightarrow> n < ALIGN8 sz))
    \<and> (\<forall>p n. (p, n) \<in> live bs \<longrightarrow>
      heap_wf lo hi (kfree h p) (free_list p bs) \<and> live (free_list p bs) = live bs - {(p, n)})"
proof -
  from wf have t: "tiled lo hi bs" "hi < 2 ^ 64" "0 < lo" by (simp_all add: heap_wf_def)
  show ?thesis
    using kmalloc_refines [OF wf sz] alloc_list_fails(1) [OF t] kfree_refines [OF wf]
      free_list_live [OF t(1,2)] by blast
qed

theorem kmalloc_kfree_refine_witness:
  "\<exists>h. kmalloc heap1 100 = Some (h, 8216)
    \<and> heap_wf 8192 16384 (kfree h 8216) [(8192, 8168, True)]"
proof -
  from heap1_alloc obtain h where h: "kmalloc heap1 100 = Some (h, 8216)"
    and wf: "heap_wf 8192 16384 h [(8192, 104, False), (8320, 8040, True)]" by blast
  have "(8216, 104) \<in> live [(8192, 104, False), (8320 :: u64, 8040 :: u64, True)]"
    by (simp add: live_Cons)
  with kmalloc_kfree_refine [OF wf one_neq_zero]
  have "heap_wf 8192 16384 (kfree h 8216) (free_list 8216 [(8192, 104, False), (8320, 8040, True)])"
    by blast
  with h show ?thesis by auto
qed

text \<open>Freeing what \<open>kmalloc\<close> returned makes the same request succeed again at the same
  address: no capacity is lost by an allocation that is given back.\<close>

theorem kmalloc_kfree_reuse:
  assumes wf: "heap_wf lo hi h bs" and alloc: "kmalloc h sz = Some (h', p)" and p: "p \<noteq> 0"
  shows "\<exists>h''. kmalloc (kfree h' p) sz = Some (h'', p)"
proof -
  from alloc p have sz: "sz \<noteq> 0" by (auto simp: kmalloc_def)
  from wf have t: "tiled lo hi bs" "hi < 2 ^ 64" "0 < lo" by (simp_all add: heap_wf_def)
  from kmalloc_refines [OF wf sz] alloc
  have r: "snd (alloc_list (ALIGN8 sz) bs) = p" "heap_wf lo hi h' (fst (alloc_list (ALIGN8 sz) bs))" by auto
  with alloc_list_live [OF t, of "ALIGN8 sz"] p ALIGN8_dvd
  obtain n where "(p, n) \<in> live (fst (alloc_list (ALIGN8 sz) bs))" by auto
  from kmalloc_refines [OF kfree_refines [OF r(2) this] sz]
    free_then_alloc [OF t(1,2), of "ALIGN8 sz"] r(1) p ALIGN8_dvd
  show ?thesis by auto
qed

theorem kmalloc_kfree_reuse_witness:
  "\<exists>h h''. kmalloc heap1 100 = Some (h, 8216) \<and> kmalloc (kfree h 8216) 100 = Some (h'', 8216)"
proof -
  from heap1_alloc obtain h where h: "kmalloc heap1 100 = Some (h, 8216)" by blast
  from kmalloc_kfree_reuse [OF heap1_wf h] h show ?thesis by auto
qed

text \<open>Rounding a request within eight of \<open>2\<^sup>6\<^sup>4\<close> wraps to 0: the request then succeeds with any
  free block.\<close>

lemma ALIGN8_wraps: "ALIGN8 (- 1) = 0"
  by (simp add: ALIGN8_def)

end
