(* ===== verification/Vmm.thy ===== *)
theory Vmm
  imports Pmm
begin

text \<open>
  kernel/src/mm/vmm.c: four-level page tables, reached through the higher-half direct map and
  allocated from the page allocator. The memory that holds the tables is a store of 64-bit
  entries by virtual address; \<open>table[index]\<close> is the entry at \<open>table + 8 * index\<close>. The
  abstraction is the function from an index path and a last index to the leaf entry; an
  address space is well formed (\<open>vmm_inv\<close>) when its tables form a tree of distinct pages, none
  of them free. The control-register read of \<open>vmm_init\<close> is an argument, and \<open>invlpg\<close>, which
  only drops a cached translation, has no counterpart.
\<close>

section \<open>State and operations\<close>

record vmm =
  g_hhdm_offset :: u64
  g_kernel_space :: u64
  words :: "u64 \<Rightarrow> u64"
  frames :: pmm

definition VMM_PAGE_SIZE :: u64 where
  "VMM_PAGE_SIZE = 4096"

definition VMM_FLAG_PRESENT :: u64 where
  "VMM_FLAG_PRESENT = 1"

definition VMM_FLAG_WRITABLE :: u64 where
  "VMM_FLAG_WRITABLE = 2"

definition VMM_FLAG_USER :: u64 where
  "VMM_FLAG_USER = 4"

definition VMM_FLAG_NX :: u64 where
  "VMM_FLAG_NX = push_bit 63 1"

definition ADDR_MASK :: u64 where
  "ADDR_MASK = NOT 0xFFF"

definition PML4_INDEX :: "u64 \<Rightarrow> u64" where
  "PML4_INDEX vaddr = drop_bit 39 vaddr AND 0x1FF"

definition PDPT_INDEX :: "u64 \<Rightarrow> u64" where
  "PDPT_INDEX vaddr = drop_bit 30 vaddr AND 0x1FF"

definition PD_INDEX :: "u64 \<Rightarrow> u64" where
  "PD_INDEX vaddr = drop_bit 21 vaddr AND 0x1FF"

definition PT_INDEX :: "u64 \<Rightarrow> u64" where
  "PT_INDEX vaddr = drop_bit 12 vaddr AND 0x1FF"

definition phys_to_virt :: "vmm \<Rightarrow> u64 \<Rightarrow> u64" where
  "phys_to_virt st phys = phys + g_hhdm_offset st"

definition entry_at :: "vmm \<Rightarrow> u64 \<Rightarrow> u64 \<Rightarrow> u64" where
  "entry_at st table index = words st (table + 8 * index)"

definition set_entry :: "vmm \<Rightarrow> u64 \<Rightarrow> u64 \<Rightarrow> u64 \<Rightarrow> vmm" where
  "set_entry st table index e = st\<lparr>words := (words st)(table + 8 * index := e)\<rparr>"

definition zero_table :: "vmm \<Rightarrow> u64 \<Rightarrow> vmm" where
  "zero_table st table =
    st\<lparr>words := (\<lambda>a. if a - table < VMM_PAGE_SIZE then 0 else words st a)\<rparr>"

definition get_or_create_table :: "vmm \<Rightarrow> u64 \<Rightarrow> u64 \<Rightarrow> vmm \<times> u64" where
  "get_or_create_table st table index =
    (if entry_at st table index AND VMM_FLAG_PRESENT = 0
     then
       (case pmm_alloc_page (frames st) of (fr, new_phys) \<Rightarrow>
         let st1 = st\<lparr>frames := fr\<rparr>
         in if new_phys = 0 then (st1, 0)
            else
              (let st2 = zero_table st1 (phys_to_virt st1 new_phys);
                   st3 = set_entry st2 table index
                     (new_phys OR VMM_FLAG_PRESENT OR VMM_FLAG_WRITABLE OR VMM_FLAG_USER)
               in (st3, phys_to_virt st3 (entry_at st3 table index AND ADDR_MASK))))
     else (st, phys_to_virt st (entry_at st table index AND ADDR_MASK)))"

definition get_table_or_null :: "vmm \<Rightarrow> u64 \<Rightarrow> u64 \<Rightarrow> u64" where
  "get_table_or_null st table index =
    (if entry_at st table index AND VMM_FLAG_PRESENT = 0 then 0
     else phys_to_virt st (entry_at st table index AND ADDR_MASK))"

definition vmm_init :: "vmm \<Rightarrow> u64 \<Rightarrow> u64 \<Rightarrow> vmm" where
  "vmm_init st hhdm_offset cr3 =
    st\<lparr>g_hhdm_offset := hhdm_offset, g_kernel_space := cr3 AND ADDR_MASK\<rparr>"

definition vmm_kernel_space :: "vmm \<Rightarrow> u64" where
  "vmm_kernel_space st = g_kernel_space st"

definition vmm_map :: "vmm \<Rightarrow> u64 \<Rightarrow> u64 \<Rightarrow> u64 \<Rightarrow> u64 \<Rightarrow> vmm \<times> int" where
  "vmm_map st space vaddr paddr flags =
    (let pml4 = phys_to_virt st space;
         (st1, pdpt) = get_or_create_table st pml4 (PML4_INDEX vaddr)
     in if pdpt = 0 then (st1, - 1)
        else
          let (st2, pd) = get_or_create_table st1 pdpt (PDPT_INDEX vaddr)
          in if pd = 0 then (st2, - 1)
             else
               let (st3, pt) = get_or_create_table st2 pd (PD_INDEX vaddr)
               in if pt = 0 then (st3, - 1)
                  else (set_entry st3 pt (PT_INDEX vaddr) ((paddr AND ADDR_MASK) OR flags), 0))"

definition vmm_unmap :: "vmm \<Rightarrow> u64 \<Rightarrow> u64 \<Rightarrow> vmm" where
  "vmm_unmap st space vaddr =
    (let pml4 = phys_to_virt st space;
         pdpt = get_table_or_null st pml4 (PML4_INDEX vaddr)
     in if pdpt = 0 then st
        else
          let pd = get_table_or_null st pdpt (PDPT_INDEX vaddr)
          in if pd = 0 then st
             else
               let pt = get_table_or_null st pd (PD_INDEX vaddr)
               in if pt = 0 then st else set_entry st pt (PT_INDEX vaddr) 0)"

definition vmm_translate :: "vmm \<Rightarrow> u64 \<Rightarrow> u64 \<Rightarrow> u64" where
  "vmm_translate st space vaddr =
    (let pml4 = phys_to_virt st space;
         pdpt = get_table_or_null st pml4 (PML4_INDEX vaddr)
     in if pdpt = 0 then 0
        else
          let pd = get_table_or_null st pdpt (PDPT_INDEX vaddr)
          in if pd = 0 then 0
             else
               let pt = get_table_or_null st pd (PD_INDEX vaddr)
               in if pt = 0 then 0
                  else
                    let pte = entry_at st pt (PT_INDEX vaddr)
                    in if pte AND VMM_FLAG_PRESENT = 0 then 0
                       else (pte AND ADDR_MASK) OR (vaddr AND 0xFFF))"

section \<open>Aligned tables and their slots\<close>

definition aligned :: "u64 \<Rightarrow> bool" where
  "aligned t \<longleftrightarrow> t AND ADDR_MASK = t"

lemma mask_12: "(0xFFF :: u64) = mask 12"
  by (simp add: mask_eq_exp_minus_1)

lemma aligned_and_mask: "aligned (w AND ADDR_MASK)"
  by (simp add: aligned_def ADDR_MASK_def and.assoc)

lemma aligned_page: "aligned (i * PMM_PAGE_SIZE)"
proof -
  have "i * PMM_PAGE_SIZE = push_bit 12 i" by (simp add: PMM_PAGE_SIZE_def push_bit_eq_mult)
  then show ?thesis unfolding aligned_def ADDR_MASK_def mask_12
    by (simp only:) (rule bit_word_eqI, auto simp: bit_simps)
qed

lemma low_bits: "d < 4096 \<Longrightarrow> d AND ADDR_MASK = 0" for d :: u64
proof -
  assume "d < 4096"
  then have "take_bit 12 d = d"
    by (simp add: word_unat_eq_iff unsigned_take_bit_eq take_bit_nat_eq_self word_less_nat_alt)
  then have "bit d n \<Longrightarrow> n < 12" for n by (metis bit_take_bit_iff)
  then show "d AND ADDR_MASK = 0" unfolding ADDR_MASK_def mask_12
    by (intro bit_word_eqI) (auto simp: bit_simps)
qed

lemma aligned_add: "aligned t \<Longrightarrow> d < 4096 \<Longrightarrow> (t + d) AND ADDR_MASK = t"
proof -
  assume t: "aligned t" and d: "d < 4096"
  have t': "t AND ADDR_MASK = t" using t by (simp add: aligned_def)
  have "t AND d = (t AND ADDR_MASK) AND d" by (simp only: t')
  also have "\<dots> = t AND (d AND ADDR_MASK)" by (simp only: and.assoc and.commute [of d])
  finally have "t AND d = 0" by (simp add: low_bits [OF d])
  then have "t + d = t OR d" by (rule disjunctive_add_eq_or)
  then have "(t + d) AND ADDR_MASK = (t AND ADDR_MASK) OR (d AND ADDR_MASK)"
    by (simp only: bit.conj_disj_distrib2)
  then show ?thesis by (simp only: t' low_bits [OF d] or.right_neutral)
qed

lemma index_offset: "i < 512 \<Longrightarrow> 8 * i < (4096 :: u64)"
  by (simp add: word_less_nat_alt unat_word_ariths)

lemma index_inj: "i < 512 \<Longrightarrow> j < 512 \<Longrightarrow> 8 * i = 8 * j \<Longrightarrow> i = (j :: u64)"
  by (simp add: word_less_nat_alt word_unat_eq_iff unat_word_ariths)

text \<open>Slots of aligned tables are distinct words.\<close>

lemma slot_eq_iff:
  assumes "aligned s" "aligned t" "i < 512" "j < 512"
  shows "s + 8 * i = t + 8 * j \<longleftrightarrow> s = t \<and> i = j"
proof
  assume eq: "s + 8 * i = t + 8 * j"
  then have "(s + 8 * i) AND ADDR_MASK = (t + 8 * j) AND ADDR_MASK" by simp
  with assms have "s = t" by (simp add: aligned_add index_offset)
  with eq show "s = t \<and> i = j" using index_inj [OF assms(3,4)] by simp
qed simp

lemma slot_in_page_iff:
  assumes "aligned s" "aligned t" "i < 512"
  shows "s + 8 * i - t < 4096 \<longleftrightarrow> s = t"
proof
  assume d: "s + 8 * i - t < 4096"
  have "(t + (s + 8 * i - t)) AND ADDR_MASK = t" by (rule aligned_add [OF assms(2) d])
  moreover have "t + (s + 8 * i - t) = s + 8 * i" by simp
  ultimately show "s = t" using aligned_add [OF assms(1) index_offset [OF assms(3)]] by simp
qed (simp add: index_offset assms)


section \<open>Well-formed address spaces\<close>

text \<open>
  \<open>tab\<close> names the tables: the path of indices from the root leads to the physical address of
  the table. The paths of length 3 lead to page tables, whose entries are the leaves.
\<close>

definition tab_ok :: "vmm \<Rightarrow> (u64 list \<Rightarrow> u64 option) \<Rightarrow> bool" where
  "tab_ok st tab \<longleftrightarrow> (\<forall>p t. tab p = Some t \<longrightarrow> length p \<le> 3 \<and> aligned t
      \<and> t + g_hhdm_offset st \<noteq> 0 \<and> t div PMM_PAGE_SIZE \<notin> free_set (frames st))
    \<and> (\<forall>p q t. tab p = Some t \<longrightarrow> tab q = Some t \<longrightarrow> p = q)
    \<and> (\<forall>p t i. tab p = Some t \<longrightarrow> length p < 3 \<longrightarrow> i < 512 \<longrightarrow>
        (let e = entry_at st (t + g_hhdm_offset st) i
         in tab (p @ [i]) = (if e AND VMM_FLAG_PRESENT = 0 then None else Some (e AND ADDR_MASK))))"

definition vmm_inv :: "vmm \<Rightarrow> u64 \<Rightarrow> (u64 list \<Rightarrow> u64 option) \<Rightarrow> bool" where
  "vmm_inv st space tab \<longleftrightarrow> pmm_wf (frames st) \<and> tab [] = Some space \<and> tab_ok st tab
    \<and> (\<forall>i \<in> free_set (frames st). i * PMM_PAGE_SIZE + g_hhdm_offset st \<noteq> 0)
    \<and> (\<forall>p i. tab p = None \<longrightarrow> tab (p @ [i]) = None)"

text \<open>The leaf entry a path leads to; 0 where a table is missing.\<close>

definition leaf :: "vmm \<Rightarrow> (u64 list \<Rightarrow> u64 option) \<Rightarrow> u64 list \<Rightarrow> u64 \<Rightarrow> u64" where
  "leaf st tab p j =
    (case tab p of None \<Rightarrow> 0 | Some t \<Rightarrow> entry_at st (t + g_hhdm_offset st) j)"

lemma tab_table:
  assumes "vmm_inv st space tab" and "tab p = Some t"
  shows "length p \<le> 3" and "aligned t" and "t + g_hhdm_offset st \<noteq> 0"
    and "t div PMM_PAGE_SIZE \<notin> free_set (frames st)"
  using assms unfolding vmm_inv_def tab_ok_def by blast+

lemma tab_inj: "vmm_inv st space tab \<Longrightarrow> tab p = Some t \<Longrightarrow> tab q = Some t \<Longrightarrow> p = q"
  unfolding vmm_inv_def tab_ok_def by blast

lemma tab_step:
  assumes "vmm_inv st space tab" and "tab p = Some t" and "length p < 3" and "i < 512"
  shows "tab (p @ [i]) = (if entry_at st (t + g_hhdm_offset st) i AND VMM_FLAG_PRESENT = 0 then None
    else Some (entry_at st (t + g_hhdm_offset st) i AND ADDR_MASK))"
  using assms unfolding vmm_inv_def tab_ok_def Let_def by blast

lemma get_table_or_null_spec:
  assumes inv: "vmm_inv st space tab" and t: "tab p = Some t" and p: "length p < 3" and i: "i < 512"
  shows "get_table_or_null st (t + g_hhdm_offset st) i =
    (case tab (p @ [i]) of None \<Rightarrow> 0 | Some t' \<Rightarrow> t' + g_hhdm_offset st)"
  unfolding tab_step [OF inv t p i] by (simp add: get_table_or_null_def phys_to_virt_def)

lemma entry_set_entry:
  assumes "aligned s" "aligned t" "i < 512" "j < 512"
  shows "entry_at (set_entry st (s + g_hhdm_offset st) i e) (t + g_hhdm_offset st) j =
    (if s = t \<and> i = j then e else entry_at st (t + g_hhdm_offset st) j)"
proof -
  have "(t + g_hhdm_offset st) + 8 * j = (s + g_hhdm_offset st) + 8 * i \<longleftrightarrow> t + 8 * j = s + 8 * i"
    by (simp add: algebra_simps)
  also have "\<dots> \<longleftrightarrow> s = t \<and> i = j" using slot_eq_iff [OF assms(2,1,4,3)] by auto
  finally show ?thesis by (simp add: set_entry_def entry_at_def)
qed

lemma words_zero_table:
  "words (zero_table st b) x = (if x - b < VMM_PAGE_SIZE then 0 else words st x)"
  by (simp add: zero_table_def)

lemma entry_zero_table:
  assumes "aligned s" "aligned t" "j < 512"
  shows "entry_at (zero_table st (s + g_hhdm_offset st)) (t + g_hhdm_offset st) j =
    (if s = t then 0 else entry_at st (t + g_hhdm_offset st) j)"
proof -
  have "(t + g_hhdm_offset st) + 8 * j - (s + g_hhdm_offset st) = t + 8 * j - s"
    by (simp add: algebra_simps)
  moreover have "entry_at (zero_table st (s + g_hhdm_offset st)) (t + g_hhdm_offset st) j =
      (if (t + g_hhdm_offset st) + 8 * j - (s + g_hhdm_offset st) < 4096 then 0
       else entry_at st (t + g_hhdm_offset st) j)"
    by (simp only: entry_at_def words_zero_table VMM_PAGE_SIZE_def)
  ultimately show ?thesis using slot_in_page_iff [OF assms(2,1,3)] by (simp only: eq_commute [of s t])
qed

lemma entry_frames [simp]: "entry_at (st\<lparr>frames := fr\<rparr>) t j = entry_at st t j"
  by (simp add: entry_at_def)

lemma set_entry_fields [simp]:
  "g_hhdm_offset (set_entry st t i e) = g_hhdm_offset st" "frames (set_entry st t i e) = frames st"
  "g_hhdm_offset (zero_table st t) = g_hhdm_offset st" "frames (zero_table st t) = frames st"
  "g_kernel_space (set_entry st t i e) = g_kernel_space st"
  by (simp_all add: set_entry_def zero_table_def)

text \<open>Writing a leaf keeps the tree and changes that leaf only.\<close>

lemma set_leaf:
  fixes e :: u64
  assumes inv: "vmm_inv st space tab" and p: "tab p = Some t" "length p = 3" and i: "i < 512"
  defines "st' \<equiv> set_entry st (t + g_hhdm_offset st) i e"
  shows "vmm_inv st' space tab"
    and "q = p \<and> j = i \<or> length q = 3 \<and> j < 512 \<Longrightarrow>
      leaf st' tab q j = (if q = p \<and> j = i then e else leaf st tab q j)"
proof -
  have entry: "entry_at st' (s + g_hhdm_offset st) j =
      (if q = p \<and> j = i then e else entry_at st (s + g_hhdm_offset st) j)"
    if "tab q = Some s" "j < 512" for q s j
    using entry_set_entry [OF tab_table(2) [OF inv p(1)] tab_table(2) [OF inv that(1)] i that(2)]
      tab_inj [OF inv p(1), of q] that(1) p(1) by (auto simp: st'_def)
  have step: "tab (q @ [j]) = (if entry_at st' (s + g_hhdm_offset st) j AND VMM_FLAG_PRESENT = 0 then None
      else Some (entry_at st' (s + g_hhdm_offset st) j AND ADDR_MASK))"
    if "tab q = Some s" "length q < 3" "j < 512" for q s j
    using tab_step [OF inv that] entry [OF that(1,3)] p(2) that(2) by auto
  have hh: "g_hhdm_offset st' = g_hhdm_offset st" and frs: "frames st' = frames st"
    by (simp_all add: st'_def)
  show "vmm_inv st' space tab"
    unfolding vmm_inv_def tab_ok_def Let_def hh frs
  proof (intro conjI allI impI)
    fix q s j
    assume "tab q = Some s" "length q < 3" "j < (512 :: u64)"
    then show "tab (q @ [j]) = (if entry_at st' (s + g_hhdm_offset st) j AND VMM_FLAG_PRESENT = 0 then None
        else Some (entry_at st' (s + g_hhdm_offset st) j AND ADDR_MASK))"
      using step [of q s j] by (simp only: hh)
  qed (use inv in \<open>(simp_all add: vmm_inv_def tab_ok_def)?, blast?\<close>)
  show "leaf st' tab q j = (if q = p \<and> j = i then e else leaf st tab q j)"
    if "q = p \<and> j = i \<or> length q = 3 \<and> j < 512"
  proof (cases "tab q")
    case (Some s)
    with that i entry [OF Some, of j] show ?thesis by (auto simp: leaf_def st'_def)
  next
    case None
    with p(1) have "q \<noteq> p" by auto
    with None show ?thesis by (simp add: leaf_def)
  qed
qed


lemma new_entry:
  assumes "aligned a"
  defines "e \<equiv> a OR VMM_FLAG_PRESENT OR VMM_FLAG_WRITABLE OR VMM_FLAG_USER"
  shows "e AND VMM_FLAG_PRESENT \<noteq> 0" and "e AND ADDR_MASK = a"
proof -
  have "e = a OR 7" by (simp add: e_def VMM_FLAG_PRESENT_def VMM_FLAG_WRITABLE_def VMM_FLAG_USER_def or.assoc)
  moreover have "bit (a OR 7) 0" by (simp add: bit_simps)
  then have "bit ((a OR 7) AND 1) 0" by (simp add: bit_simps)
  then have "(a OR 7) AND 1 \<noteq> 0" by (metis bit_0_eq bot_apply bot_bool_def)
  moreover have "(a OR 7) AND ADDR_MASK = (a AND ADDR_MASK) OR (7 AND ADDR_MASK)"
    by (rule bit.conj_disj_distrib2)
  then have "(a OR 7) AND ADDR_MASK = a"
    using assms(1) low_bits [of 7] by (simp add: aligned_def)
  ultimately show "e AND VMM_FLAG_PRESENT \<noteq> 0" "e AND ADDR_MASK = a"
    by (simp_all add: VMM_FLAG_PRESENT_def)
qed

lemma vmm_inv_frames:
  assumes "vmm_inv st space tab" and "pmm_wf fr" and "free_set fr \<subseteq> free_set (frames st)"
  shows "vmm_inv (st\<lparr>frames := fr\<rparr>) space tab"
  using assms by (auto simp: vmm_inv_def tab_ok_def entry_at_def Let_def)

text \<open>Installing a fresh, zeroed table below \<open>p\<close>.\<close>

lemma install_table:
  assumes inv: "vmm_inv st space tab" and p: "tab p = Some t" "length p < 3" and i: "i < 512"
    and absent: "tab (p @ [i]) = None"
    and k: "k \<in> free_set (frames st)" "k * PMM_PAGE_SIZE div PMM_PAGE_SIZE = k"
    and fr: "pmm_wf fr" "free_set fr = free_set (frames st) - {k}"
  defines "a \<equiv> k * PMM_PAGE_SIZE"
  defines "st' \<equiv> set_entry (zero_table (st\<lparr>frames := fr\<rparr>) (a + g_hhdm_offset st)) (t + g_hhdm_offset st) i
    (a OR VMM_FLAG_PRESENT OR VMM_FLAG_WRITABLE OR VMM_FLAG_USER)"
  shows "vmm_inv st' space (tab(p @ [i] \<mapsto> a))"
    and "length q = 3 \<Longrightarrow> j < 512 \<Longrightarrow> leaf st' (tab(p @ [i] \<mapsto> a)) q j = leaf st tab q j"
proof -
  let ?tab = "tab(p @ [i] \<mapsto> a)"
  have al: "aligned a" by (simp add: a_def aligned_page)
  have old: "s \<noteq> a" if "tab q = Some s" for q s
    using tab_table(4) [OF inv that] k by (auto simp: a_def)
  have entry: "entry_at st' (s + g_hhdm_offset st) j =
      (if t = s \<and> i = j then a OR VMM_FLAG_PRESENT OR VMM_FLAG_WRITABLE OR VMM_FLAG_USER
       else if a = s then 0 else entry_at st (s + g_hhdm_offset st) j)"
    if "aligned s" "j < 512" for s j
    using entry_set_entry [OF tab_table(2) [OF inv p(1)] that(1) i that(2),
        of "zero_table (st\<lparr>frames := fr\<rparr>) (a + g_hhdm_offset st)"]
      entry_zero_table [OF al that, of "st\<lparr>frames := fr\<rparr>"]
    by (auto simp: st'_def)
  have hh: "g_hhdm_offset st' = g_hhdm_offset st" and frs: "frames st' = fr"
    by (simp_all add: st'_def)
  have closed: "tab (q @ [j]) = None" if "tab q = None" for q j
    using inv that by (simp add: vmm_inv_def)
  have ta: "t \<noteq> a" by (rule old [OF p(1)])
  have tables: "length q \<le> 3 \<and> aligned s \<and> s + g_hhdm_offset st \<noteq> 0 \<and> s div PMM_PAGE_SIZE \<notin> free_set fr"
    if "?tab q = Some s" for q s
  proof (cases "q = p @ [i]")
    case True
    with that have "s = a" by simp
    moreover have "a + g_hhdm_offset st \<noteq> 0" using inv k(1) by (auto simp: vmm_inv_def a_def)
    ultimately show ?thesis using True p(2) al k(2) fr(2) by (simp add: a_def)
  next
    case False
    with that have "tab q = Some s" by simp
    from tab_table [OF inv this] fr(2) show ?thesis by blast
  qed
  have inj: "q = q'" if "?tab q = Some s" "?tab q' = Some s" for q q' s
    using that old tab_inj [OF inv] by (auto split: if_splits)
  have step: "?tab (q @ [j]) = (if entry_at st' (s + g_hhdm_offset st) j AND VMM_FLAG_PRESENT = 0 then None
      else Some (entry_at st' (s + g_hhdm_offset st) j AND ADDR_MASK))"
    if q: "?tab q = Some s" "length q < 3" and j: "j < 512" for q s j
  proof (cases "q = p @ [i]")
    case True
    then have "s = a" using q by simp
    moreover have "?tab ((p @ [i]) @ [j]) = None" using closed [OF absent, of j] by simp
    ultimately show ?thesis using entry [OF al j] ta True by (simp add: VMM_FLAG_PRESENT_def)
  next
    case False
    then have s: "tab q = Some s" using q by simp
    then have "t = s \<longleftrightarrow> q = p" using tab_inj [OF inv] p(1) by auto
    then show ?thesis
      using entry [OF tab_table(2) [OF inv s] j] tab_step [OF inv s q(2) j] old [OF s] new_entry [OF al]
      by auto
  qed
  show "vmm_inv st' space ?tab"
    unfolding vmm_inv_def tab_ok_def Let_def hh frs
  proof (intro conjI allI impI ballI)
    show "?tab [] = Some space" using inv by (simp add: vmm_inv_def)
    show "?tab (q @ [j]) = None" if "?tab q = None" for q j
      using that closed [of q j] p(1) by (auto split: if_splits)
    show "c * PMM_PAGE_SIZE + g_hhdm_offset st \<noteq> 0" if "c \<in> free_set fr" for c
      using inv that fr(2) by (simp add: vmm_inv_def)
  qed (use tables inj step fr in blast)+
  show "leaf st' ?tab q j = leaf st tab q j" if q: "length q = 3" and j: "j < 512"
  proof (cases "q = p @ [i]")
    case True
    then show ?thesis using absent entry [OF al j] ta by (simp add: leaf_def hh)
  next
    case False
    show ?thesis
    proof (cases "tab q")
      case (Some s)
      with q p(2) have "t \<noteq> s" using tab_inj [OF inv p(1), of q] by auto
      then show ?thesis
        using False Some entry [OF tab_table(2) [OF inv Some] j] old [OF Some] by (auto simp: leaf_def hh)
    qed (use False in \<open>simp add: leaf_def\<close>)
  qed
qed


text \<open>Every table of the second tree is one of the first or lies in a page of \<open>A\<close>.\<close>

definition tables_grow :: "(u64 list \<Rightarrow> u64 option) \<Rightarrow> (u64 list \<Rightarrow> u64 option) \<Rightarrow> u64 set \<Rightarrow> bool" where
  "tables_grow tab tab' A \<longleftrightarrow> (\<forall>q s. tab' q = Some s \<longrightarrow> tab q = Some s \<or> s div PMM_PAGE_SIZE \<in> A)"

lemma tables_grow_refl [simp]: "tables_grow tab tab A"
  by (simp add: tables_grow_def)

lemma tables_grow_trans: "tables_grow t1 t2 A \<Longrightarrow> tables_grow t2 t3 B \<Longrightarrow> B \<subseteq> A \<Longrightarrow> tables_grow t1 t3 A"
  unfolding tables_grow_def by blast

lemma get_or_create_spec:
  assumes inv: "vmm_inv st space tab" and p: "tab p = Some t" "length p < 3" and i: "i < 512"
    and eq: "get_or_create_table st (t + g_hhdm_offset st) i = (st', r)"
  shows "g_hhdm_offset st' = g_hhdm_offset st \<and> g_kernel_space st' = g_kernel_space st
    \<and> free_set (frames st') \<subseteq> free_set (frames st) \<and> (\<exists>tab'. vmm_inv st' space tab' \<and> tables_grow tab tab' (free_set (frames st))
    \<and> (\<forall>q j. length q = 3 \<longrightarrow> j < 512 \<longrightarrow> leaf st' tab' q j = leaf st tab q j)
    \<and> (r \<noteq> 0 \<longrightarrow> (\<exists>t'. tab' (p @ [i]) = Some t' \<and> r = t' + g_hhdm_offset st)))"
proof (cases "entry_at st (t + g_hhdm_offset st) i AND VMM_FLAG_PRESENT = 0")
  case False
  with eq tab_step [OF inv p i] have "st' = st"
    "tab (p @ [i]) = Some (entry_at st (t + g_hhdm_offset st) i AND ADDR_MASK)"
    "r = (entry_at st (t + g_hhdm_offset st) i AND ADDR_MASK) + g_hhdm_offset st"
    by (auto simp: get_or_create_table_def phys_to_virt_def)
  with inv show ?thesis using tables_grow_refl by blast
next
  case absent: True
  then have none: "tab (p @ [i]) = None" using tab_step [OF inv p i] by simp
  obtain fr a where a: "pmm_alloc_page (frames st) = (fr, a)" by fastforce
  have wf: "pmm_wf (frames st)" using inv by (simp add: vmm_inv_def)
  have fr: "pmm_wf fr" "free_set fr \<subseteq> free_set (frames st)"
    using pmm_pages.alloc_inv [OF wf a] pmm_pages.alloc_shrinks [OF wf a] by simp_all
  show ?thesis
  proof (cases "a = 0")
    case True
    then have "st' = st\<lparr>frames := fr\<rparr>" "r = 0"
      using eq absent a by (simp_all add: get_or_create_table_def)
    moreover have "vmm_inv (st\<lparr>frames := fr\<rparr>) space tab" by (rule vmm_inv_frames [OF inv fr])
    moreover have "leaf (st\<lparr>frames := fr\<rparr>) tab q j = leaf st tab q j" for q j by (simp add: leaf_def split: option.split)
    ultimately show ?thesis using fr(2) by (intro conjI exI [of _ tab]) auto
  next
    case False
    from pmm_pages.alloc_page [OF wf a False] obtain k where k: "k \<in> free_set (frames st)"
      "a = k * PMM_PAGE_SIZE" "free_set fr = free_set (frames st) - {k}" by blast
    have kd: "k * PMM_PAGE_SIZE div PMM_PAGE_SIZE = k"
      by (rule page_addr_div [OF pmm_pages.free_bound [OF wf k(1)]])
    let ?e = "a OR VMM_FLAG_PRESENT OR VMM_FLAG_WRITABLE OR VMM_FLAG_USER"
    let ?st = "set_entry (zero_table (st\<lparr>frames := fr\<rparr>) (a + g_hhdm_offset st)) (t + g_hhdm_offset st) i ?e"
    have al: "aligned a" by (simp add: k(2) aligned_page)
    have "entry_at ?st (t + g_hhdm_offset st) i = ?e" by (simp add: entry_at_def set_entry_def)
    then have "st' = ?st" "r = a + g_hhdm_offset st"
      using eq absent a False new_entry(2) [OF al]
      by (auto simp: get_or_create_table_def phys_to_virt_def Let_def)
    moreover note install_table [OF inv p i none k(1) kd fr(1) k(3), folded k(2)]
    moreover have "tables_grow tab (tab(p @ [i] \<mapsto> a)) (free_set (frames st))" using k(1,2) kd by (simp add: tables_grow_def)
    moreover have "g_hhdm_offset ?st = g_hhdm_offset st" "g_kernel_space ?st = g_kernel_space st" "frames ?st = fr"
      by (simp_all add: set_entry_def zero_table_def)
    ultimately show ?thesis using fr(2) by (intro conjI exI [of _ "tab(p @ [i] \<mapsto> a)"]) auto
  qed
qed

section \<open>Mapping, unmapping, translating\<close>

definition vpath :: "u64 \<Rightarrow> u64 list" where
  "vpath v = [PML4_INDEX v, PDPT_INDEX v, PD_INDEX v]"

lemma and_1ff: "x AND 0x1FF < (512 :: u64)"
  by (rule le_less_trans [OF word_and_le1]) simp

lemma index_less [simp]:
  "PML4_INDEX v < 512" "PDPT_INDEX v < 512" "PD_INDEX v < 512" "PT_INDEX v < 512"
  by (simp_all only: PML4_INDEX_def PDPT_INDEX_def PD_INDEX_def PT_INDEX_def and_1ff)

text \<open>The walk shared by \<open>vmm_unmap\<close> and \<open>vmm_translate\<close>.\<close>

lemma walk_cases:
  assumes inv: "vmm_inv st space tab"
  obtains (missing) "tab (vpath v) = None"
      "get_table_or_null st (space + g_hhdm_offset st) (PML4_INDEX v) = 0"
  | (missing2) pdpt where "tab (vpath v) = None" "pdpt \<noteq> 0"
      "get_table_or_null st (space + g_hhdm_offset st) (PML4_INDEX v) = pdpt"
      "get_table_or_null st pdpt (PDPT_INDEX v) = 0"
  | (missing3) pdpt pd where "tab (vpath v) = None" "pdpt \<noteq> 0" "pd \<noteq> 0"
      "get_table_or_null st (space + g_hhdm_offset st) (PML4_INDEX v) = pdpt"
      "get_table_or_null st pdpt (PDPT_INDEX v) = pd" "get_table_or_null st pd (PD_INDEX v) = 0"
  | (found) pdpt pd t where "tab (vpath v) = Some t" "pdpt \<noteq> 0" "pd \<noteq> 0" "t + g_hhdm_offset st \<noteq> 0"
      "get_table_or_null st (space + g_hhdm_offset st) (PML4_INDEX v) = pdpt"
      "get_table_or_null st pdpt (PDPT_INDEX v) = pd"
      "get_table_or_null st pd (PD_INDEX v) = t + g_hhdm_offset st"
proof -
  have root: "tab [] = Some space" using inv by (simp add: vmm_inv_def)
  have closed: "tab (q @ [j]) = None" if "tab q = None" for q j
    using inv that by (simp add: vmm_inv_def)
  note g = get_table_or_null_spec [OF inv]
  let ?a = "[PML4_INDEX v]" and ?b = "[PML4_INDEX v, PDPT_INDEX v]"
  show thesis
  proof (cases "tab ?a")
    case None
    with g [OF root, of "PML4_INDEX v"] closed [of ?a "PDPT_INDEX v"] closed [of ?b "PD_INDEX v"] missing
    show ?thesis by (simp add: vpath_def)
  next
    case a: (Some a)
    show ?thesis
    proof (cases "tab ?b")
      case None
      with a g [OF root, of "PML4_INDEX v"] g [OF a, of "PDPT_INDEX v"] closed [of ?b "PD_INDEX v"]
        tab_table(3) [OF inv a] missing2 show ?thesis by (simp add: vpath_def)
    next
      case b: (Some b)
      note facts = g [OF root, of "PML4_INDEX v"] g [OF a, of "PDPT_INDEX v"] g [OF b, of "PD_INDEX v"]
        tab_table(3) [OF inv a] tab_table(3) [OF inv b]
      show ?thesis
      proof (cases "tab (vpath v)")
        case None
        with a b facts missing3 show ?thesis by (simp add: vpath_def)
      next
        case (Some t)
        with a b facts tab_table(3) [OF inv Some] found show ?thesis by (simp add: vpath_def)
      qed
    qed
  qed
qed

lemma vmm_translate_leaf:
  assumes inv: "vmm_inv st space tab"
  shows "vmm_translate st space v =
    (let e = leaf st tab (vpath v) (PT_INDEX v)
     in if e AND VMM_FLAG_PRESENT = 0 then 0 else (e AND ADDR_MASK) OR (v AND 0xFFF))"
  by (rule walk_cases [OF inv, of v])
    (simp_all add: vmm_translate_def phys_to_virt_def leaf_def Let_def)


lemma vmm_unmap_leaf:
  assumes inv: "vmm_inv st space tab"
  shows "vmm_inv (vmm_unmap st space v) space tab \<and> (\<forall>q j. length q = 3 \<longrightarrow> j < 512 \<longrightarrow>
    leaf (vmm_unmap st space v) tab q j =
      (if q = vpath v \<and> j = PT_INDEX v then 0 else leaf st tab q j))"
proof (cases rule: walk_cases [OF inv, of v])
  case (4 pdpt pd t)
  then have "vmm_unmap st space v = set_entry st (t + g_hhdm_offset st) (PT_INDEX v) 0"
    by (simp add: vmm_unmap_def phys_to_virt_def Let_def)
  with set_leaf [OF inv 4(1), where i = "PT_INDEX v" and e = 0] show ?thesis by (simp add: vpath_def)
qed (use inv in \<open>auto simp: vmm_unmap_def phys_to_virt_def Let_def leaf_def\<close>)

lemma vmm_map_leaf:
  assumes inv: "vmm_inv st space tab" and map: "vmm_map st space v pa fl = (st', r)"
  shows "\<exists>tab'. vmm_inv st' space tab' \<and> tables_grow tab tab' (free_set (frames st)) \<and> (r = 0 \<or> r = - 1)
    \<and> g_hhdm_offset st' = g_hhdm_offset st \<and> g_kernel_space st' = g_kernel_space st
    \<and> free_set (frames st') \<subseteq> free_set (frames st) \<and> (\<forall>q j. length q = 3 \<longrightarrow> j < 512 \<longrightarrow>
    leaf st' tab' q j = (if r = 0 \<and> q = vpath v \<and> j = PT_INDEX v then (pa AND ADDR_MASK) OR fl
      else leaf st tab q j))"
proof -
  have root: "tab [] = Some space" using inv by (simp add: vmm_inv_def)
  obtain st1 a where s1: "get_or_create_table st (space + g_hhdm_offset st) (PML4_INDEX v) = (st1, a)"
    by fastforce
  from get_or_create_spec [OF inv root _ _ s1] obtain tab1 where i1: "vmm_inv st1 space tab1"
    and h1: "g_hhdm_offset st1 = g_hhdm_offset st \<and> g_kernel_space st1 = g_kernel_space st \<and> free_set (frames st1) \<subseteq> free_set (frames st)"
    and g1: "tables_grow tab tab1 (free_set (frames st))"
    and l1: "\<forall>q j. length q = 3 \<longrightarrow> j < 512 \<longrightarrow> leaf st1 tab1 q j = leaf st tab q j"
    and t1: "a \<noteq> 0 \<longrightarrow> (\<exists>t. tab1 [PML4_INDEX v] = Some t \<and> a = t + g_hhdm_offset st1)" by auto
  show ?thesis
  proof (cases "a = 0")
    case True
    with map s1 have "st' = st1" "r = - 1" by (auto simp: vmm_map_def phys_to_virt_def)
    with i1 l1 h1 g1 show ?thesis by (intro exI [of _ tab1]) auto
  next
    case a: False
    with t1 obtain ta where ta: "tab1 [PML4_INDEX v] = Some ta" "a = ta + g_hhdm_offset st1" by blast
    obtain st2 b where s2: "get_or_create_table st1 a (PDPT_INDEX v) = (st2, b)" by fastforce
    from get_or_create_spec [OF i1 ta(1) _ _ s2 [unfolded ta(2)]] obtain tab2 where i2: "vmm_inv st2 space tab2"
      and h2: "g_hhdm_offset st2 = g_hhdm_offset st1 \<and> g_kernel_space st2 = g_kernel_space st1 \<and> free_set (frames st2) \<subseteq> free_set (frames st1)"
      and g2: "tables_grow tab1 tab2 (free_set (frames st1))"
      and l2: "\<forall>q j. length q = 3 \<longrightarrow> j < 512 \<longrightarrow> leaf st2 tab2 q j = leaf st1 tab1 q j"
      and t2: "b \<noteq> 0 \<longrightarrow> (\<exists>t. tab2 [PML4_INDEX v, PDPT_INDEX v] = Some t \<and> b = t + g_hhdm_offset st2)" by auto
    have g12: "tables_grow tab tab2 (free_set (frames st))" using tables_grow_trans [OF g1 g2] h1 by blast
    show ?thesis
    proof (cases "b = 0")
      case True
      with map s1 s2 a have "st' = st2" "r = - 1" by (auto simp: vmm_map_def phys_to_virt_def)
      with i2 l1 l2 h1 h2 g12 show ?thesis by (intro exI [of _ tab2]) auto
    next
      case b: False
      with t2 obtain tb where tb: "tab2 [PML4_INDEX v, PDPT_INDEX v] = Some tb" "b = tb + g_hhdm_offset st2" by blast
      obtain st3 c where s3: "get_or_create_table st2 b (PD_INDEX v) = (st3, c)" by fastforce
      from get_or_create_spec [OF i2 tb(1) _ _ s3 [unfolded tb(2)]] obtain tab3 where i3: "vmm_inv st3 space tab3"
        and l3: "\<forall>q j. length q = 3 \<longrightarrow> j < 512 \<longrightarrow> leaf st3 tab3 q j = leaf st2 tab2 q j"
        and h3: "g_hhdm_offset st3 = g_hhdm_offset st2 \<and> g_kernel_space st3 = g_kernel_space st2 \<and> free_set (frames st3) \<subseteq> free_set (frames st2)"
        and g3: "tables_grow tab2 tab3 (free_set (frames st2))"
        and t3: "c \<noteq> 0 \<longrightarrow> (\<exists>t. tab3 (vpath v) = Some t \<and> c = t + g_hhdm_offset st3)"
        by (auto simp: vpath_def)
      have g: "tables_grow tab tab3 (free_set (frames st))" using tables_grow_trans [OF g12 g3] h1 h2 by blast
      show ?thesis
      proof (cases "c = 0")
        case True
        with map s1 s2 s3 a b have "st' = st3" "r = - 1" by (auto simp: vmm_map_def phys_to_virt_def)
        with i3 l1 l2 l3 h1 h2 h3 g show ?thesis by (intro exI [of _ tab3]) auto
      next
        case c: False
        with t3 obtain tc where tc: "tab3 (vpath v) = Some tc" "c = tc + g_hhdm_offset st3" by blast
        have "st' = set_entry st3 c (PT_INDEX v) ((pa AND ADDR_MASK) OR fl)" "r = 0"
          using map s1 s2 s3 a b c by (auto simp: vmm_map_def phys_to_virt_def)
        with set_leaf [OF i3 tc(1), where i = "PT_INDEX v" and e = "(pa AND ADDR_MASK) OR fl"] l1 l2 l3 tc(2) h1 h2 h3 g
        show ?thesis by (intro exI [of _ tab3]) (auto simp: vpath_def)
      qed
    qed
  qed
qed

section \<open>Properties of the page tables\<close>

lemma map_translates:
  assumes inv: "vmm_inv st space tab" and map: "vmm_map st space v pa fl = (st', r)"
    and fl: "fl AND VMM_FLAG_PRESENT \<noteq> 0"
  shows "(\<exists>tab'. vmm_inv st' space tab') \<and> (r = 0 \<or> r = - 1)
    \<and> (\<forall>u. vmm_translate st' space u =
        (if r = 0 \<and> vpath u = vpath v \<and> PT_INDEX u = PT_INDEX v
         then ((pa OR fl) AND ADDR_MASK) OR (u AND 0xFFF)
         else vmm_translate st space u))"
proof -
  obtain tab' where t: "vmm_inv st' space tab'" "r = 0 \<or> r = - 1"
    "\<forall>q j. length q = 3 \<longrightarrow> j < 512 \<longrightarrow> leaf st' tab' q j =
      (if r = 0 \<and> q = vpath v \<and> j = PT_INDEX v then (pa AND ADDR_MASK) OR fl else leaf st tab q j)"
    using vmm_map_leaf [OF inv map] by blast
  have e: "((pa AND ADDR_MASK) OR fl) AND ADDR_MASK = (pa OR fl) AND ADDR_MASK"
    by (simp add: bit.conj_disj_distrib2 and.assoc)
  have "((pa AND ADDR_MASK) OR fl) AND VMM_FLAG_PRESENT = fl AND VMM_FLAG_PRESENT"
    using low_bits [of VMM_FLAG_PRESENT]
    by (simp add: bit.conj_disj_distrib2 and.assoc and.commute [of ADDR_MASK] VMM_FLAG_PRESENT_def)
  with fl have p: "((pa AND ADDR_MASK) OR fl) AND VMM_FLAG_PRESENT \<noteq> 0" by simp
  have "length (vpath u) = 3" for u by (simp add: vpath_def)
  with t(3) have "vmm_translate st' space u =
        (if r = 0 \<and> vpath u = vpath v \<and> PT_INDEX u = PT_INDEX v
         then ((pa OR fl) AND ADDR_MASK) OR (u AND 0xFFF)
         else vmm_translate st space u)" for u
    unfolding vmm_translate_leaf [OF t(1)] vmm_translate_leaf [OF inv] using p e by simp
  with t(1,2) show ?thesis by blast
qed

text \<open>C4. A successful \<open>vmm_map\<close> of a present page makes exactly that page translate to the
  given frame, whatever tables it had to allocate on the way; a failed one changes no
  translation. The tables stay a tree of distinct pages that the page allocator holds as used.\<close>

theorem vmm_map_translate:
  assumes inv: "vmm_inv st space tab" and map: "vmm_map st space v pa fl = (st', r)"
    and fl: "fl AND VMM_FLAG_PRESENT \<noteq> 0"
  shows "(\<exists>tab'. vmm_inv st' space tab') \<and> (r = 0 \<or> r = - 1)
    \<and> (\<forall>u. vmm_translate st' space u =
        (if r = 0 \<and> vpath u = vpath v \<and> PT_INDEX u = PT_INDEX v
         then ((pa OR fl) AND ADDR_MASK) OR (u AND 0xFFF)
         else vmm_translate st space u))"
  by (rule map_translates [OF assms])

lemma unmap_translates:
  assumes inv: "vmm_inv st space tab"
  shows "vmm_inv (vmm_unmap st space v) space tab
    \<and> vmm_translate (vmm_unmap st space v) space u =
        (if vpath u = vpath v \<and> PT_INDEX u = PT_INDEX v then 0 else vmm_translate st space u)"
proof -
  note l = vmm_unmap_leaf [OF inv, of v]
  have "length (vpath u) = 3" by (simp add: vpath_def)
  with l show ?thesis
    unfolding vmm_translate_leaf [OF l [THEN conjunct1]] vmm_translate_leaf [OF inv] by simp
qed

text \<open>\<open>vmm_unmap\<close> removes exactly the page it is given from the translation and keeps the
  tables well formed.\<close>

theorem vmm_unmap_translate:
  assumes inv: "vmm_inv st space tab"
  shows "vmm_inv (vmm_unmap st space v) space tab
    \<and> vmm_translate (vmm_unmap st space v) space u =
        (if vpath u = vpath v \<and> PT_INDEX u = PT_INDEX v then 0 else vmm_translate st space u)"
  by (rule unmap_translates [OF assms])

definition vm8 :: vmm where
  "vm8 = \<lparr>g_hhdm_offset = 65536, g_kernel_space = 0, words = (\<lambda>_. 0),
    frames = \<lparr>bitmap = (\<lambda>_. 3), total_pages = 8, free_pages_c = 6, hhdm = 65536, scan_hint = 0\<rparr>\<rparr>"

lemma below_8: "i < (8 :: u64) \<longleftrightarrow> i \<in> {0, 1, 2, 3, 4, 5, 6, 7}"
  by (auto simp: word_less_nat_alt word_unat_eq_iff)

lemma vm8_free: "free_set (frames vm8) = {2, 3, 4, 5, 6, 7}"
  by (auto simp: free_set_def vm8_def below_8 bitmap_test_def)

lemma vm8_inv: "vmm_inv vm8 0 [[] \<mapsto> 0]"
proof -
  have "pmm_wf (frames vm8)"
    unfolding pmm_wf_def vm8_free by (simp add: vm8_def)
  then show ?thesis
    unfolding vmm_inv_def tab_ok_def vm8_free
    by (auto simp: vm8_def aligned_def entry_at_def PMM_PAGE_SIZE_def)
qed

lemma vm8_map: "snd (vmm_map vm8 0 0x7654321000 0x5000 3) = 0"
  by code_simp

theorem vmm_map_translate_witness:
  "vmm_translate (fst (vmm_map vm8 0 0x7654321000 0x5000 3)) 0 0x7654321ABC = 0x5ABC"
proof -
  from vmm_map_translate [OF vm8_inv, of "0x7654321000" "0x5000" 3 "fst (vmm_map vm8 0 0x7654321000 0x5000 3)" 0] vm8_map
  have "vmm_translate (fst (vmm_map vm8 0 0x7654321000 0x5000 3)) 0 0x7654321ABC =
    ((0x5000 OR 3) AND ADDR_MASK) OR (0x7654321ABC AND 0xFFF)"
    by (simp add: prod_eq_iff VMM_FLAG_PRESENT_def vpath_def PML4_INDEX_def PDPT_INDEX_def PD_INDEX_def PT_INDEX_def)
  then show ?thesis by (simp add: ADDR_MASK_def)
qed

theorem vmm_unmap_translate_witness:
  "vmm_translate (vmm_unmap vm8 0 0x5000) 0 0x5123 = 0"
  using vmm_unmap_translate [OF vm8_inv, of "0x5000" "0x5123"]
  by (simp add: vpath_def PML4_INDEX_def PDPT_INDEX_def PD_INDEX_def PT_INDEX_def)

text \<open>The address mask keeps bit 63, so a page mapped with the no-execute flag translates to
  an address with that bit set.\<close>

lemma nx_leaks: "((pa OR VMM_FLAG_NX) AND ADDR_MASK) OR low = (pa AND ADDR_MASK) OR VMM_FLAG_NX OR low"
proof -
  have "VMM_FLAG_NX AND ADDR_MASK = VMM_FLAG_NX"
    by (simp add: VMM_FLAG_NX_def ADDR_MASK_def)
  then show ?thesis by (simp add: bit.conj_disj_distrib2 or.assoc)
qed

end
