(* ===== verification/Ring.thy ===== *)
theory Ring
  imports Prelude
begin

text \<open>
  The two drivers with a ring of 256 cells (kernel/src/drivers/keyboard.c and serial.c) keep a
  head index, where the next element is stored, and a tail index, where the next one is taken,
  and leave one cell free. The contents of such a ring are the cells from the tail up to the
  head. The locale \<open>bounded_fifo\<close> is the contract both rings give their clients: a queue of at
  most \<open>cap\<close> elements that refuses what does not fit.
\<close>

section \<open>The contents of a ring of 256 cells\<close>

definition ring_contents :: "(nat \<Rightarrow> 'a) \<Rightarrow> nat \<Rightarrow> nat \<Rightarrow> 'a list" where
  "ring_contents b h t = map (\<lambda>i. b ((t + i) mod 256)) [0..<(h + 256 - t) mod 256]"

lemma ring_count:
  fixes h t :: nat
  assumes "h < 256" and "t < 256"
  shows "(h + 256 - t) mod 256 = (if t \<le> h then h - t else h + 256 - t)"
  using assms by (auto simp: le_mod_geq)

lemma length_ring_contents: "length (ring_contents b h t) = (h + 256 - t) mod 256"
  by (simp add: ring_contents_def)

lemma length_ring_le: "length (ring_contents b h t) \<le> 255"
  using mod_less_divisor [of 256 "h + 256 - t"] unfolding length_ring_contents by linarith

lemma ring_full:
  assumes "h < 256" and "t < 256"
  shows "(h + 1) mod 256 = t \<longleftrightarrow> length (ring_contents b h t) = 255"
proof (cases "h = 255")
  case True
  then show ?thesis using assms unfolding length_ring_contents ring_count [OF assms] by auto
next
  case False
  then have "(h + 1) mod 256 = h + 1" using assms by simp
  then show ?thesis using assms False unfolding length_ring_contents ring_count [OF assms] by auto
qed

lemma ring_empty:
  assumes "h < 256" and "t < 256"
  shows "h = t \<longleftrightarrow> ring_contents b h t = []"
  using assms unfolding length_0_conv [symmetric] length_ring_contents ring_count [OF assms] by auto

lemma ring_push_contents:
  assumes "h < 256" and "t < 256" and "(h + 1) mod 256 \<noteq> t"
  shows "ring_contents (b(h := x)) ((h + 1) mod 256) t = ring_contents b h t @ [x]"
proof -
  have step: "((h + 1) mod 256 + 256 - t) mod 256 = Suc ((h + 256 - t) mod 256)"
  proof (cases "h = 255")
    case True
    with assms show ?thesis using ring_count [of 0 t] ring_count [of 255 t] by simp
  next
    case False
    with assms show ?thesis using ring_count [of "h + 1" t] ring_count [of h t] by (auto split: if_splits)
  qed
  have cell: "(t + (h + 256 - t) mod 256) mod 256 = h" using assms ring_count [of h t] by auto
  have other: "(t + i) mod 256 \<noteq> h" if "i < (h + 256 - t) mod 256" for i
  proof (cases "t + i < 256")
    case True
    then show ?thesis using that assms ring_count [of h t] by (auto split: if_splits)
  next
    case False
    then have "(t + i) mod 256 = t + i - 256" using that assms ring_count [of h t]
      by (auto simp: le_mod_geq split: if_splits)
    then show ?thesis using that assms False ring_count [of h t] by (auto split: if_splits)
  qed
  have "ring_contents (b(h := x)) ((h + 1) mod 256) t
      = map (\<lambda>i. (b(h := x)) ((t + i) mod 256)) ([0..<(h + 256 - t) mod 256] @ [(h + 256 - t) mod 256])"
    unfolding ring_contents_def step by simp
  also have "\<dots> = ring_contents b h t @ [x]" using cell other by (simp add: ring_contents_def)
  finally show ?thesis .
qed

lemma ring_pop_contents:
  assumes "h < 256" and "t < 256" and "h \<noteq> t"
  shows "ring_contents b h t = b t # ring_contents b h ((t + 1) mod 256)"
proof -
  have step: "(h + 256 - t) mod 256 = Suc ((h + 256 - (t + 1) mod 256) mod 256)"
  proof (cases "t = 255")
    case True
    with assms show ?thesis using ring_count [of h 255] ring_count [of h 0] by simp
  next
    case False
    with assms show ?thesis using ring_count [of h "t + 1"] ring_count [of h t] by (auto split: if_splits)
  qed
  have "[0..<Suc n] = 0 # map Suc [0..<n]" for n by (simp add: upt_conv_Cons map_Suc_upt)
  moreover have "(t + Suc i) mod 256 = ((t + 1) mod 256 + i) mod 256" for i by (simp add: mod_add_left_eq)
  ultimately show ?thesis using assms(2) unfolding ring_contents_def step by (simp add: comp_def del: upt_Suc)
qed

section \<open>The contract of a bounded queue\<close>

text \<open>Taking \<open>n\<close> elements, one after the other.\<close>

fun pops :: "('s \<Rightarrow> ('s \<times> 'a) option) \<Rightarrow> nat \<Rightarrow> 's \<Rightarrow> ('s \<times> 'a list) option" where
  "pops pop 0 s = Some (s, [])"
| "pops pop (Suc n) s =
    (case pop s of
      None \<Rightarrow> None
    | Some (s1, x) \<Rightarrow> map_option (\<lambda>(s2, xs). (s2, x # xs)) (pops pop n s1))"

locale bounded_fifo =
  fixes wf :: "'s \<Rightarrow> bool"
    and contents :: "'s \<Rightarrow> 'a list"
    and push :: "'s \<Rightarrow> 'a \<Rightarrow> 's"
    and pop :: "'s \<Rightarrow> ('s \<times> 'a) option"
    and cap :: nat
  assumes capacity: "wf s \<Longrightarrow> length (contents s) \<le> cap"
    and push_wf: "wf s \<Longrightarrow> wf (push s x)"
    and push_contents: "wf s \<Longrightarrow> contents (push s x) = take cap (contents s @ [x])"
    and pop_empty: "wf s \<Longrightarrow> contents s = [] \<Longrightarrow> pop s = None"
    and pop_contents: "wf s \<Longrightarrow> contents s = x # xs \<Longrightarrow> \<exists>s'. pop s = Some (s', x) \<and> wf s' \<and> contents s' = xs"
begin

lemma push_all:
  assumes "wf s"
  shows "wf (foldl push s xs) \<and> contents (foldl push s xs) = take cap (contents s @ xs)"
  using assms
proof (induction xs arbitrary: s)
  case Nil
  then show ?case using capacity by simp
next
  case (Cons x xs)
  from Cons.prems push_wf push_contents have s: "wf (push s x)" "contents (push s x) = take cap (contents s @ [x])"
    by auto
  from Cons.IH [OF s(1)] have "contents (foldl push (push s x) xs) = take cap (take cap (contents s @ [x]) @ xs)"
    using s(2) by simp
  also have "\<dots> = take cap (contents s @ x # xs)"
    by (cases "length (contents s) < cap") (simp_all add: take_Cons' min_def)
  finally show ?case using Cons.IH [OF s(1)] by simp
qed

lemma pops_all:
  assumes "wf s" and "n \<le> length (contents s)"
  shows "\<exists>s'. pops pop n s = Some (s', take n (contents s)) \<and> wf s' \<and> contents s' = drop n (contents s)"
  using assms
proof (induction n arbitrary: s)
  case (Suc n)
  then obtain x xs where "contents s = x # xs" by (cases "contents s") auto
  with Suc.prems pop_contents [OF Suc.prems(1)] obtain s1
    where s1: "pop s = Some (s1, x)" "wf s1" "contents s1 = xs" by blast
  from Suc.IH [OF s1(2)] Suc.prems s1 \<open>contents s = x # xs\<close> show ?case by fastforce
qed simp

lemma pop_pushed:
  assumes "wf s" and "contents s = []" and "0 < cap"
  shows "\<exists>s'. pop (push s x) = Some (s', x) \<and> wf s' \<and> contents s' = []"
  using assms pop_contents [OF push_wf] push_contents by simp

lemma pop_Some:
  assumes "wf s" and "pop s = Some (s', x)"
  shows "contents s = x # contents s' \<and> wf s'"
proof (cases "contents s")
  case Nil
  then show ?thesis using assms pop_empty by simp
next
  case (Cons y ys)
  then show ?thesis using assms pop_contents [OF assms(1) Cons] by auto
qed

end

end
