(* ===== verification/Keyboard.thy ===== *)
theory Keyboard
  imports Ring
begin

text \<open>
  kernel/src/drivers/keyboard.c and kernel/include/kernel/drivers/keyboard.h: the decoder of
  scancode bytes and the ring of key codes. The flags that the code keeps as 0 or 1 are
  booleans. The byte that \<open>keyboard_handle_irq\<close> reads from the data port is its argument, and
  the bytes that arrive while \<open>keyboard_read_key\<close> halts the processor are a list; \<open>None\<close> is a
  read that is still waiting when they are used up. The special keys are the enumeration of the
  header; \<open>keycode\<close> gives their numbers.
\<close>

section \<open>Key codes\<close>

definition KEY_SPECIAL_BASE :: u16 where
  "KEY_SPECIAL_BASE = 0x0100"

datatype key =
    KEY_UP | KEY_DOWN | KEY_LEFT | KEY_RIGHT | KEY_HOME | KEY_END | KEY_PAGE_UP | KEY_PAGE_DOWN |
    KEY_INSERT | KEY_DELETE | KEY_F1 | KEY_F2 | KEY_F3 | KEY_F4 | KEY_F5 | KEY_F6 | KEY_F7 |
    KEY_F8 | KEY_F9 | KEY_F10 | KEY_F11 | KEY_F12 | KEY_LCTRL | KEY_RCTRL | KEY_LALT | KEY_RALT |
    KEY_LSHIFT | KEY_RSHIFT | KEY_LGUI | KEY_RGUI | KEY_MENU | KEY_CAPSLOCK | KEY_NUMLOCK |
    KEY_SCROLLLOCK | KEY_PRINTSCREEN | KEY_PAUSE | KEY_NUMPAD_0 | KEY_NUMPAD_1 | KEY_NUMPAD_2 |
    KEY_NUMPAD_3 | KEY_NUMPAD_4 | KEY_NUMPAD_5 | KEY_NUMPAD_6 | KEY_NUMPAD_7 | KEY_NUMPAD_8 |
    KEY_NUMPAD_9 | KEY_NUMPAD_DOT | KEY_NUMPAD_PLUS | KEY_NUMPAD_MINUS | KEY_NUMPAD_STAR |
    KEY_NUMPAD_SLASH | KEY_NUMPAD_ENTER

primrec keycode :: "key \<Rightarrow> u16" where
  "keycode KEY_UP = 0x100"
| "keycode KEY_DOWN = 0x101"
| "keycode KEY_LEFT = 0x102"
| "keycode KEY_RIGHT = 0x103"
| "keycode KEY_HOME = 0x104"
| "keycode KEY_END = 0x105"
| "keycode KEY_PAGE_UP = 0x106"
| "keycode KEY_PAGE_DOWN = 0x107"
| "keycode KEY_INSERT = 0x108"
| "keycode KEY_DELETE = 0x109"
| "keycode KEY_F1 = 0x10A"
| "keycode KEY_F2 = 0x10B"
| "keycode KEY_F3 = 0x10C"
| "keycode KEY_F4 = 0x10D"
| "keycode KEY_F5 = 0x10E"
| "keycode KEY_F6 = 0x10F"
| "keycode KEY_F7 = 0x110"
| "keycode KEY_F8 = 0x111"
| "keycode KEY_F9 = 0x112"
| "keycode KEY_F10 = 0x113"
| "keycode KEY_F11 = 0x114"
| "keycode KEY_F12 = 0x115"
| "keycode KEY_LCTRL = 0x116"
| "keycode KEY_RCTRL = 0x117"
| "keycode KEY_LALT = 0x118"
| "keycode KEY_RALT = 0x119"
| "keycode KEY_LSHIFT = 0x11A"
| "keycode KEY_RSHIFT = 0x11B"
| "keycode KEY_LGUI = 0x11C"
| "keycode KEY_RGUI = 0x11D"
| "keycode KEY_MENU = 0x11E"
| "keycode KEY_CAPSLOCK = 0x11F"
| "keycode KEY_NUMLOCK = 0x120"
| "keycode KEY_SCROLLLOCK = 0x121"
| "keycode KEY_PRINTSCREEN = 0x122"
| "keycode KEY_PAUSE = 0x123"
| "keycode KEY_NUMPAD_0 = 0x124"
| "keycode KEY_NUMPAD_1 = 0x125"
| "keycode KEY_NUMPAD_2 = 0x126"
| "keycode KEY_NUMPAD_3 = 0x127"
| "keycode KEY_NUMPAD_4 = 0x128"
| "keycode KEY_NUMPAD_5 = 0x129"
| "keycode KEY_NUMPAD_6 = 0x12A"
| "keycode KEY_NUMPAD_7 = 0x12B"
| "keycode KEY_NUMPAD_8 = 0x12C"
| "keycode KEY_NUMPAD_9 = 0x12D"
| "keycode KEY_NUMPAD_DOT = 0x12E"
| "keycode KEY_NUMPAD_PLUS = 0x12F"
| "keycode KEY_NUMPAD_MINUS = 0x130"
| "keycode KEY_NUMPAD_STAR = 0x131"
| "keycode KEY_NUMPAD_SLASH = 0x132"
| "keycode KEY_NUMPAD_ENTER = 0x133"

definition keycode_to_ascii :: "u16 \<Rightarrow> u8" where
  "keycode_to_ascii k =
    (if k < KEY_SPECIAL_BASE then ucast k
     else if k = keycode KEY_NUMPAD_0 then 48
     else if k = keycode KEY_NUMPAD_1 then 49
     else if k = keycode KEY_NUMPAD_2 then 50
     else if k = keycode KEY_NUMPAD_3 then 51
     else if k = keycode KEY_NUMPAD_4 then 52
     else if k = keycode KEY_NUMPAD_5 then 53
     else if k = keycode KEY_NUMPAD_6 then 54
     else if k = keycode KEY_NUMPAD_7 then 55
     else if k = keycode KEY_NUMPAD_8 then 56
     else if k = keycode KEY_NUMPAD_9 then 57
     else if k = keycode KEY_NUMPAD_DOT then 46
     else if k = keycode KEY_NUMPAD_PLUS then 43
     else if k = keycode KEY_NUMPAD_MINUS then 45
     else if k = keycode KEY_NUMPAD_STAR then 42
     else if k = keycode KEY_NUMPAD_SLASH then 47
     else if k = keycode KEY_NUMPAD_ENTER then 10
     else 0)"

section \<open>Scancode tables\<close>

definition scancode_ascii :: "u8 list" where
  "scancode_ascii = [
    0, 27, 49, 50, 51, 52, 53, 54, 55, 56, 57, 48, 45, 61, 8, 9,
    113, 119, 101, 114, 116, 121, 117, 105, 111, 112, 91, 93, 10, 0, 97, 115,
    100, 102, 103, 104, 106, 107, 108, 59, 39, 96, 0, 92, 122, 120, 99, 118,
    98, 110, 109, 44, 46, 47, 0, 42, 0, 32, 0, 0, 0, 0, 0, 0,
    0, 0, 0, 0, 0, 0, 0, 0, 0, 0, 0, 0, 0, 0, 0, 0,
    0, 0, 0, 0, 0, 0, 0, 0, 0, 0, 0, 0, 0, 0, 0, 0,
    0, 0, 0, 0, 0, 0, 0, 0, 0, 0, 0, 0, 0, 0, 0, 0,
    0, 0, 0, 0, 0, 0, 0, 0, 0, 0, 0, 0, 0, 0, 0, 0]"

definition scancode_ascii_shift :: "u8 list" where
  "scancode_ascii_shift = [
    0, 27, 33, 64, 35, 36, 37, 94, 38, 42, 40, 41, 95, 43, 8, 9,
    81, 87, 69, 82, 84, 89, 85, 73, 79, 80, 123, 125, 10, 0, 65, 83,
    68, 70, 71, 72, 74, 75, 76, 58, 34, 126, 0, 124, 90, 88, 67, 86,
    66, 78, 77, 60, 62, 63, 0, 42, 0, 32, 0, 0, 0, 0, 0, 0,
    0, 0, 0, 0, 0, 0, 0, 0, 0, 0, 0, 0, 0, 0, 0, 0,
    0, 0, 0, 0, 0, 0, 0, 0, 0, 0, 0, 0, 0, 0, 0, 0,
    0, 0, 0, 0, 0, 0, 0, 0, 0, 0, 0, 0, 0, 0, 0, 0,
    0, 0, 0, 0, 0, 0, 0, 0, 0, 0, 0, 0, 0, 0, 0, 0]"

definition numpad_ascii :: "u8 list" where
  "numpad_ascii = [55, 56, 57, 45, 52, 53, 54, 43, 49, 50, 51, 48, 46]"

definition numpad_nav :: "u16 list" where
  "numpad_nav = [
    keycode KEY_HOME, keycode KEY_UP, keycode KEY_PAGE_UP, 0,
    keycode KEY_LEFT, 0, keycode KEY_RIGHT, 0,
    keycode KEY_END, keycode KEY_DOWN, keycode KEY_PAGE_DOWN, keycode KEY_INSERT, keycode KEY_DELETE]"

section \<open>State and ring\<close>

record keyboard =
  kb_buffer :: "nat \<Rightarrow> u16"
  kb_head :: u32
  kb_tail :: u32
  shift_held :: bool
  ctrl_held :: bool
  alt_held :: bool
  gui_held :: bool
  capslock_state :: bool
  numlock_state :: bool
  scrolllock_state :: bool
  extended :: bool
  pause_seq_remaining :: nat

definition KB_BUFFER_SIZE :: u32 where
  "KB_BUFFER_SIZE = 256"

definition kb_buffer_push :: "keyboard \<Rightarrow> u16 \<Rightarrow> keyboard" where
  "kb_buffer_push kb k =
    (let nxt = (kb_head kb + 1) mod KB_BUFFER_SIZE in
     if nxt = kb_tail kb then kb
     else kb\<lparr>kb_buffer := (kb_buffer kb)(unat (kb_head kb) := k), kb_head := nxt\<rparr>)"

definition push_key :: "keyboard \<Rightarrow> key \<Rightarrow> keyboard" where
  "push_key kb k = kb_buffer_push kb (keycode k)"

definition keyboard_has_key :: "keyboard \<Rightarrow> bool" where
  "keyboard_has_key kb \<longleftrightarrow> kb_head kb \<noteq> kb_tail kb"

definition keyboard_has_char :: "keyboard \<Rightarrow> bool" where
  "keyboard_has_char kb \<longleftrightarrow> keyboard_has_key kb"

text \<open>The end of \<open>keyboard_read_key\<close>, after its wait.\<close>

definition take_key :: "keyboard \<Rightarrow> keyboard \<times> u16" where
  "take_key kb = (kb\<lparr>kb_tail := (kb_tail kb + 1) mod KB_BUFFER_SIZE\<rparr>, kb_buffer kb (unat (kb_tail kb)))"

definition KB_MOD_SHIFT :: u8 where "KB_MOD_SHIFT = 1"
definition KB_MOD_CTRL :: u8 where "KB_MOD_CTRL = 2"
definition KB_MOD_ALT :: u8 where "KB_MOD_ALT = 4"
definition KB_MOD_GUI :: u8 where "KB_MOD_GUI = 8"
definition KB_MOD_CAPS :: u8 where "KB_MOD_CAPS = 16"
definition KB_MOD_NUM :: u8 where "KB_MOD_NUM = 32"
definition KB_MOD_SCRL :: u8 where "KB_MOD_SCRL = 64"

definition keyboard_get_modifiers :: "keyboard \<Rightarrow> u8" where
  "keyboard_get_modifiers kb =
    (let mods = 0;
         mods = (if shift_held kb then mods OR KB_MOD_SHIFT else mods);
         mods = (if ctrl_held kb then mods OR KB_MOD_CTRL else mods);
         mods = (if alt_held kb then mods OR KB_MOD_ALT else mods);
         mods = (if gui_held kb then mods OR KB_MOD_GUI else mods);
         mods = (if capslock_state kb then mods OR KB_MOD_CAPS else mods);
         mods = (if numlock_state kb then mods OR KB_MOD_NUM else mods);
         mods = (if scrolllock_state kb then mods OR KB_MOD_SCRL else mods)
     in mods)"

section \<open>Decoding\<close>

definition translate_normal_key :: "keyboard \<Rightarrow> u8 \<Rightarrow> u8" where
  "translate_normal_key kb code =
    (let base = scancode_ascii ! unat code in
     if base = 0 then 0
     else
       (let use_shift = (if 97 \<le> base \<and> base \<le> 122 then shift_held kb \<noteq> capslock_state kb else shift_held kb);
            c = (if use_shift then scancode_ascii_shift ! unat code else base)
        in if ctrl_held kb then
             (if 97 \<le> c \<and> c \<le> 122 then c - 97 + 1
              else if 65 \<le> c \<and> c \<le> 90 then c - 65 + 1 else c)
           else c))"

text \<open>The branch of \<open>handle_normal\<close> for the keypad, on a press.\<close>

definition handle_numpad :: "keyboard \<Rightarrow> u8 \<Rightarrow> keyboard" where
  "handle_numpad kb code =
    (let idx = unat (code - 0x47);
         digit = numpad_ascii ! idx;
         nav = numpad_nav ! idx
     in if digit = 45 then push_key kb KEY_NUMPAD_MINUS
        else if digit = 43 then push_key kb KEY_NUMPAD_PLUS
        else if numlock_state kb then
          kb_buffer_push kb (if digit = 46 then keycode KEY_NUMPAD_DOT
                             else keycode KEY_NUMPAD_0 + (ucast digit - 48))
        else if nav \<noteq> 0 then kb_buffer_push kb nav else kb)"

definition handle_normal :: "keyboard \<Rightarrow> u8 \<Rightarrow> bool \<Rightarrow> keyboard" where
  "handle_normal kb code is_break =
    (if code = 0x2A \<or> code = 0x36 then
       push_key (kb\<lparr>shift_held := \<not> is_break\<rparr>) (if code = 0x2A then KEY_LSHIFT else KEY_RSHIFT)
     else if code = 0x1D then kb\<lparr>ctrl_held := \<not> is_break\<rparr>
     else if code = 0x38 then kb\<lparr>alt_held := \<not> is_break\<rparr>
     else if code = 0x3A then (if is_break then kb else kb\<lparr>capslock_state := \<not> capslock_state kb\<rparr>)
     else if code = 0x45 then (if is_break then kb else kb\<lparr>numlock_state := \<not> numlock_state kb\<rparr>)
     else if code = 0x46 then (if is_break then kb else kb\<lparr>scrolllock_state := \<not> scrolllock_state kb\<rparr>)
     else if \<not> is_break \<and> 0x3B \<le> code \<and> code \<le> 0x44 then
       kb_buffer_push kb (keycode KEY_F1 + (ucast code - 0x3B))
     else if \<not> is_break \<and> code = 0x57 then push_key kb KEY_F11
     else if \<not> is_break \<and> code = 0x58 then push_key kb KEY_F12
     else if code = 0x37 then (if is_break then kb else push_key kb KEY_NUMPAD_STAR)
     else if 0x47 \<le> code \<and> code \<le> 0x53 then (if is_break then kb else handle_numpad kb code)
     else if is_break then kb
     else (let c = translate_normal_key kb code in if c \<noteq> 0 then kb_buffer_push kb (ucast c) else kb))"

definition handle_extended :: "keyboard \<Rightarrow> u8 \<Rightarrow> bool \<Rightarrow> keyboard" where
  "handle_extended kb code is_break =
    (if code = 0x1D then kb\<lparr>ctrl_held := \<not> is_break\<rparr>
     else if code = 0x38 then kb\<lparr>alt_held := \<not> is_break\<rparr>
     else if code = 0x1C then (if is_break then kb else push_key kb KEY_NUMPAD_ENTER)
     else if code = 0x35 then (if is_break then kb else push_key kb KEY_NUMPAD_SLASH)
     else if is_break then kb
     else if code = 0x48 then push_key kb KEY_UP
     else if code = 0x50 then push_key kb KEY_DOWN
     else if code = 0x4B then push_key kb KEY_LEFT
     else if code = 0x4D then push_key kb KEY_RIGHT
     else if code = 0x47 then push_key kb KEY_HOME
     else if code = 0x4F then push_key kb KEY_END
     else if code = 0x49 then push_key kb KEY_PAGE_UP
     else if code = 0x51 then push_key kb KEY_PAGE_DOWN
     else if code = 0x52 then push_key kb KEY_INSERT
     else if code = 0x53 then push_key kb KEY_DELETE
     else if code = 0x5B then push_key (kb\<lparr>gui_held := True\<rparr>) KEY_LGUI
     else if code = 0x5C then push_key (kb\<lparr>gui_held := True\<rparr>) KEY_RGUI
     else if code = 0x5D then push_key kb KEY_MENU
     else if code = 0x37 then push_key kb KEY_PRINTSCREEN
     else kb)"

definition keyboard_handle_irq :: "keyboard \<Rightarrow> u8 \<Rightarrow> keyboard" where
  "keyboard_handle_irq kb sc =
    (if 0 < pause_seq_remaining kb then
       (let kb1 = kb\<lparr>pause_seq_remaining := pause_seq_remaining kb - 1\<rparr>
        in if pause_seq_remaining kb1 = 0 then push_key kb1 KEY_PAUSE else kb1)
     else if sc = 0xE1 then kb\<lparr>pause_seq_remaining := 5\<rparr>
     else if sc = 0xE0 then kb\<lparr>extended := True\<rparr>
     else
       (let is_break = sc AND 0x80 \<noteq> 0; code = sc AND 0x7F; kb1 = kb\<lparr>extended := False\<rparr>
        in if extended kb then handle_extended kb1 code is_break else handle_normal kb1 code is_break))"

section \<open>Reading\<close>

fun keyboard_read_key :: "keyboard \<Rightarrow> u8 list \<Rightarrow> (keyboard \<times> u16 \<times> u8 list) option" where
  "keyboard_read_key kb arriving =
    (if kb_head kb = kb_tail kb then
       (case arriving of [] \<Rightarrow> None | sc # rest \<Rightarrow> keyboard_read_key (keyboard_handle_irq kb sc) rest)
     else (case take_key kb of (kb1, k) \<Rightarrow> Some (kb1, k, arriving)))"

declare keyboard_read_key.simps [simp del]

definition keyboard_read_char :: "keyboard \<Rightarrow> u8 list \<Rightarrow> (keyboard \<times> u8 \<times> u8 list) option" where
  "keyboard_read_char kb arriving =
    map_option (\<lambda>(kb1, k, rest). (kb1, if k < KEY_SPECIAL_BASE then ucast k else 0, rest))
      (keyboard_read_key kb arriving)"

section \<open>The ring is a bounded queue\<close>

definition kb_ok :: "keyboard \<Rightarrow> bool" where
  "kb_ok kb \<longleftrightarrow> kb_head kb < KB_BUFFER_SIZE \<and> kb_tail kb < KB_BUFFER_SIZE"

definition kb_keys :: "keyboard \<Rightarrow> u16 list" where
  "kb_keys kb = ring_contents (kb_buffer kb) (unat (kb_head kb)) (unat (kb_tail kb))"

definition kb_pop :: "keyboard \<Rightarrow> (keyboard \<times> u16) option" where
  "kb_pop kb = (if keyboard_has_key kb then Some (take_key kb) else None)"

lemma unat_next: "(h :: u32) < 256 \<Longrightarrow> unat ((h + 1) mod 256) = (unat h + 1) mod 256"
proof -
  assume "h < 256"
  then have "unat h < 256" by (simp add: word_less_nat_alt)
  then have "unat (h + 1) = unat h + 1" by (subst unat_add_no_wrap) simp_all
  then show ?thesis by (simp add: unat_mod)
qed

lemma kb_bounds: "kb_ok kb \<Longrightarrow> unat (kb_head kb) < 256 \<and> unat (kb_tail kb) < 256"
  by (simp add: kb_ok_def KB_BUFFER_SIZE_def word_less_nat_alt)

lemma kb_next_eq:
  "kb_ok kb \<Longrightarrow> (kb_head kb + 1) mod KB_BUFFER_SIZE = kb_tail kb \<longleftrightarrow> length (kb_keys kb) = 255"
  using kb_bounds [of kb] ring_full [of "unat (kb_head kb)" "unat (kb_tail kb)" "kb_buffer kb"]
  using unat_next [of "kb_head kb"] by (simp add: kb_keys_def kb_ok_def KB_BUFFER_SIZE_def word_unat_eq_iff)

lemma mod_ring: "(h :: u32) mod KB_BUFFER_SIZE < KB_BUFFER_SIZE"
  by (simp add: KB_BUFFER_SIZE_def word_less_nat_alt unat_mod)

interpretation kb_fifo: bounded_fifo kb_ok kb_keys kb_buffer_push kb_pop 255
proof (unfold_locales, goal_cases)
  case (1 s)
  show ?case by (simp only: kb_keys_def length_ring_le)
next
  case (2 s x)
  then show ?case by (simp add: kb_buffer_push_def Let_def kb_ok_def mod_ring)
next
  case (3 s x)
  show ?case
  proof (cases "length (kb_keys s) = 255")
    case True
    then show ?thesis using kb_next_eq [OF 3] by (simp add: kb_buffer_push_def)
  next
    case False
    then have "(unat (kb_head s) + 1) mod 256 \<noteq> unat (kb_tail s)"
      using kb_bounds [OF 3] ring_full [of "unat (kb_head s)" "unat (kb_tail s)" "kb_buffer s"]
      by (simp add: kb_keys_def)
    from ring_push_contents [OF _ _ this, of "kb_buffer s" x] kb_bounds [OF 3]
    have "kb_keys (kb_buffer_push s x) = kb_keys s @ [x]"
      using False kb_next_eq [OF 3] 3
      by (simp add: kb_buffer_push_def Let_def kb_keys_def kb_ok_def KB_BUFFER_SIZE_def unat_next)
    moreover have "length (kb_keys s) < 255"
      using False length_ring_le [of "kb_buffer s" "unat (kb_head s)" "unat (kb_tail s)"]
      unfolding kb_keys_def by linarith
    ultimately show ?thesis by simp
  qed
next
  case (4 s)
  then show ?case using kb_bounds [OF 4(1)] ring_empty [of "unat (kb_head s)" "unat (kb_tail s)" "kb_buffer s"]
    by (simp add: kb_pop_def keyboard_has_key_def kb_keys_def word_unat_eq_iff)
next
  case (5 s x xs)
  note b = kb_bounds [OF 5(1)]
  have ne: "unat (kb_head s) \<noteq> unat (kb_tail s)"
    using ring_empty [of "unat (kb_head s)" "unat (kb_tail s)" "kb_buffer s"] b 5(2) by (auto simp: kb_keys_def)
  from ring_pop_contents [OF _ _ ne, of "kb_buffer s"] b 5
  have "kb_buffer s (unat (kb_tail s)) = x" "kb_keys (fst (take_key s)) = xs"
    by (simp_all add: kb_keys_def take_key_def kb_ok_def KB_BUFFER_SIZE_def unat_next)
  moreover have "kb_ok (fst (take_key s))" using 5(1) by (simp add: take_key_def kb_ok_def mod_ring)
  moreover have "kb_head s \<noteq> kb_tail s" using ne by auto
  ultimately show ?case by (simp add: kb_pop_def keyboard_has_key_def take_key_def)
qed

section \<open>Frames\<close>

text \<open>Everything in the state but the ring.\<close>

definition kb_flags :: "keyboard \<Rightarrow> bool list \<times> nat" where
  "kb_flags kb = ([shift_held kb, ctrl_held kb, alt_held kb, gui_held kb, capslock_state kb,
     numlock_state kb, scrolllock_state kb, extended kb], pause_seq_remaining kb)"

lemma kb_flags_push [simp]: "kb_flags (kb_buffer_push kb k) = kb_flags kb"
  by (simp add: kb_flags_def kb_buffer_push_def Let_def)

lemma kb_flags_take [simp]: "kb_flags (fst (take_key kb)) = kb_flags kb"
  by (simp add: kb_flags_def take_key_def)

lemma kb_flags_fields:
  assumes "kb_flags kb = kb_flags kb'"
  shows "shift_held kb = shift_held kb'" "ctrl_held kb = ctrl_held kb'" "alt_held kb = alt_held kb'"
    "gui_held kb = gui_held kb'" "capslock_state kb = capslock_state kb'" "numlock_state kb = numlock_state kb'"
    "scrolllock_state kb = scrolllock_state kb'" "extended kb = extended kb'"
    "pause_seq_remaining kb = pause_seq_remaining kb'"
  using assms by (simp_all add: kb_flags_def)

lemma push_fields [simp]:
  "gui_held (kb_buffer_push kb k) = gui_held kb" "extended (kb_buffer_push kb k) = extended kb"
  "pause_seq_remaining (kb_buffer_push kb k) = pause_seq_remaining kb"
  using kb_flags_fields [OF kb_flags_push [of kb k]] by simp_all

lemma translate_cong:
  assumes "kb_flags kb = kb_flags kb'"
  shows "translate_normal_key kb c = translate_normal_key kb' c"
  unfolding translate_normal_key_def kb_flags_fields [OF assms] ..

lemma modifiers_cong:
  assumes "kb_flags kb = kb_flags kb'"
  shows "keyboard_get_modifiers kb = keyboard_get_modifiers kb'"
  unfolding keyboard_get_modifiers_def kb_flags_fields [OF assms] ..

section \<open>Typing\<close>

text \<open>The scancodes of the keys of the main block that have an ASCII code.\<close>

definition plain_scancode :: "u8 \<Rightarrow> bool" where
  "plain_scancode c \<longleftrightarrow> c < 128 \<and> scancode_ascii ! unat c \<noteq> 0 \<and> c \<noteq> 0x37"

definition idle :: "keyboard \<Rightarrow> bool" where
  "idle kb \<longleftrightarrow> \<not> extended kb \<and> pause_seq_remaining kb = 0"

definition plain_codes :: "u8 list" where
  "plain_codes = filter plain_scancode (map word_of_nat [0..<256])"

lemma plain_mem: "plain_scancode c \<longleftrightarrow> c \<in> set plain_codes"
proof -
  have "c = word_of_nat (unat c) \<and> unat c < 256" using unat_bound [of c] by simp
  then show ?thesis unfolding plain_codes_def by (auto intro!: image_eqI [of _ _ "unat c"])
qed

text \<open>What the decoder tests of a code, evaluated once for all the plain codes.\<close>

definition decoded_plain :: "u8 \<Rightarrow> bool" where
  "decoded_plain c \<longleftrightarrow> c \<notin> {0x2A, 0x36, 0x1D, 0x38, 0x3A, 0x45, 0x46, 0x57, 0x58, 0x37, 0xE0, 0xE1}
    \<and> \<not> (0x3B \<le> c \<and> c \<le> 0x44) \<and> \<not> (0x47 \<le> c \<and> c \<le> 0x53)
    \<and> c AND 0x80 = 0 \<and> c AND 0x7F = c \<and> c + 0x80 \<notin> {0xE0, 0xE1}
    \<and> (c + 0x80) AND 0x80 \<noteq> 0 \<and> (c + 0x80) AND 0x7F = c"

definition char_nonzero :: "u8 \<Rightarrow> bool" where
  "char_nonzero c \<longleftrightarrow> c \<noteq> 0 \<and> (97 \<le> c \<and> c \<le> 122 \<longrightarrow> c - 97 + 1 \<noteq> 0) \<and> (65 \<le> c \<and> c \<le> 90 \<longrightarrow> c - 65 + 1 \<noteq> 0)"

lemma plain_codes_check:
  "list_all (\<lambda>c. decoded_plain c \<and> char_nonzero (scancode_ascii ! unat c) \<and> char_nonzero (scancode_ascii_shift ! unat c)) plain_codes"
  by code_simp

lemma plain_decoded:
  assumes "plain_scancode c"
  shows "decoded_plain c" "char_nonzero (scancode_ascii ! unat c)" "char_nonzero (scancode_ascii_shift ! unat c)"
  using plain_codes_check assms unfolding plain_mem list_all_iff by blast+

lemma translate_nonzero:
  assumes "plain_scancode c"
  shows "translate_normal_key kb c \<noteq> 0"
  using plain_decoded(2,3) [OF assms] unfolding char_nonzero_def translate_normal_key_def Let_def
  by (simp split: if_split)

lemma press_plain:
  assumes "plain_scancode c" and "idle kb"
  shows "keyboard_handle_irq kb c = kb_buffer_push kb (ucast (translate_normal_key kb c))"
    and "keyboard_handle_irq kb (c + 0x80) = kb"
proof -
  note d = plain_decoded(1) [OF assms(1), unfolded decoded_plain_def insert_iff de_Morgan_disj]
  have i: "\<not> extended kb" "pause_seq_remaining kb = 0" "kb\<lparr>extended := False\<rparr> = kb"
    using assms(2) by (cases kb; simp add: idle_def)+
  have "handle_normal kb c False = kb_buffer_push kb (ucast (translate_normal_key kb c))"
    unfolding handle_normal_def Let_def using d translate_nonzero [OF assms(1)] by auto
  then show "keyboard_handle_irq kb c = kb_buffer_push kb (ucast (translate_normal_key kb c))"
    unfolding keyboard_handle_irq_def Let_def i(3) using d i(1,2) by simp
  have "handle_normal kb c True = kb" unfolding handle_normal_def Let_def using d by auto
  then show "keyboard_handle_irq kb (c + 0x80) = kb"
    unfolding keyboard_handle_irq_def Let_def i(3) using d i(1,2) by simp
qed

definition strokes :: "u8 list \<Rightarrow> u8 list" where
  "strokes codes = concat (map (\<lambda>c. [c, c + 0x80]) codes)"

lemma type_plain:
  assumes "idle kb" and "\<forall>c \<in> set codes. plain_scancode c"
  shows "foldl keyboard_handle_irq kb (strokes codes)
    = foldl kb_buffer_push kb (map (\<lambda>c. ucast (translate_normal_key kb c)) codes)"
  using assms
proof (induction codes arbitrary: kb)
  case (Cons c codes)
  let ?kb = "kb_buffer_push kb (ucast (translate_normal_key kb c))"
  have "idle ?kb" using Cons.prems(1) by (simp add: idle_def)
  then have "foldl keyboard_handle_irq kb (strokes (c # codes)) = foldl keyboard_handle_irq ?kb (strokes codes)"
    using press_plain [of c kb] press_plain(2) [of c ?kb] Cons.prems by (simp add: strokes_def)
  also have "\<dots> = foldl kb_buffer_push ?kb (map (\<lambda>c. ucast (translate_normal_key ?kb c)) codes)"
    using Cons.IH [OF \<open>idle ?kb\<close>] Cons.prems(2) by simp
  finally show ?case by (simp add: translate_cong [OF kb_flags_push])
qed (simp add: strokes_def)

lemma flags_foldl: "kb_flags (foldl kb_buffer_push kb ks) = kb_flags kb"
  by (induction ks arbitrary: kb) simp_all

section \<open>Reachable states\<close>

text \<open>The handler runs at an interrupt, and a reader takes a key when there is one.\<close>

inductive kb_step :: "keyboard \<Rightarrow> keyboard \<Rightarrow> bool" where
  irq: "kb_step kb (keyboard_handle_irq kb sc)"
| read: "keyboard_has_key kb \<Longrightarrow> kb_step kb (fst (take_key kb))"

inductive_cases kb_stepE: "kb_step kb kb'"

definition kb_inv :: "keyboard \<Rightarrow> bool" where
  "kb_inv kb \<longleftrightarrow> kb_ok kb \<and> pause_seq_remaining kb \<le> 5 \<and> 0 \<notin> set (kb_keys kb)"

lemma keycode_special: "KEY_SPECIAL_BASE \<le> keycode k \<and> keycode k \<noteq> 0"
  by (cases k) (simp_all add: KEY_SPECIAL_BASE_def)

lemma inv_push: "kb_inv kb \<Longrightarrow> k \<noteq> 0 \<Longrightarrow> kb_inv (kb_buffer_push kb k)"
  using kb_fifo.push_wf [of kb k] kb_fifo.push_contents [of kb k]
  by (auto simp: kb_inv_def dest: in_set_takeD)

lemma inv_push_key: "kb_inv kb \<Longrightarrow> kb_inv (push_key kb k)"
  by (simp add: push_key_def inv_push keycode_special)

lemma inv_cong:
  assumes "kb_buffer kb' = kb_buffer kb" "kb_head kb' = kb_head kb" "kb_tail kb' = kb_tail kb"
    and "pause_seq_remaining kb' \<le> 5"
  shows "kb_inv kb \<Longrightarrow> kb_inv kb'"
  using assms by (simp add: kb_inv_def kb_ok_def kb_keys_def)

lemma inv_flags:
  "kb_inv kb \<Longrightarrow> kb_inv (kb\<lparr>shift_held := b\<rparr>)" "kb_inv kb \<Longrightarrow> kb_inv (kb\<lparr>ctrl_held := b\<rparr>)"
  "kb_inv kb \<Longrightarrow> kb_inv (kb\<lparr>alt_held := b\<rparr>)" "kb_inv kb \<Longrightarrow> kb_inv (kb\<lparr>gui_held := b\<rparr>)"
  "kb_inv kb \<Longrightarrow> kb_inv (kb\<lparr>capslock_state := b\<rparr>)" "kb_inv kb \<Longrightarrow> kb_inv (kb\<lparr>numlock_state := b\<rparr>)"
  "kb_inv kb \<Longrightarrow> kb_inv (kb\<lparr>scrolllock_state := b\<rparr>)" "kb_inv kb \<Longrightarrow> kb_inv (kb\<lparr>extended := b\<rparr>)"
  "kb_inv kb \<Longrightarrow> n \<le> 5 \<Longrightarrow> kb_inv (kb\<lparr>pause_seq_remaining := n\<rparr>)"
  by (rule inv_cong [of _ kb]; simp add: kb_inv_def)+

lemmas inv_intros = inv_push_key inv_flags

lemma inv_numpad: "kb_inv kb \<Longrightarrow> 0x47 \<le> code \<Longrightarrow> code \<le> 0x53 \<Longrightarrow> kb_inv (handle_numpad kb code)"
proof -
  assume inv: "kb_inv kb" and code: "0x47 \<le> code" "code \<le> 0x53"
  have "unat (code - 0x47) = unat code - 0x47" using code(1) by (simp add: unat_sub)
  moreover have "unat code \<le> 0x53" "0x47 \<le> unat code" using code by (simp_all add: word_le_nat_alt)
  ultimately have "unat (code - 0x47) \<in> set [0..<13]" by auto
  moreover have "list_all (\<lambda>i. numpad_ascii ! i = 46 \<or> keycode KEY_NUMPAD_0 + (ucast (numpad_ascii ! i) - 48) \<noteq> 0) [0..<13]"
    by code_simp
  ultimately have "numpad_ascii ! unat (code - 0x47) = 46
      \<or> keycode KEY_NUMPAD_0 + (ucast (numpad_ascii ! unat (code - 0x47)) - 48) \<noteq> 0"
    unfolding list_all_iff by blast
  with inv show ?thesis unfolding handle_numpad_def Let_def
    by (auto intro!: inv_intros inv_push simp: keycode_special simp del: keycode.simps)
qed

lemma unat_ucast_u16: "unat (ucast (c :: u8) :: u16) = unat c"
  using unat_bound [of c] by (simp add: unsigned_ucast_eq take_bit_nat_eq_self)

lemma inv_normal: "kb_inv kb \<Longrightarrow> kb_inv (handle_normal kb code is_break)"
proof -
  assume inv: "kb_inv kb"
  have f: "keycode KEY_F1 + (ucast code - 0x3B) \<noteq> 0" if "0x3B \<le> code" "code \<le> 0x44"
  proof
    assume "keycode KEY_F1 + (ucast code - 0x3B) = 0"
    then have "ucast code + (0xCF :: u16) = 0" by (simp add: algebra_simps)
    moreover have "unat (ucast code + (0xCF :: u16)) = unat code + 0xCF"
      using unat_bound [of code] by (subst unat_add_no_wrap) (simp_all add: unat_ucast_u16)
    ultimately show False by simp
  qed
  have c: "c \<noteq> 0 \<Longrightarrow> (ucast (c :: u8) :: u16) \<noteq> 0" for c
    by (metis unat_ucast_u16 unat_eq_zero unsigned_0)
  show ?thesis using inv f unfolding handle_normal_def Let_def
    by (auto intro!: inv_intros inv_push inv_numpad c simp del: keycode.simps)
qed

lemma inv_extended: "kb_inv kb \<Longrightarrow> kb_inv (handle_extended kb code is_break)"
  unfolding handle_extended_def by (auto intro!: inv_intros simp del: keycode.simps)

lemma inv_irq: "kb_inv kb \<Longrightarrow> kb_inv (keyboard_handle_irq kb sc)"
proof -
  assume inv: "kb_inv kb"
  then have "pause_seq_remaining kb \<le> 5" by (simp add: kb_inv_def)
  with inv show ?thesis unfolding keyboard_handle_irq_def Let_def
    by (auto intro!: inv_intros inv_normal inv_extended)
qed

lemma inv_take: "kb_inv kb \<Longrightarrow> keyboard_has_key kb \<Longrightarrow> kb_inv (fst (take_key kb)) \<and> snd (take_key kb) \<noteq> 0"
proof -
  assume inv: "kb_inv kb" and has: "keyboard_has_key kb"
  then have ok: "kb_ok kb" "0 \<notin> set (kb_keys kb)" by (simp_all add: kb_inv_def)
  have "kb_pop kb = Some (fst (take_key kb), snd (take_key kb))" using has by (simp add: kb_pop_def)
  from kb_fifo.pop_Some [OF ok(1) this] ok(2) inv show ?thesis
    using kb_flags_fields(9) [OF kb_flags_take [of kb]] by (auto simp: kb_inv_def)
qed

lemma inv_steps: "kb_step\<^sup>*\<^sup>* kb kb' \<Longrightarrow> kb_inv kb \<Longrightarrow> kb_inv kb'"
proof (induction rule: rtranclp_induct)
  case (step kb1 kb2)
  then show ?case using inv_irq inv_take by (auto elim!: kb_stepE)
qed

definition kb_boot :: keyboard where
  "kb_boot = \<lparr>kb_buffer = \<lambda>_. 0, kb_head = 0, kb_tail = 0, shift_held = False, ctrl_held = False,
     alt_held = False, gui_held = False, capslock_state = False, numlock_state = False,
     scrolllock_state = False, extended = False, pause_seq_remaining = 0\<rparr>"

lemma boot_inv: "kb_inv kb_boot" "kb_keys kb_boot = []" "idle kb_boot"
  by (simp_all add: kb_inv_def kb_ok_def kb_boot_def kb_keys_def ring_contents_def KB_BUFFER_SIZE_def idle_def)

section \<open>Properties\<close>

text \<open>C31. Typing on the main block: presses and releases of plain keys put their characters, as
  translated under the modifiers that are held, at the end of the queue, in order and as far as
  the 255 places reach; the modifiers stay as they are, and the reader takes the characters out
  in the order in which they were typed.\<close>

theorem keyboard_typing:
  assumes ok: "kb_ok kb" and idle: "idle kb" and plain: "\<forall>c \<in> set codes. plain_scancode c"
    and n: "n \<le> min 255 (length (kb_keys kb) + length codes)"
  shows "kb_keys (foldl keyboard_handle_irq kb (strokes codes))
      = take 255 (kb_keys kb @ map (\<lambda>c. ucast (translate_normal_key kb c)) codes)
    \<and> keyboard_get_modifiers (foldl keyboard_handle_irq kb (strokes codes)) = keyboard_get_modifiers kb
    \<and> map_option snd (pops kb_pop n (foldl keyboard_handle_irq kb (strokes codes)))
      = Some (take n (kb_keys kb @ map (\<lambda>c. ucast (translate_normal_key kb c)) codes))"
proof -
  let ?ks = "map (\<lambda>c. ucast (translate_normal_key kb c)) codes :: u16 list"
  note all = kb_fifo.push_all [OF ok, of ?ks]
  have "n \<le> length (kb_keys (foldl kb_buffer_push kb ?ks))"
    unfolding conjunct2 [OF all] length_take length_append length_map using n by linarith
  from kb_fifo.pops_all [OF conjunct1 [OF all] this] n show ?thesis
    unfolding type_plain [OF idle plain] conjunct2 [OF all] take_take
    by (auto simp: modifiers_cong [OF flags_foldl] min_absorb1 simp del: take_append)
qed

theorem keyboard_typing_witness:
  "map_option snd (pops kb_pop 2 (foldl keyboard_handle_irq kb_boot (strokes [0x26, 0x1F]))) = Some [0x6C, 0x73]"
proof -
  have p: "\<forall>c \<in> set [0x26, 0x1F]. plain_scancode c" by (simp add: plain_scancode_def scancode_ascii_def)
  have ok: "kb_ok kb_boot" using boot_inv(1) by (simp add: kb_inv_def)
  have n: "2 \<le> min 255 (length (kb_keys kb_boot) + length [0x26 :: u8, 0x1F])" by simp
  have "translate_normal_key kb_boot 0x26 = 0x6C" "translate_normal_key kb_boot 0x1F = 0x73" by code_simp+
  with conjunct2 [OF conjunct2 [OF keyboard_typing [OF ok boot_inv(3) p n]]] show ?thesis
    by (simp only: boot_inv(2)) simp
qed

text \<open>C32. In every state that interrupts with arbitrary bytes and reads can reach from the state at
  boot, both indices are in the buffer, at most 255 keys wait, the pause counter is at most 5, and
  no waiting key is 0, so that \<open>keyboard_read_key\<close> never returns 0.\<close>

theorem keyboard_invariant:
  assumes "kb_step\<^sup>*\<^sup>* kb_boot kb"
  shows "kb_head kb < KB_BUFFER_SIZE \<and> kb_tail kb < KB_BUFFER_SIZE \<and> length (kb_keys kb) \<le> 255
    \<and> pause_seq_remaining kb \<le> 5 \<and> (keyboard_has_key kb \<longrightarrow> snd (take_key kb) \<noteq> 0)"
proof -
  have inv: "kb_inv kb" using inv_steps [OF assms boot_inv(1)] .
  then have "kb_ok kb" "pause_seq_remaining kb \<le> 5" by (simp_all add: kb_inv_def)
  with inv_take [OF inv] kb_fifo.capacity [of kb] show ?thesis by (simp add: kb_ok_def)
qed

theorem keyboard_invariant_witness:
  "\<exists>kb. kb_step\<^sup>*\<^sup>* kb_boot kb \<and> kb_head kb = 1 \<and> pause_seq_remaining kb \<le> 5"
proof -
  let ?kb = "keyboard_handle_irq kb_boot 0x1E"
  have r: "kb_step\<^sup>*\<^sup>* kb_boot ?kb" by (rule r_into_rtranclp) (rule kb_step.irq)
  have "kb_head ?kb = 1" by code_simp
  with r keyboard_invariant [OF r] show ?thesis by blast
qed

text \<open>C40. The GUI modifier is never released: once a GUI key has been pressed, no sequence of
  scancodes and reads, the release of that key included, clears the bit that
  \<open>keyboard_get_modifiers\<close> reports.\<close>

theorem keyboard_gui_sticky:
  assumes "gui_held kb" and "kb_step\<^sup>*\<^sup>* kb kb'"
  shows "keyboard_get_modifiers kb' AND KB_MOD_GUI \<noteq> 0"
proof -
  have normal: "gui_held (handle_normal k c b) = gui_held k" for k c b
    by (simp add: handle_normal_def handle_numpad_def Let_def push_key_def)
  have ext: "gui_held k \<Longrightarrow> gui_held (handle_extended k c b)" for k c b
    by (simp add: handle_extended_def push_key_def)
  have irq: "gui_held k \<Longrightarrow> gui_held (keyboard_handle_irq k sc)" for k sc
    by (simp add: keyboard_handle_irq_def Let_def push_key_def normal ext)
  from assms(2,1) have "gui_held kb'"
  proof (induction rule: rtranclp_induct)
    case (step k1 k2)
    then show ?case using irq kb_flags_fields(4) [OF kb_flags_take [of k1]] by (auto elim!: kb_stepE)
  qed
  then show ?thesis
    by (simp add: keyboard_get_modifiers_def Let_def KB_MOD_SHIFT_def KB_MOD_CTRL_def KB_MOD_ALT_def
      KB_MOD_GUI_def KB_MOD_CAPS_def KB_MOD_NUM_def KB_MOD_SCRL_def)
qed

theorem keyboard_gui_sticky_witness:
  "keyboard_get_modifiers (foldl keyboard_handle_irq kb_boot [0xE0, 0x5B, 0xE0, 0xDB]) AND KB_MOD_GUI \<noteq> 0"
proof -
  let ?press = "keyboard_handle_irq (keyboard_handle_irq kb_boot 0xE0) 0x5B"
  have held: "gui_held ?press" by code_simp
  have "kb_step\<^sup>*\<^sup>* ?press (keyboard_handle_irq (keyboard_handle_irq ?press 0xE0) 0xDB)"
    by (meson kb_step.irq converse_rtranclp_into_rtranclp r_into_rtranclp)
  from keyboard_gui_sticky [OF held this] show ?thesis by simp
qed

end
