(* ===== verification/Io.thy ===== *)
theory Io
  imports Prelude "HOL-Library.Monad_Syntax"
begin

text \<open>
  Port input and output (kernel/include/kernel/arch/x86_64/io.h and the copies of \<open>inb\<close> and
  \<open>outb\<close> in the drivers). The devices are an arbitrary answer to every read: \<open>io_in t p\<close> is what
  port \<open>p\<close> gives to the access number \<open>t\<close>. The writes are kept in the order in which they were
  made.
\<close>

record io =
  io_in :: "nat \<Rightarrow> u16 \<Rightarrow> u8"
  io_clock :: nat
  io_out :: "(u16 \<times> u8) list"

definition inb :: "io \<Rightarrow> u16 \<Rightarrow> io \<times> u8" where
  "inb io port = (io\<lparr>io_clock := io_clock io + 1\<rparr>, io_in io (io_clock io) port)"

definition outb :: "io \<Rightarrow> u16 \<Rightarrow> u8 \<Rightarrow> io" where
  "outb io port val = io\<lparr>io_clock := io_clock io + 1, io_out := io_out io @ [(port, val)]\<rparr>"

text \<open>A busy wait until one of the bits of a mask is set; it may wait for ever.\<close>

partial_function (option) poll_until :: "io \<Rightarrow> u16 \<Rightarrow> u8 \<Rightarrow> io option" where
  "poll_until io port bits =
    (let io1 = fst (inb io port)
     in if snd (inb io port) AND bits \<noteq> 0 then Some io1 else poll_until io1 port bits)"

text \<open>The bytes written to one port.\<close>

definition sent_to :: "u16 \<Rightarrow> io \<Rightarrow> u8 list" where
  "sent_to port io = map snd (filter (\<lambda>w. fst w = port) (io_out io))"

lemma sent_to_outb [simp]: "sent_to p (outb io q v) = sent_to p io @ (if q = p then [v] else [])"
  by (simp add: sent_to_def outb_def)

lemma sent_to_inb [simp]: "sent_to p (fst (inb io q)) = sent_to p io"
  by (simp add: sent_to_def inb_def)

lemma io_in_simps [simp]: "io_in (outb io p v) = io_in io" "io_in (fst (inb io p)) = io_in io"
  by (simp_all add: inb_def outb_def)

lemma poll_until_Some:
  assumes "poll_until io port bits = Some io'"
  shows "io_out io' = io_out io \<and> io_in io' = io_in io"
proof (rule poll_until.raw_induct [where P = "\<lambda>io _ _ io'. io_out io' = io_out io \<and> io_in io' = io_in io", OF _ assms])
  fix poll io port bits io'
  assume IH: "\<And>io port bits io'. poll io port bits = Some io' \<Longrightarrow> io_out io' = io_out io \<and> io_in io' = io_in io"
    and eq: "(let io1 = fst (inb io port) in if snd (inb io port) AND bits \<noteq> 0 then Some io1 else poll io1 port bits) = Some io'"
  then show "io_out io' = io_out io \<and> io_in io' = io_in io"
    using IH [of "fst (inb io port)" port bits io'] by (auto simp: Let_def inb_def split: if_splits)
qed

text \<open>A wait ends when the device becomes ready at some later access.\<close>

lemma poll_until_returns:
  assumes "io_in io (io_clock io + n) port AND bits \<noteq> 0"
  shows "\<exists>io'. poll_until io port bits = Some io'"
  using assms
proof (induction n arbitrary: io)
  case 0
  then show ?case by (subst poll_until.simps) (simp add: inb_def)
next
  case (Suc n)
  show ?case
  proof (cases "io_in io (io_clock io) port AND bits \<noteq> 0")
    case True
    then show ?thesis by (subst poll_until.simps) (simp add: inb_def)
  next
    case False
    then show ?thesis using Suc.IH [of "fst (inb io port)"] Suc.prems
      by (subst poll_until.simps) (simp add: inb_def)
  qed
qed

end
