(* ===== verification/Klib.thy ===== *)
theory Klib
  imports Prelude
begin

text \<open>
  kernel/src/lib/lib.c: the freestanding memory and string routines, over one flat byte
  memory, so that source and destination may overlap. A loop that is bounded by a count is
  a total function; a loop that runs to a NUL is a \<open>partial_function\<close> whose result None
  means that it does not return. Addresses are \<open>nat\<close> (no object wraps around the address
  space). The routines return their first argument, which the models leave out. The second
  half relates them to lists: \<open>cstr m p xs\<close> says that the memory holds the C string \<open>xs\<close>
  at address \<open>p\<close>.
\<close>

section \<open>Memory routines\<close>

function k_memcpy_loop :: "buf \<Rightarrow> nat \<Rightarrow> nat \<Rightarrow> nat \<Rightarrow> nat \<Rightarrow> buf" where
  "k_memcpy_loop m d s n i =
     (if i < n then k_memcpy_loop (m(d + i := m (s + i))) d s n (i + 1) else m)"
  by pat_completeness auto
termination
  by (relation "measure (\<lambda>(m, d, s, n, i). n - i)") auto

declare k_memcpy_loop.simps [simp del]

definition k_memcpy :: "buf \<Rightarrow> nat \<Rightarrow> nat \<Rightarrow> nat \<Rightarrow> buf" where
  "k_memcpy m d s n = k_memcpy_loop m d s n 0"

function k_memset_loop :: "buf \<Rightarrow> nat \<Rightarrow> u8 \<Rightarrow> nat \<Rightarrow> nat \<Rightarrow> buf" where
  "k_memset_loop m d v n i =
     (if i < n then k_memset_loop (m(d + i := v)) d v n (i + 1) else m)"
  by pat_completeness auto
termination
  by (relation "measure (\<lambda>(m, d, v, n, i). n - i)") auto

declare k_memset_loop.simps [simp del]

definition k_memset :: "buf \<Rightarrow> nat \<Rightarrow> int \<Rightarrow> nat \<Rightarrow> buf" where
  "k_memset m d val n = k_memset_loop m d (word_of_int val) n 0"

fun k_memmove_back :: "buf \<Rightarrow> nat \<Rightarrow> nat \<Rightarrow> nat \<Rightarrow> buf" where
  "k_memmove_back m d s 0 = m"
| "k_memmove_back m d s (Suc i) = k_memmove_back (m(d + i := m (s + i))) d s i"

definition k_memmove :: "buf \<Rightarrow> nat \<Rightarrow> nat \<Rightarrow> nat \<Rightarrow> buf" where
  "k_memmove m d s n =
     (if d = s \<or> n = 0 then m
      else if d < s then k_memcpy_loop m d s n 0
      else k_memmove_back m d s n)"

section \<open>String routines\<close>

partial_function (option) k_strlen_loop :: "buf \<Rightarrow> nat \<Rightarrow> nat \<Rightarrow> nat option" where
  "k_strlen_loop m s len = (if m (s + len) \<noteq> 0 then k_strlen_loop m s (len + 1) else Some len)"

definition k_strlen :: "buf \<Rightarrow> nat \<Rightarrow> nat option" where
  "k_strlen m s = k_strlen_loop m s 0"

partial_function (option) k_strcmp :: "buf \<Rightarrow> nat \<Rightarrow> nat \<Rightarrow> int option" where
  "k_strcmp m a b =
     (if m a \<noteq> 0 \<and> m a = m b then k_strcmp m (a + 1) (b + 1)
      else Some (uint (m a) - uint (m b)))"

function k_strncmp_loop :: "buf \<Rightarrow> nat \<Rightarrow> nat \<Rightarrow> nat \<Rightarrow> nat \<Rightarrow> int" where
  "k_strncmp_loop m a b n i =
     (if i < n then
        if m (a + i) \<noteq> m (b + i) then uint (m (a + i)) - uint (m (b + i))
        else if m (a + i) = 0 then 0
        else k_strncmp_loop m a b n (i + 1)
      else 0)"
  by pat_completeness auto
termination
  by (relation "measure (\<lambda>(m, a, b, n, i). n - i)") auto

declare k_strncmp_loop.simps [simp del]

definition k_strncmp :: "buf \<Rightarrow> nat \<Rightarrow> nat \<Rightarrow> nat \<Rightarrow> int" where
  "k_strncmp m a b n = k_strncmp_loop m a b n 0"

partial_function (option) k_strcpy :: "buf \<Rightarrow> nat \<Rightarrow> nat \<Rightarrow> buf option" where
  "k_strcpy m d s =
     (let c = m s; m' = m(d := c)
      in if c \<noteq> 0 then k_strcpy m' (d + 1) (s + 1) else Some m')"

text \<open>The first loop of \<open>k_strncpy\<close> and of \<open>k_strncat\<close>; it returns the index where it stops.\<close>

function copy_until :: "buf \<Rightarrow> nat \<Rightarrow> nat \<Rightarrow> nat \<Rightarrow> nat \<Rightarrow> buf \<times> nat" where
  "copy_until m d s n i =
     (if i < n \<and> m (s + i) \<noteq> 0 then copy_until (m(d + i := m (s + i))) d s n (i + 1)
      else (m, i))"
  by pat_completeness auto
termination
  by (relation "measure (\<lambda>(m, d, s, n, i). n - i)") auto

declare copy_until.simps [simp del]

definition k_strncpy :: "buf \<Rightarrow> nat \<Rightarrow> nat \<Rightarrow> nat \<Rightarrow> buf" where
  "k_strncpy m d s n = (case copy_until m d s n 0 of (m', i) \<Rightarrow> k_memset_loop m' d 0 n i)"

definition k_strncat :: "buf \<Rightarrow> nat \<Rightarrow> nat \<Rightarrow> nat \<Rightarrow> buf option" where
  "k_strncat m dst src n =
     (case k_strlen_loop m dst 0 of
        None \<Rightarrow> None
      | Some l \<Rightarrow>
          (case copy_until m (dst + l) src n 0 of (m', i) \<Rightarrow> Some (m'(dst + l + i := 0))))"

section \<open>Copying a range\<close>

text \<open>
  The forward loop is right whenever no byte is written before it is read: when the
  destination starts below the source, or beyond its end.
\<close>

lemma k_memcpy_loop_eq:
  assumes "d \<le> s \<or> s + n \<le> d"
  shows "i \<le> n \<Longrightarrow> k_memcpy_loop m d s n i = blit m (d + i) (bytes_at m (s + i) (n - i))"
proof (induction "n - i" arbitrary: i m)
  case 0
  then show ?case by (simp add: k_memcpy_loop.simps [of m d s i i])
next
  case (Suc k)
  let ?m = "m(d + i := m (s + i))"
  from Suc.hyps(2) have i: "i < n" and k: "n - i = Suc (n - (i + 1))" by auto
  have "k_memcpy_loop m d s n i = k_memcpy_loop ?m d s n (i + 1)"
    using i by (simp add: k_memcpy_loop.simps [of m d s n i])
  also have "\<dots> = blit ?m (d + (i + 1)) (bytes_at ?m (s + (i + 1)) (n - (i + 1)))"
    using Suc.hyps i by (intro Suc.hyps(1)) auto
  also have "bytes_at ?m (s + (i + 1)) (n - (i + 1)) = bytes_at m (s + (i + 1)) (n - (i + 1))"
    using assms i by (intro bytes_at_cong) auto
  finally show ?case
    by (simp only: k bytes_at_Suc blit_Cons add_Suc_right add_0_right One_nat_def)
qed

lemma k_memmove_back_eq:
  "s \<le> d \<Longrightarrow> k_memmove_back m d s n = blit m d (bytes_at m s n)"
proof (induction n arbitrary: m)
  case 0
  then show ?case by simp
next
  case (Suc n)
  let ?m = "m(d + n := m (s + n))"
  have "k_memmove_back m d s (Suc n) = blit ?m d (bytes_at ?m s n)"
    using Suc by simp
  also have "bytes_at ?m s n = bytes_at m s n"
    using Suc.prems by (intro bytes_at_cong) auto
  also have "blit ?m d (bytes_at m s n) = blit m d (bytes_at m s (Suc n))"
    by (rule ext) (auto simp: blit_def)
  finally show ?case .
qed

lemma k_memcpy_blit:
  "d \<le> s \<or> s + n \<le> d \<Longrightarrow> k_memcpy m d s n = blit m d (bytes_at m s n)"
  using k_memcpy_loop_eq [of d s n 0 m] by (simp add: k_memcpy_def)

lemma k_memset_loop_eq:
  "i \<le> n \<Longrightarrow> k_memset_loop m d v n i = blit m (d + i) (replicate (n - i) v)"
proof (induction "n - i" arbitrary: i m)
  case 0
  then show ?case by (simp add: k_memset_loop.simps [of m d v i i])
next
  case (Suc k)
  then have "i < n" by simp
  with Suc have "k_memset_loop m d v n i = blit (m(d + i := v)) (d + (i + 1)) (replicate (n - (i + 1)) v)"
    by (simp add: k_memset_loop.simps [of m d v n i])
  moreover from Suc.hyps(2) have "replicate (n - i) v = v # replicate (n - (i + 1)) v"
    by (metis Suc_diff_Suc Suc_eq_plus1 replicate_Suc zero_less_Suc zero_less_diff)
  ultimately show ?case by (simp add: blit_Cons)
qed

lemma k_memset_blit: "k_memset m d val n = blit m d (replicate n (word_of_int val))"
  using k_memset_loop_eq [of 0 n] by (simp add: k_memset_def)

section \<open>C strings in memory\<close>

definition cstr :: "buf \<Rightarrow> nat \<Rightarrow> u8 list \<Rightarrow> bool" where
  "cstr m p xs \<longleftrightarrow> bytes_at m p (length xs) = xs \<and> 0 \<notin> set xs \<and> m (p + length xs) = 0"

lemma cstr_Nil [simp]: "cstr m p [] \<longleftrightarrow> m p = 0"
  by (simp add: cstr_def)

lemma cstr_Cons: "cstr m p (x # xs) \<longleftrightarrow> m p = x \<and> x \<noteq> 0 \<and> cstr m (Suc p) xs"
  by (auto simp: cstr_def bytes_at_Suc)

lemma cstr_append:
  "cstr m p (xs @ ys) \<longleftrightarrow> bytes_at m p (length xs) = xs \<and> 0 \<notin> set xs \<and> cstr m (p + length xs) ys"
  by (induction xs arbitrary: p) (auto simp: cstr_Cons bytes_at_Suc)

lemma cstr_cong:
  "(\<And>i. p \<le> i \<Longrightarrow> i \<le> p + length xs \<Longrightarrow> m i = m' i) \<Longrightarrow> cstr m p xs = cstr m' p xs"
  by (simp add: cstr_def cong: bytes_at_cong)

lemma cstr_blit: "0 \<notin> set xs \<Longrightarrow> cstr (blit m p (xs @ [0])) p xs"
  by (auto simp: cstr_def blit_def nth_append intro!: nth_equalityI)

lemma cstr_nth: "cstr m p xs \<Longrightarrow> i < length xs \<Longrightarrow> m (p + i) = xs ! i \<and> xs ! i \<noteq> 0"
  by (metis cstr_def nth_bytes_at nth_mem)

lemma k_strlen_loop_cstr: "cstr m (s + len) xs \<Longrightarrow> k_strlen_loop m s len = Some (len + length xs)"
proof (induction xs arbitrary: len)
  case Nil
  then show ?case by (subst k_strlen_loop.simps) simp
next
  case (Cons x xs)
  then show ?case by (subst k_strlen_loop.simps) (simp add: cstr_Cons)
qed

lemma k_strlen_cstr: "cstr m s xs \<Longrightarrow> k_strlen m s = Some (length xs)"
  using k_strlen_loop_cstr [of m s 0 xs] by (simp add: k_strlen_def)

lemma k_strlen_loop_Some:
  assumes "k_strlen_loop m s len = Some r"
  shows "len \<le> r \<and> cstr m (s + len) (bytes_at m (s + len) (r - len))"
proof -
  define P where "P = (\<lambda>m s len r. len \<le> r \<and> cstr m (s + len) (bytes_at m (s + len) (r - len)))"
  have "P m s len r"
  proof (rule k_strlen_loop.raw_induct [OF _ assms])
    fix f m s len r
    assume IH: "\<And>m s len r. f m s len = Some r \<Longrightarrow> P m s len r"
      and eq: "(if m (s + len) \<noteq> 0 then f m s (len + 1) else Some len) = Some r"
    show "P m s len r"
    proof (cases "m (s + len) = 0")
      case True
      with eq show ?thesis by (simp add: P_def)
    next
      case False
      with eq have "f m s (len + 1) = Some r" by simp
      from IH [OF this] have ih: "len < r" "cstr m (Suc (s + len)) (bytes_at m (Suc (s + len)) (r - Suc len))"
        by (simp_all add: P_def)
      moreover from ih(1) have "r - len = Suc (r - Suc len)" by simp
      ultimately show ?thesis using False by (simp add: P_def bytes_at_Suc cstr_Cons)
    qed
  qed
  then show ?thesis by (simp add: P_def)
qed

text \<open>The comparison on lists that \<open>k_strcmp\<close> computes.\<close>

fun strcmp_list :: "u8 list \<Rightarrow> u8 list \<Rightarrow> int" where
  "strcmp_list [] [] = 0"
| "strcmp_list [] (y # ys) = - uint y"
| "strcmp_list (x # xs) [] = uint x"
| "strcmp_list (x # xs) (y # ys) = (if x = y then strcmp_list xs ys else uint x - uint y)"

lemma strcmp_list_0: "0 \<notin> set xs \<Longrightarrow> 0 \<notin> set ys \<Longrightarrow> strcmp_list xs ys = 0 \<longleftrightarrow> xs = ys"
  by (induction xs ys rule: strcmp_list.induct) (auto simp: word_uint_eq_iff)

lemma k_strcmp_cstr:
  "cstr m a xs \<Longrightarrow> cstr m b ys \<Longrightarrow> k_strcmp m a b = Some (strcmp_list xs ys)"
  by (induction xs ys arbitrary: a b rule: strcmp_list.induct)
    (subst k_strcmp.simps; auto simp: cstr_Cons)+

lemma copy_until_eq:
  assumes "d + n \<le> s \<or> s + n \<le> d"
  shows "i \<le> n \<Longrightarrow> copy_until m d s n i =
    (let ys = cstring (bytes_at m (s + i) (n - i)) in (blit m (d + i) ys, i + length ys))"
proof (induction "n - i" arbitrary: i m)
  case 0
  then show ?case by (simp add: copy_until.simps [of m d s i i] cstring_def)
next
  case (Suc k)
  let ?m = "m(d + i := m (s + i))"
  from Suc.hyps(2) have i: "i < n" and k: "n - i = Suc (n - (i + 1))" by auto
  show ?case
  proof (cases "m (s + i) = 0")
    case True
    then show ?thesis
      by (simp add: copy_until.simps [of m d s n i] k bytes_at_Suc cstring_def)
  next
    case False
    have same: "bytes_at ?m (s + (i + 1)) (n - (i + 1)) = bytes_at m (s + (i + 1)) (n - (i + 1))"
      using assms i by (intro bytes_at_cong) auto
    have "copy_until m d s n i = copy_until ?m d s n (i + 1)"
      using i False by (simp add: copy_until.simps [of m d s n i])
    also have "\<dots> = (let ys = cstring (bytes_at ?m (s + (i + 1)) (n - (i + 1)))
        in (blit ?m (d + (i + 1)) ys, i + 1 + length ys))"
      using Suc.hyps i by (intro Suc.hyps(1)) auto
    finally show ?thesis
      using False unfolding same k by (simp add: bytes_at_Suc cstring_def blit_Cons Let_def)
  qed
qed

lemma copy_until_cstr:
  "cstr m (s + i) ys \<Longrightarrow> d \<le> s \<or> s + length ys + i < d + i \<Longrightarrow> i \<le> n \<Longrightarrow>
   copy_until m d s n i = (blit m (d + i) (take (n - i) ys), i + min (n - i) (length ys))"
proof (induction ys arbitrary: i m)
  case Nil
  then show ?case by (simp add: copy_until.simps [of m d s n i])
next
  case (Cons y ys)
  let ?m = "m(d + i := m (s + i))"
  show ?case
  proof (cases "i < n")
    case False
    with Cons.prems have "i = n" by simp
    then show ?thesis by (simp add: copy_until.simps [of m d s n n])
  next
    case True
    from Cons.prems have y: "m (s + i) = y" "y \<noteq> 0" "cstr m (s + (i + 1)) ys"
      by (simp_all add: cstr_Cons)
    have "cstr ?m (s + (i + 1)) ys = cstr m (s + (i + 1)) ys"
      using Cons.prems(2) by (intro cstr_cong) auto
    with y have "cstr ?m (s + (i + 1)) ys" by simp
    moreover have "d \<le> s \<or> s + length ys + (i + 1) < d + (i + 1)"
      using Cons.prems(2) by auto
    moreover from True have "i + 1 \<le> n" by simp
    ultimately have "copy_until ?m d s n (i + 1) =
        (blit ?m (d + (i + 1)) (take (n - (i + 1)) ys), i + 1 + min (n - (i + 1)) (length ys))"
      by (rule Cons.IH)
    moreover from True have "n - i = Suc (n - (i + 1))" by simp
    ultimately show ?thesis
      using True y by (simp add: copy_until.simps [of m d s n i] blit_Cons)
  qed
qed

text \<open>\<open>strncpy\<close> pads the source string with NULs to the count, or cuts it there.\<close>

definition pad_to :: "nat \<Rightarrow> u8 list \<Rightarrow> u8 list" where
  "pad_to n xs = take n (xs @ replicate n 0)"

lemma length_pad_to [simp]: "length (pad_to n xs) = n"
  by (simp add: pad_to_def)

lemma pad_to_short: "length xs \<le> n \<Longrightarrow> pad_to n xs = xs @ replicate (n - length xs) 0"
  by (simp add: pad_to_def)

lemma cstring_pad_to: "0 \<notin> set xs \<Longrightarrow> length xs < n \<Longrightarrow> cstring (pad_to n xs) = xs"
  using cstring_append_nul [of xs "replicate (n - Suc (length xs)) 0"]
  by (simp add: pad_to_short Suc_diff_Suc flip: replicate_Suc)

lemma length_cstring_le [simp]: "length (cstring xs) \<le> length xs"
  by (simp add: cstring_def length_takeWhile_le)

lemma blit_append: "blit (blit b p xs) (p + length xs) ys = blit b p (xs @ ys)"
  by (rule ext) (auto simp: blit_def nth_append)

lemma k_strncpy_blit:
  assumes "d + n \<le> s \<or> s + n \<le> d"
  shows "k_strncpy m d s n = blit m d (pad_to n (cstring (bytes_at m s n)))"
proof -
  let ?ys = "cstring (bytes_at m s n)"
  have "length ?ys \<le> n" using length_cstring_le [of "bytes_at m s n"] by simp
  moreover have "copy_until m d s n 0 = (blit m d ?ys, length ?ys)"
    using copy_until_eq [OF assms, of 0 m] by (simp add: Let_def)
  ultimately show ?thesis
    by (simp add: k_strncpy_def k_memset_loop_eq blit_append pad_to_short)
qed

section \<open>Properties of the library routines\<close>

text \<open>\<open>k_memmove\<close> copies correctly for every overlap of its regions: afterwards each byte
  of the destination is the byte the source held before the call, and every byte outside the
  destination is unchanged.\<close>

theorem k_memmove_correct:
  "k_memmove m d s n x = (if d \<le> x \<and> x < d + n then m (s + (x - d)) else m x)"
proof -
  have "k_memmove m d s n = blit m d (bytes_at m s n)"
    using k_memcpy_loop_eq [of d s n 0 m] k_memmove_back_eq [of s d m n] blit_bytes_at [of m d n]
    by (auto simp: k_memmove_def simp del: blit_bytes_at)
  then show ?thesis by (auto simp: blit_def)
qed

text \<open>On two C strings \<open>k_strcmp\<close> returns, with the value the list comparison gives, and
  that value is 0 exactly when the strings are equal.\<close>

theorem k_strcmp_correct:
  assumes "cstr m a xs" and "cstr m b ys"
  shows "k_strcmp m a b = Some (strcmp_list xs ys) \<and> (k_strcmp m a b = Some 0 \<longleftrightarrow> xs = ys)"
proof -
  from assms have "0 \<notin> set xs" "0 \<notin> set ys" by (simp_all add: cstr_def)
  with assms show ?thesis by (simp add: k_strcmp_cstr strcmp_list_0)
qed

theorem k_strcmp_correct_witness:
  "k_strcmp (blit (\<lambda>_. 0) 0 (cs ''ls'')) 0 1 = Some (uint (of_char CHR ''l'' :: u8) - uint (of_char CHR ''s'' :: u8))"
proof -
  have "cstr (blit (\<lambda>_. 0) 0 (cs ''ls'')) 0 (cs ''ls'')" "cstr (blit (\<lambda>_. 0) 0 (cs ''ls'')) 1 (cs ''s'')"
    by (simp_all add: cstr_Cons blit_def)
  from k_strcmp_correct [OF this] show ?thesis by simp
qed

text \<open>\<open>k_strncat\<close> appends at most \<open>n\<close> bytes of the source and a NUL, and writes nothing
  before the old end of the destination string or after the new one: \<open>n\<close> bounds the bytes
  appended, not the size of the destination.\<close>

theorem k_strncat_correct:
  assumes "cstr m d xs" and "cstr m s ys"
    and "d + length xs + min n (length ys) < s \<or> s + length ys < d"
  shows "\<exists>m'. k_strncat m d s n = Some m' \<and> cstr m' d (xs @ take n ys) \<and>
    (\<forall>x. x < d + length xs \<or> d + length xs + min n (length ys) < x \<longrightarrow> m' x = m x)"
proof -
  let ?e = "d + length xs" and ?zs = "take n ys"
  have zs: "length ?zs = min n (length ys)" by simp
  have "k_strlen_loop m d 0 = Some (length xs)"
    using assms(1) k_strlen_loop_cstr [of m d 0 xs] by simp
  moreover have "copy_until m ?e s n 0 = (blit m ?e ?zs, min n (length ys))"
    using copy_until_cstr [of m s 0 ys ?e n] assms(2,3) by auto
  moreover have "(blit m ?e ?zs)(?e + min n (length ys) := 0) = blit m ?e (?zs @ [0])"
    using blit_append [of m ?e ?zs "[0]"] zs by (simp add: blit_Cons)
  moreover have "cstr (blit m ?e (?zs @ [0])) ?e ?zs"
    using assms(2) by (intro cstr_blit) (auto simp: cstr_def dest: in_set_takeD)
  then have "cstr (blit m ?e (?zs @ [0])) d (xs @ ?zs)"
    unfolding cstr_append using assms(1) by (simp add: cstr_def bytes_at_blit_other)
  ultimately show ?thesis
    by (auto simp: k_strncat_def blit_def)
qed

theorem k_strncat_correct_witness:
  "\<exists>m'. k_strncat (blit (blit (\<lambda>_. 0) 0 (cs ''/'')) 8 (cs ''root'')) 0 8 256 = Some m'
     \<and> cstr m' 0 (cs ''/root'')"
proof -
  let ?m = "blit (blit (\<lambda>_. 0) 0 (cs ''/'')) 8 (cs ''root'')"
  have "cstr ?m 0 (cs ''/'')" "cstr ?m 8 (cs ''root'')"
    by (simp_all add: cstr_Cons blit_def)
  from k_strncat_correct [OF this, of 256] show ?thesis by auto
qed

end
