(* ===== verification/Serial.thy ===== *)
theory Serial
  imports Io Ring Klib
begin

text \<open>
  kernel/src/drivers/serial.c: the four serial ports, polled or driven by interrupts, and the
  formatted output. The outer option is \<open>None\<close> where the code waits for ever: for a device that
  never becomes ready, or for a lock that is held (interrupts are off while a lock is taken and
  there is one processor, so nobody can release it). What the interrupts do while
  \<open>serial_putc_port\<close> pauses for room in its ring is the argument \<open>pause\<close>. A format string and
  the strings it prints lie in a memory; the variable arguments are the 64-bit slots of the
  calling convention, of which \<open>int\<close> takes the low half.
\<close>

section \<open>State\<close>

record serial_ring =
  r_buf :: "nat \<Rightarrow> u8"
  r_head :: u16
  r_tail :: u16

record serial_stats =
  tx_bytes :: u32
  rx_bytes :: u32
  rx_overruns :: u32
  framing_errors :: u32
  parity_errors :: u32
  break_events :: u32

record serial_config =
  c_baud :: u32
  c_data_bits :: u8
  c_stop_bits :: u8
  c_parity :: u8
  c_use_interrupts :: bool
  c_use_flow_control :: bool

record serial_state =
  s_base :: u16
  s_irq :: u8
  s_present :: bool
  s_open :: bool
  s_interrupts :: bool
  s_flow_control :: bool
  s_lock :: u32
  s_tx :: serial_ring
  s_rx :: serial_ring
  s_stats :: serial_stats

text \<open>The ports, the machine's input and output, and the interrupt flag.\<close>

record serial =
  g_ports :: "serial_state list"
  s_io :: io
  irq_flag :: bool

definition SERIAL_PORT_COUNT :: nat where
  "SERIAL_PORT_COUNT = 4"

definition SERIAL_BASE :: "u16 list" where
  "SERIAL_BASE = [0x3F8, 0x2F8, 0x3E8, 0x2E8]"

definition SERIAL_IRQ :: "u8 list" where
  "SERIAL_IRQ = [4, 3, 4, 3]"

definition SERIAL_CONFIG_DEFAULT :: serial_config where
  "SERIAL_CONFIG_DEFAULT = \<lparr>c_baud = 115200, c_data_bits = 8, c_stop_bits = 1, c_parity = 0,
     c_use_interrupts = False, c_use_flow_control = False\<rparr>"

definition LSR_DR :: u8 where "LSR_DR = 0x01"
definition LSR_OE :: u8 where "LSR_OE = 0x02"
definition LSR_PE :: u8 where "LSR_PE = 0x04"
definition LSR_FE :: u8 where "LSR_FE = 0x08"
definition LSR_BI :: u8 where "LSR_BI = 0x10"
definition LSR_THRE :: u8 where "LSR_THRE = 0x20"
definition LSR_TEMT :: u8 where "LSR_TEMT = 0x40"
definition IER_RDA :: u8 where "IER_RDA = 0x01"
definition IER_THRE :: u8 where "IER_THRE = 0x02"
definition IER_RLS :: u8 where "IER_RLS = 0x04"

definition zero_stats :: serial_stats where
  "zero_stats = \<lparr>tx_bytes = 0, rx_bytes = 0, rx_overruns = 0, framing_errors = 0, parity_errors = 0, break_events = 0\<rparr>"

definition upd_port :: "serial \<Rightarrow> nat \<Rightarrow> (serial_state \<Rightarrow> serial_state) \<Rightarrow> serial" where
  "upd_port s i f = s\<lparr>g_ports := (g_ports s)[i := f (g_ports s ! i)]\<rparr>"

definition s_inb :: "serial \<Rightarrow> u16 \<Rightarrow> serial \<times> u8" where
  "s_inb s p = (case inb (s_io s) p of (io1, v) \<Rightarrow> (s\<lparr>s_io := io1\<rparr>, v))"

definition s_outb :: "serial \<Rightarrow> u16 \<Rightarrow> u8 \<Rightarrow> serial" where
  "s_outb s p v = s\<lparr>s_io := outb (s_io s) p v\<rparr>"

definition s_poll :: "serial \<Rightarrow> u16 \<Rightarrow> u8 \<Rightarrow> serial option" where
  "s_poll s p bits = map_option (\<lambda>io1. s\<lparr>s_io := io1\<rparr>) (poll_until (s_io s) p bits)"

section \<open>Locks and rings\<close>

definition irq_save :: "serial \<Rightarrow> serial \<times> bool" where
  "irq_save s = (s\<lparr>irq_flag := False\<rparr>, irq_flag s)"

definition irq_restore :: "serial \<Rightarrow> bool \<Rightarrow> serial" where
  "irq_restore s flags = s\<lparr>irq_flag := flags\<rparr>"

definition spin_lock :: "serial \<Rightarrow> nat \<Rightarrow> serial option" where
  "spin_lock s i = (if s_lock (g_ports s ! i) = 0 then Some (upd_port s i (\<lambda>p. p\<lparr>s_lock := 1\<rparr>)) else None)"

definition spin_unlock :: "serial \<Rightarrow> nat \<Rightarrow> serial" where
  "spin_unlock s i = upd_port s i (\<lambda>p. p\<lparr>s_lock := 0\<rparr>)"

definition port_lock :: "serial \<Rightarrow> nat \<Rightarrow> (serial \<times> bool) option" where
  "port_lock s i = (case irq_save s of (s1, flags) \<Rightarrow> map_option (\<lambda>s2. (s2, flags)) (spin_lock s1 i))"

definition port_unlock :: "serial \<Rightarrow> nat \<Rightarrow> bool \<Rightarrow> serial" where
  "port_unlock s i flags = irq_restore (spin_unlock s i) flags"

definition SERIAL_RING_MASK :: u16 where
  "SERIAL_RING_MASK = 255"

definition ring_is_empty :: "serial_ring \<Rightarrow> bool" where
  "ring_is_empty r \<longleftrightarrow> r_head r = r_tail r"

definition ring_push :: "serial_ring \<Rightarrow> u8 \<Rightarrow> serial_ring \<times> bool" where
  "ring_push r byte =
    (let nxt = (r_head r + 1) AND SERIAL_RING_MASK in
     if nxt = r_tail r then (r, False)
     else (r\<lparr>r_buf := (r_buf r)(unat (r_head r) := byte), r_head := nxt\<rparr>, True))"

definition ring_pop :: "serial_ring \<Rightarrow> (serial_ring \<times> u8) option" where
  "ring_pop r =
    (if ring_is_empty r then None
     else Some (r\<lparr>r_tail := (r_tail r + 1) AND SERIAL_RING_MASK\<rparr>, r_buf r (unat (r_tail r))))"

section \<open>Ports\<close>

definition hw_putc :: "serial \<Rightarrow> nat \<Rightarrow> u8 \<Rightarrow> serial option" where
  "hw_putc s i c =
    (let base = s_base (g_ports s ! i)
     in map_option (\<lambda>s1. s_outb s1 base c) (s_poll s (base + 5) LSR_THRE))"

definition serial_port_present :: "serial \<Rightarrow> nat \<Rightarrow> serial \<times> bool" where
  "serial_port_present s port =
    (if SERIAL_PORT_COUNT \<le> port then (s, False)
     else
       (let base = SERIAL_BASE ! port;
            (s1, old) = s_inb s (base + 7);
            s2 = s_outb s1 (base + 7) 0x55;
            (s3, v) = s_inb s2 (base + 7);
            s4 = s_outb s3 (base + 7) old
        in (s4, v = 0x55)))"

definition line_control :: "serial_config \<Rightarrow> u8" where
  "line_control cfg =
    (let lcr = (if c_data_bits cfg = 5 then 0x00 else if c_data_bits cfg = 6 then 0x01
                else if c_data_bits cfg = 7 then 0x02 else 0x03);
         lcr1 = (if 2 \<le> c_stop_bits cfg then lcr OR 0x04 else lcr)
     in lcr1 OR push_bit 3 (c_parity cfg))"

definition baud_divisor :: "u32 \<Rightarrow> u32" where
  "baud_divisor baud = (let divisor = 115200 div baud in if divisor = 0 then 1 else divisor)"

definition serial_open :: "serial \<Rightarrow> nat \<Rightarrow> serial_config option \<Rightarrow> (serial \<times> bool) option" where
  "serial_open s port cfg_ptr =
    (case cfg_ptr of
      None \<Rightarrow> Some (s, False)
    | Some cfg \<Rightarrow>
        if SERIAL_PORT_COUNT \<le> port \<or> c_baud cfg = 0 then Some (s, False)
        else (case serial_port_present s port of (s1, present) \<Rightarrow>
          if \<not> present then Some (s1, False)
          else
            (let base = SERIAL_BASE ! port; divisor = baud_divisor (c_baud cfg) in
             do {
               (s2, flags) \<leftarrow> port_lock s1 port;
               let s3 = upd_port s2 port (\<lambda>p. p\<lparr>s_base := base, s_irq := SERIAL_IRQ ! port,
                          s_interrupts := c_use_interrupts cfg, s_flow_control := c_use_flow_control cfg,
                          s_tx := (s_tx p)\<lparr>r_head := 0, r_tail := 0\<rparr>,
                          s_rx := (s_rx p)\<lparr>r_head := 0, r_tail := 0\<rparr>, s_stats := zero_stats\<rparr>);
               let s4 = s_outb s3 (base + 1) 0x00;
               let s5 = s_outb s4 (base + 3) 0x80;
               let s6 = s_outb s5 (base + 0) (ucast (divisor AND 0xFF));
               let s7 = s_outb s6 (base + 1) (ucast (drop_bit 8 divisor AND 0xFF));
               let s8 = s_outb s7 (base + 3) (line_control cfg);
               let s9 = s_outb s8 (base + 2) 0xC7;
               let s10 = s_outb s9 (base + 4) 0x0B;
               let s11 = s_outb s10 (base + 1) (if c_use_interrupts cfg then IER_RDA OR IER_RLS else 0x00);
               let s12 = upd_port s11 port (\<lambda>p. p\<lparr>s_present := True, s_open := True\<rparr>);
               Some (port_unlock s12 port flags, True)
             })))"

definition serial_close :: "serial \<Rightarrow> nat \<Rightarrow> serial option" where
  "serial_close s port =
    (if SERIAL_PORT_COUNT \<le> port then Some s
     else map_option (\<lambda>(s1, flags).
       (let s2 = s_outb s1 (s_base (g_ports s1 ! port) + 1) 0x00
        in port_unlock (upd_port s2 port (\<lambda>p. p\<lparr>s_open := False\<rparr>)) port flags)) (port_lock s port))"

text \<open>The loop of \<open>serial_putc_port\<close> that waits for room, entered and left with the lock held.\<close>

partial_function (option) putc_wait ::
  "(serial \<Rightarrow> serial option) \<Rightarrow> serial \<Rightarrow> nat \<Rightarrow> u8 \<Rightarrow> bool \<Rightarrow> (serial \<times> bool) option" where
  "putc_wait pause s i c flags =
    (case ring_push (s_tx (g_ports s ! i)) c of (r, ok) \<Rightarrow>
       if ok then Some (upd_port s i (\<lambda>p. p\<lparr>s_tx := r\<rparr>), flags)
       else do {
         s1 \<leftarrow> pause (port_unlock s i flags);
         (s2, flags1) \<leftarrow> port_lock s1 i;
         putc_wait pause s2 i c flags1
       })"

definition count_tx :: "serial \<Rightarrow> nat \<Rightarrow> serial" where
  "count_tx s i = upd_port s i (\<lambda>p. p\<lparr>s_stats := (s_stats p)\<lparr>tx_bytes := tx_bytes (s_stats p) + 1\<rparr>\<rparr>)"

definition serial_putc_port :: "(serial \<Rightarrow> serial option) \<Rightarrow> serial \<Rightarrow> nat \<Rightarrow> u8 \<Rightarrow> serial option" where
  "serial_putc_port pause s port c =
    (if SERIAL_PORT_COUNT \<le> port then Some s
     else if \<not> s_open (g_ports s ! port) then Some s
     else if s_interrupts (g_ports s ! port) then
       do {
         (s1, flags) \<leftarrow> port_lock s port;
         (s2, flags1) \<leftarrow> putc_wait pause s1 port c flags;
         let base = s_base (g_ports s2 ! port);
         let (s3, ier) = s_inb s2 (base + 1);
         let s4 = s_outb s3 (base + 1) (ier OR IER_THRE);
         Some (port_unlock (count_tx s4 port) port flags1)
       }
     else map_option (\<lambda>s1. count_tx s1 port) (hw_putc s port c))"

definition emit_char :: "(serial \<Rightarrow> serial option) \<Rightarrow> serial \<Rightarrow> nat \<Rightarrow> u8 \<Rightarrow> serial option" where
  "emit_char pause s port c =
    (if c = 10 then do { s1 \<leftarrow> serial_putc_port pause s port 13; serial_putc_port pause s1 port c }
     else serial_putc_port pause s port c)"

text \<open>Both write loops emit the bytes of their string one by one.\<close>

fun write_bytes :: "(serial \<Rightarrow> serial option) \<Rightarrow> serial \<Rightarrow> nat \<Rightarrow> u8 list \<Rightarrow> serial option" where
  "write_bytes pause s port [] = Some s"
| "write_bytes pause s port (c # str) = do { s1 \<leftarrow> emit_char pause s port c; write_bytes pause s1 port str }"

definition serial_write_port :: "(serial \<Rightarrow> serial option) \<Rightarrow> serial \<Rightarrow> nat \<Rightarrow> u8 list \<Rightarrow> serial option" where
  "serial_write_port pause s port str = write_bytes pause s port (cstring str)"

definition serial_write_len_port ::
  "(serial \<Rightarrow> serial option) \<Rightarrow> serial \<Rightarrow> nat \<Rightarrow> u8 list \<Rightarrow> nat \<Rightarrow> serial option" where
  "serial_write_len_port pause s port str len = write_bytes pause s port (take len str)"

definition serial_getc_port :: "serial \<Rightarrow> nat \<Rightarrow> (serial \<times> int) option" where
  "serial_getc_port s port =
    (if SERIAL_PORT_COUNT \<le> port then Some (s, - 1)
     else if \<not> s_open (g_ports s ! port) then Some (s, - 1)
     else if s_interrupts (g_ports s ! port) then
       do {
         (s1, flags) \<leftarrow> port_lock s port;
         (case ring_pop (s_rx (g_ports s1 ! port)) of
           None \<Rightarrow> Some (port_unlock s1 port flags, - 1)
         | Some (r, byte) \<Rightarrow> Some (port_unlock (upd_port s1 port (\<lambda>p. p\<lparr>s_rx := r\<rparr>)) port flags, uint byte))
       }
     else
       (let base = s_base (g_ports s ! port); (s1, lsr) = s_inb s (base + 5) in
        if lsr AND LSR_DR \<noteq> 0 then (case s_inb s1 base of (s2, byte) \<Rightarrow> Some (s2, uint byte))
        else Some (s1, - 1)))"

definition serial_available_port :: "serial \<Rightarrow> nat \<Rightarrow> (serial \<times> bool) option" where
  "serial_available_port s port =
    (if SERIAL_PORT_COUNT \<le> port then Some (s, False)
     else if \<not> s_open (g_ports s ! port) then Some (s, False)
     else if s_interrupts (g_ports s ! port) then
       map_option (\<lambda>(s1, flags). (port_unlock s1 port flags, \<not> ring_is_empty (s_rx (g_ports s1 ! port))))
         (port_lock s port)
     else (case s_inb s (s_base (g_ports s ! port) + 5) of (s1, lsr) \<Rightarrow> Some (s1, lsr AND LSR_DR \<noteq> 0)))"

partial_function (option) drain_wait :: "(serial \<Rightarrow> serial option) \<Rightarrow> serial \<Rightarrow> nat \<Rightarrow> serial option" where
  "drain_wait pause s i =
    do {
      (s1, flags) \<leftarrow> port_lock s i;
      let empty = ring_is_empty (s_tx (g_ports s1 ! i));
      let s2 = port_unlock s1 i flags;
      if empty then Some s2 else do { s3 \<leftarrow> pause s2; drain_wait pause s3 i }
    }"

definition serial_flush_port :: "(serial \<Rightarrow> serial option) \<Rightarrow> serial \<Rightarrow> nat \<Rightarrow> serial option" where
  "serial_flush_port pause s port =
    (if SERIAL_PORT_COUNT \<le> port then Some s
     else if \<not> s_open (g_ports s ! port) then Some s
     else do {
       s1 \<leftarrow> (if s_interrupts (g_ports s ! port) then drain_wait pause s port else Some s);
       s_poll s1 (s_base (g_ports s1 ! port) + 5) LSR_TEMT
     })"

definition serial_stats_get :: "serial \<Rightarrow> nat \<Rightarrow> (serial \<times> serial_stats option) option" where
  "serial_stats_get s port =
    (if SERIAL_PORT_COUNT \<le> port then Some (s, None)
     else map_option (\<lambda>(s1, flags). (port_unlock s1 port flags, Some (s_stats (g_ports s1 ! port)))) (port_lock s port))"

section \<open>Interrupts\<close>

definition upd_stats :: "serial \<Rightarrow> nat \<Rightarrow> (serial_stats \<Rightarrow> serial_stats) \<Rightarrow> serial" where
  "upd_stats s i f = upd_port s i (\<lambda>p. p\<lparr>s_stats := f (s_stats p)\<rparr>)"

definition line_status :: "u8 \<Rightarrow> serial_stats \<Rightarrow> serial_stats" where
  "line_status lsr st =
    (let st1 = (if lsr AND LSR_OE \<noteq> 0 then st\<lparr>rx_overruns := rx_overruns st + 1\<rparr> else st);
         st2 = (if lsr AND LSR_PE \<noteq> 0 then st1\<lparr>parity_errors := parity_errors st1 + 1\<rparr> else st1);
         st3 = (if lsr AND LSR_FE \<noteq> 0 then st2\<lparr>framing_errors := framing_errors st2 + 1\<rparr> else st2)
     in if lsr AND LSR_BI \<noteq> 0 then st3\<lparr>break_events := break_events st3 + 1\<rparr> else st3)"

definition receive_byte :: "serial \<Rightarrow> nat \<Rightarrow> u8 \<Rightarrow> serial option" where
  "receive_byte s i byte =
    map_option (\<lambda>(s1, flags).
      case ring_push (s_rx (g_ports s1 ! i)) byte of (r, ok) \<Rightarrow>
        port_unlock (if ok then upd_stats (upd_port s1 i (\<lambda>p. p\<lparr>s_rx := r\<rparr>)) i (\<lambda>st. st\<lparr>rx_bytes := rx_bytes st + 1\<rparr>)
                     else upd_stats s1 i (\<lambda>st. st\<lparr>rx_overruns := rx_overruns st + 1\<rparr>)) i flags)
    (port_lock s i)"

partial_function (option) receive_loop :: "serial \<Rightarrow> nat \<Rightarrow> serial option" where
  "receive_loop s i =
    (let base = s_base (g_ports s ! i); (s1, lsr) = s_inb s (base + 5) in
     if lsr AND LSR_DR \<noteq> 0 then
       (let (s2, byte) = s_inb s1 base in do { s3 \<leftarrow> receive_byte s2 i byte; receive_loop s3 i })
     else Some s1)"

text \<open>At most \<open>n\<close> bytes of the ring go to the data port.\<close>

fun transmit_burst :: "serial \<Rightarrow> nat \<Rightarrow> nat \<Rightarrow> serial" where
  "transmit_burst s i 0 = s"
| "transmit_burst s i (Suc n) =
    (case ring_pop (s_tx (g_ports s ! i)) of
      None \<Rightarrow> s
    | Some (r, byte) \<Rightarrow>
        transmit_burst (s_outb (upd_port s i (\<lambda>p. p\<lparr>s_tx := r\<rparr>)) (s_base (g_ports s ! i)) byte) i n)"

definition transmit :: "serial \<Rightarrow> nat \<Rightarrow> serial option" where
  "transmit s i =
    map_option (\<lambda>(s1, flags).
      (let base = s_base (g_ports s1 ! i);
           s2 = transmit_burst s1 i 16;
           s3 = (if ring_is_empty (s_tx (g_ports s2 ! i)) then
                   (case s_inb s2 (base + 1) of (s', ier) \<Rightarrow> s_outb s' (base + 1) (ier AND NOT IER_THRE))
                 else s2)
       in port_unlock s3 i flags))
    (port_lock s i)"

partial_function (option) irq_loop :: "serial \<Rightarrow> nat \<Rightarrow> serial option" where
  "irq_loop s i =
    (let base = s_base (g_ports s ! i); (s1, iir) = s_inb s (base + 2) in
     if iir AND 0x01 \<noteq> 0 then Some s1
     else
       (let id = drop_bit 1 iir AND 0x07 in
        do {
          s2 \<leftarrow> (if id = 0x03 then
                  (let (s', lsr) = s_inb s1 (base + 5) in Some (upd_stats s' i (line_status lsr)))
                else if id = 0x02 \<or> id = 0x06 then receive_loop s1 i
                else if id = 0x01 then transmit s1 i
                else Some (fst (s_inb s1 (base + 6))));
          irq_loop s2 i
        }))"

definition serial_irq_handler :: "serial \<Rightarrow> nat \<Rightarrow> serial option" where
  "serial_irq_handler s port =
    (if SERIAL_PORT_COUNT \<le> port then Some s
     else if \<not> s_open (g_ports s ! port) \<or> \<not> s_interrupts (g_ports s ! port) then Some s
     else irq_loop s port)"

section \<open>Formatted output\<close>

definition digit_char :: "bool \<Rightarrow> u64 \<Rightarrow> u8" where
  "digit_char upper d = (if upper then cs ''0123456789ABCDEF'' else cs ''0123456789abcdef'') ! unat d"

text \<open>The digits that \<open>emit_uint\<close> stores in its buffer, the lowest first.\<close>

function uint_digits :: "u64 \<Rightarrow> u64 \<Rightarrow> bool \<Rightarrow> u8 list" where
  "uint_digits val base upper =
    (if val = 0 \<or> base \<le> 1 then [] else digit_char upper (val mod base) # uint_digits (val div base) base upper)"
  by auto
termination
proof (relation "measure (\<lambda>(v, b, u). unat v)", goal_cases)
  case (2 val base upper)
  then have "0 < unat val" "1 < unat base" by (simp_all add: word_le_nat_alt unat_gt_0)
  then show ?case by (simp add: unat_div)
qed simp

declare uint_digits.simps [simp del]

definition emit_uint :: "(serial \<Rightarrow> serial option) \<Rightarrow> serial \<Rightarrow> nat \<Rightarrow> u64 \<Rightarrow> u64 \<Rightarrow> bool \<Rightarrow> serial option" where
  "emit_uint pause s port val base upper =
    write_bytes pause s port (rev (if val = 0 then [48] else uint_digits val base upper))"

definition emit_int :: "(serial \<Rightarrow> serial option) \<Rightarrow> serial \<Rightarrow> nat \<Rightarrow> u64 \<Rightarrow> serial option" where
  "emit_int pause s port val =
    (if sint val < 0 then do { s1 \<leftarrow> emit_char pause s port 45; emit_uint pause s1 port (- val) 10 False }
     else emit_uint pause s port val 10 False)"

text \<open>A string in memory, up to its NUL.\<close>

partial_function (option) emit_str :: "(serial \<Rightarrow> serial option) \<Rightarrow> buf \<Rightarrow> serial \<Rightarrow> nat \<Rightarrow> nat \<Rightarrow> serial option" where
  "emit_str pause m s port a =
    (if m a = 0 then Some s else do { s1 \<leftarrow> emit_char pause s port (m a); emit_str pause m s1 port (a + 1) })"

text \<open>The flags after the percent sign: the number of \<open>l\<close>s, up to two, and the address after them.\<close>

partial_function (option) skip_ls :: "buf \<Rightarrow> nat \<Rightarrow> nat \<Rightarrow> (nat \<times> nat) option" where
  "skip_ls m p ls = (if m p = of_char CHR ''l'' then skip_ls m (p + 1) (min 2 (ls + 1)) else Some (p, ls))"

definition arg_signed :: "nat \<Rightarrow> u64 \<Rightarrow> u64" where
  "arg_signed ls v = (if ls = 0 then scast (ucast v :: u32) else v)"

definition arg_unsigned :: "nat \<Rightarrow> u64 \<Rightarrow> u64" where
  "arg_unsigned ls v = (if ls = 0 then ucast (ucast v :: u32) else v)"

text \<open>One conversion: the state after it, and the number of arguments used.\<close>

definition convert ::
  "(serial \<Rightarrow> serial option) \<Rightarrow> buf \<Rightarrow> serial \<Rightarrow> nat \<Rightarrow> u8 \<Rightarrow> nat \<Rightarrow> u64 \<Rightarrow> (serial \<times> nat) option" where
  "convert pause m s port c ls v =
    (if c = of_char CHR ''d'' \<or> c = of_char CHR ''i'' then
       map_option (\<lambda>s1. (s1, 1)) (emit_int pause s port (arg_signed ls v))
     else if c = of_char CHR ''u'' then
       map_option (\<lambda>s1. (s1, 1)) (emit_uint pause s port (arg_unsigned ls v) 10 False)
     else if c = of_char CHR ''x'' then
       map_option (\<lambda>s1. (s1, 1)) (emit_uint pause s port (arg_unsigned ls v) 16 False)
     else if c = of_char CHR ''X'' then
       map_option (\<lambda>s1. (s1, 1)) (emit_uint pause s port (arg_unsigned ls v) 16 True)
     else if c = of_char CHR ''p'' then
       do {
         s1 \<leftarrow> write_bytes pause s port (cs ''0x'');
         s2 \<leftarrow> emit_uint pause s1 port v 16 False;
         Some (s2, 1)
       }
     else if c = of_char CHR ''s'' then
       map_option (\<lambda>s1. (s1, 1))
         (if v = 0 then write_bytes pause s port (cs ''(null)'') else emit_str pause m s port (unat v))
     else if c = of_char CHR ''c'' then map_option (\<lambda>s1. (s1, 1)) (emit_char pause s port (ucast v))
     else if c = 37 then map_option (\<lambda>s1. (s1, 0)) (emit_char pause s port 37)
     else
       do {
         s1 \<leftarrow> emit_char pause s port 37;
         s2 \<leftarrow> (if c \<noteq> 0 then emit_char pause s1 port c else Some s1);
         Some (s2, 0)
       })"

partial_function (option) vprintf_loop ::
  "(serial \<Rightarrow> serial option) \<Rightarrow> buf \<Rightarrow> (nat \<Rightarrow> u64) \<Rightarrow> serial \<Rightarrow> nat \<Rightarrow> nat \<Rightarrow> nat \<Rightarrow> nat \<Rightarrow> (serial \<times> nat) option" where
  "vprintf_loop pause m ap s port fmt k count =
    (if m fmt = 0 then Some (s, count)
     else if m fmt \<noteq> 37 then
       do { s1 \<leftarrow> emit_char pause s port (m fmt); vprintf_loop pause m ap s1 port (fmt + 1) k (count + 1) }
     else
       do {
         (p, ls) \<leftarrow> skip_ls m (fmt + 1) 0;
         (s1, used) \<leftarrow> convert pause m s port (m p) ls (ap k);
         vprintf_loop pause m ap s1 port (p + 1) (k + used) (count + 1)
       })"

definition serial_vprintf_port ::
  "(serial \<Rightarrow> serial option) \<Rightarrow> buf \<Rightarrow> serial \<Rightarrow> nat \<Rightarrow> nat option \<Rightarrow> (nat \<Rightarrow> u64) \<Rightarrow> (serial \<times> nat) option" where
  "serial_vprintf_port pause m s port fmt ap =
    (case fmt of
      None \<Rightarrow> Some (s, 0)
    | Some p \<Rightarrow> if SERIAL_PORT_COUNT \<le> port then Some (s, 0) else vprintf_loop pause m ap s port p 0 0)"

text \<open>The functions for the first port.\<close>

definition serial_init :: "serial \<Rightarrow> serial option" where
  "serial_init s = map_option fst (serial_open s 0 (Some SERIAL_CONFIG_DEFAULT))"

definition serial_putc :: "(serial \<Rightarrow> serial option) \<Rightarrow> serial \<Rightarrow> u8 \<Rightarrow> serial option" where
  "serial_putc pause s c = serial_putc_port pause s 0 c"

definition serial_write :: "(serial \<Rightarrow> serial option) \<Rightarrow> serial \<Rightarrow> u8 list \<Rightarrow> serial option" where
  "serial_write pause s str = serial_write_port pause s 0 str"

definition serial_write_len :: "(serial \<Rightarrow> serial option) \<Rightarrow> serial \<Rightarrow> u8 list \<Rightarrow> nat \<Rightarrow> serial option" where
  "serial_write_len pause s str len = serial_write_len_port pause s 0 str len"

definition serial_flush :: "(serial \<Rightarrow> serial option) \<Rightarrow> serial \<Rightarrow> serial option" where
  "serial_flush pause s = serial_flush_port pause s 0"

definition serial_printf ::
  "(serial \<Rightarrow> serial option) \<Rightarrow> buf \<Rightarrow> serial \<Rightarrow> nat option \<Rightarrow> (nat \<Rightarrow> u64) \<Rightarrow> (serial \<times> nat) option" where
  "serial_printf pause m s fmt ap = serial_vprintf_port pause m s 0 fmt ap"

section \<open>The ring is a bounded queue\<close>

definition ring_ok :: "serial_ring \<Rightarrow> bool" where
  "ring_ok r \<longleftrightarrow> r_head r < 256 \<and> r_tail r < 256"

definition ring_items :: "serial_ring \<Rightarrow> u8 list" where
  "ring_items r = ring_contents (r_buf r) (unat (r_head r)) (unat (r_tail r))"

lemma ring_mask: "(h :: u16) AND SERIAL_RING_MASK = h mod 256"
  using take_bit_eq_mask [of 8 h] take_bit_eq_mod [of 8 h] by (simp add: SERIAL_RING_MASK_def mask_eq_exp_minus_1)

lemma unat_next16: "(h :: u16) < 256 \<Longrightarrow> unat ((h + 1) AND SERIAL_RING_MASK) = (unat h + 1) mod 256"
proof -
  assume "h < 256"
  then have "unat h < 256" by (simp add: word_less_nat_alt)
  then have "unat (h + 1) = unat h + 1" by (subst unat_add_no_wrap) simp_all
  then show ?thesis by (simp add: unat_mod ring_mask)
qed

lemma ring_bounds: "ring_ok r \<Longrightarrow> unat (r_head r) < 256 \<and> unat (r_tail r) < 256"
  by (simp add: ring_ok_def word_less_nat_alt)

lemma next16_small: "(h :: u16) AND SERIAL_RING_MASK < 256"
  by (simp add: ring_mask word_less_nat_alt unat_mod)

lemma ring_push_ok: "ring_ok r \<Longrightarrow> snd (ring_push r x) \<longleftrightarrow> length (ring_items r) < 255"
proof -
  assume ok: "ring_ok r"
  have "(r_head r + 1) AND SERIAL_RING_MASK = r_tail r \<longleftrightarrow> length (ring_items r) = 255"
    using ring_bounds [OF ok] ring_full [of "unat (r_head r)" "unat (r_tail r)" "r_buf r"]
      unat_next16 [of "r_head r"] ok by (simp add: ring_items_def ring_ok_def word_unat_eq_iff)
  moreover have "length (ring_items r) \<le> 255" by (simp only: ring_items_def length_ring_le)
  ultimately show ?thesis by (auto simp: ring_push_def Let_def)
qed

interpretation tx_fifo: bounded_fifo ring_ok ring_items "\<lambda>r x. fst (ring_push r x)" ring_pop 255
proof (unfold_locales, goal_cases)
  case (1 r)
  show ?case by (simp only: ring_items_def length_ring_le)
next
  case (2 r x)
  then show ?case by (simp add: ring_push_def Let_def ring_ok_def next16_small)
next
  case (3 r x)
  have le: "length (ring_items r) \<le> 255" by (simp only: ring_items_def length_ring_le)
  show ?case
  proof (cases "snd (ring_push r x)")
    case False
    then have "fst (ring_push r x) = r" by (simp add: ring_push_def Let_def split: if_splits)
    with False le ring_push_ok [OF 3] show ?thesis by simp
  next
    case True
    then have "(unat (r_head r) + 1) mod 256 \<noteq> unat (r_tail r)"
      using ring_push_ok [OF 3, of x] ring_bounds [OF 3]
        ring_full [of "unat (r_head r)" "unat (r_tail r)" "r_buf r"] by (simp add: ring_items_def)
    from ring_push_contents [OF _ _ this, of "r_buf r" x] ring_bounds [OF 3]
    have "ring_items (fst (ring_push r x)) = ring_items r @ [x]"
      using True 3 by (auto simp: ring_push_def Let_def ring_items_def ring_ok_def unat_next16 split: if_splits)
    then show ?thesis using True ring_push_ok [OF 3] by simp
  qed
next
  case (4 r)
  then show ?case using ring_bounds [OF 4(1)] ring_empty [of "unat (r_head r)" "unat (r_tail r)" "r_buf r"]
    by (simp add: ring_pop_def ring_is_empty_def ring_items_def word_unat_eq_iff)
next
  case (5 r x xs)
  note b = ring_bounds [OF 5(1)]
  have ne: "unat (r_head r) \<noteq> unat (r_tail r)"
    using ring_empty [of "unat (r_head r)" "unat (r_tail r)" "r_buf r"] b 5(2) by (auto simp: ring_items_def)
  from ring_pop_contents [OF _ _ ne, of "r_buf r"] b 5
  have "r_buf r (unat (r_tail r)) = x"
    "ring_items (r\<lparr>r_tail := (r_tail r + 1) AND SERIAL_RING_MASK\<rparr>) = xs"
    by (simp_all add: ring_items_def ring_ok_def unat_next16)
  moreover have "ring_ok (r\<lparr>r_tail := (r_tail r + 1) AND SERIAL_RING_MASK\<rparr>)"
    using 5(1) by (simp add: ring_ok_def next16_small)
  moreover have "r_head r \<noteq> r_tail r" using ne by auto
  ultimately show ?case by (simp add: ring_pop_def ring_is_empty_def)
qed

section \<open>Output through a polled port\<close>

definition crlf :: "u8 list \<Rightarrow> u8 list" where
  "crlf str = concat (map (\<lambda>c. if c = 10 then [13, 10] else [c]) str)"

text \<open>An open port in polled mode, whose device is ready to send again and again.\<close>

definition polled :: "serial \<Rightarrow> nat \<Rightarrow> bool" where
  "polled s i \<longleftrightarrow> i < SERIAL_PORT_COUNT \<and> length (g_ports s) = SERIAL_PORT_COUNT
    \<and> s_open (g_ports s ! i) \<and> \<not> s_interrupts (g_ports s ! i)
    \<and> (\<forall>t. \<exists>n. io_in (s_io s) (t + n) (s_base (g_ports s ! i) + 5) AND LSR_THRE \<noteq> 0)"

definition port_sent :: "serial \<Rightarrow> nat \<Rightarrow> u8 list" where
  "port_sent s i = sent_to (s_base (g_ports s ! i)) (s_io s)"

definition port_tx_bytes :: "serial \<Rightarrow> nat \<Rightarrow> u32" where
  "port_tx_bytes s i = tx_bytes (s_stats (g_ports s ! i))"

lemma polled_putc:
  assumes "polled s i"
  shows "\<exists>s'. serial_putc_port pause s i c = Some s' \<and> polled s' i
    \<and> port_sent s' i = port_sent s i @ [c] \<and> port_tx_bytes s' i = port_tx_bytes s i + 1"
proof -
  let ?base = "s_base (g_ports s ! i)"
  from assms have i: "i < length (g_ports s)" "\<not> SERIAL_PORT_COUNT \<le> i" by (simp_all add: polled_def)
  obtain io1 where io1: "poll_until (s_io s) (?base + 5) LSR_THRE = Some io1"
    using assms poll_until_returns unfolding polled_def by blast
  from poll_until_Some [OF io1] have "io_out io1 = io_out (s_io s)" "io_in io1 = io_in (s_io s)" by simp_all
  then show ?thesis using assms i
    by (simp add: serial_putc_port_def polled_def hw_putc_def Let_def s_poll_def io1 count_tx_def upd_port_def
        s_outb_def port_sent_def port_tx_bytes_def) (simp add: sent_to_def)
qed

lemma polled_write:
  assumes "polled s i"
  shows "\<exists>s'. write_bytes pause s i str = Some s' \<and> polled s' i
    \<and> port_sent s' i = port_sent s i @ crlf str
    \<and> port_tx_bytes s' i = port_tx_bytes s i + of_nat (length (crlf str))"
  using assms
proof (induction str arbitrary: s)
  case (Cons c str)
  obtain s1 where s1: "emit_char pause s i c = Some s1" "polled s1 i"
    "port_sent s1 i = port_sent s i @ crlf [c]"
    "port_tx_bytes s1 i = port_tx_bytes s i + of_nat (length (crlf [c]))"
  proof (cases "c = 10")
    case True
    obtain s2 where s2: "serial_putc_port pause s i 13 = Some s2" "polled s2 i"
      "port_sent s2 i = port_sent s i @ [13]" "port_tx_bytes s2 i = port_tx_bytes s i + 1"
      using polled_putc [OF Cons.prems] by blast
    from polled_putc [OF s2(2), of pause 10] s2 that True show ?thesis
      by (auto simp: emit_char_def crlf_def)
  next
    case False
    with polled_putc [OF Cons.prems, of pause c] that show ?thesis by (auto simp: emit_char_def crlf_def)
  qed
  from Cons.IH [OF s1(2)] s1 show ?case by (auto simp: crlf_def)
qed (simp add: crlf_def)

section \<open>Output through a port with interrupts\<close>

text \<open>An open port driven by interrupts, with its lock in the given state.\<close>

definition driven :: "u32 \<Rightarrow> serial \<Rightarrow> nat \<Rightarrow> bool" where
  "driven l s i \<longleftrightarrow> i < SERIAL_PORT_COUNT \<and> length (g_ports s) = SERIAL_PORT_COUNT
    \<and> s_open (g_ports s ! i) \<and> s_interrupts (g_ports s ! i) \<and> s_lock (g_ports s ! i) = l
    \<and> ring_ok (s_tx (g_ports s ! i))"

definition port_waiting :: "serial \<Rightarrow> nat \<Rightarrow> u8 list" where
  "port_waiting s i = ring_items (s_tx (g_ports s ! i))"

lemma base_apart [simp]: "(b :: u16) + 1 \<noteq> b" "(b :: u16) + 5 \<noteq> b"
  by simp_all

lemma burst_spec:
  assumes "i < length (g_ports s)" and "ring_ok (s_tx (g_ports s ! i))"
  shows "\<exists>r io1. transmit_burst s i n = upd_port (s\<lparr>s_io := io1\<rparr>) i (\<lambda>p. p\<lparr>s_tx := r\<rparr>) \<and> ring_ok r
    \<and> ring_items r = drop n (port_waiting s i)
    \<and> sent_to (s_base (g_ports s ! i)) io1 = port_sent s i @ take n (port_waiting s i)"
  using assms
proof (induction n arbitrary: s)
  case 0
  then show ?case
    by (intro exI [of _ "s_tx (g_ports s ! i)"] exI [of _ "s_io s"])
      (simp add: upd_port_def port_waiting_def port_sent_def)
next
  case (Suc n)
  let ?p = "g_ports s ! i"
  show ?case
  proof (cases "ring_items (s_tx ?p)")
    case Nil
    with tx_fifo.pop_empty [OF Suc.prems(2)] Suc.prems show ?thesis
      by (intro exI [of _ "s_tx ?p"] exI [of _ "s_io s"])
        (simp add: upd_port_def port_waiting_def port_sent_def)
  next
    case (Cons x xs)
    from tx_fifo.pop_contents [OF Suc.prems(2) this] obtain r where
      r: "ring_pop (s_tx ?p) = Some (r, x)" "ring_ok r" "ring_items r = xs" by blast
    let ?s = "s_outb (upd_port s i (\<lambda>p. p\<lparr>s_tx := r\<rparr>)) (s_base ?p) x"
    have g: "g_ports ?s ! i = ?p\<lparr>s_tx := r\<rparr>" "i < length (g_ports ?s)"
      using Suc.prems by (simp_all add: s_outb_def upd_port_def)
    from Suc.IH [of ?s] obtain r' io' where
      e: "transmit_burst ?s i n = upd_port (?s\<lparr>s_io := io'\<rparr>) i (\<lambda>p. p\<lparr>s_tx := r'\<rparr>)" "ring_ok r'"
        "ring_items r' = drop n xs"
        "sent_to (s_base ?p) io' = port_sent s i @ x # take n xs"
      using g r by (auto simp: port_waiting_def port_sent_def) (simp add: s_outb_def upd_port_def)
    have "upd_port (?s\<lparr>s_io := io'\<rparr>) i (\<lambda>p. p\<lparr>s_tx := r'\<rparr>) = upd_port (s\<lparr>s_io := io'\<rparr>) i (\<lambda>p. p\<lparr>s_tx := r'\<rparr>)"
      using Suc.prems by (simp add: s_outb_def upd_port_def)
    with e r Cons show ?thesis
      by (intro exI [of _ r'] exI [of _ io']) (simp add: port_waiting_def)
  qed
qed

text \<open>The bytes a port has accepted: sent already, or waiting in its ring.\<close>

definition port_accepted :: "serial \<Rightarrow> nat \<Rightarrow> u8 list" where
  "port_accepted s i = port_sent s i @ port_waiting s i"

lemma port_lock_free:
  "driven 0 s i \<Longrightarrow> port_lock s i
    = Some ((upd_port s i (\<lambda>p. p\<lparr>s_lock := 1\<rparr>))\<lparr>irq_flag := False\<rparr>, irq_flag s)"
  by (simp add: port_lock_def irq_save_def spin_lock_def driven_def upd_port_def)

lemma upd_port_at [simp]:
  "i < length (g_ports s) \<Longrightarrow> g_ports (upd_port s i f) ! i = f (g_ports s ! i)"
  "length (g_ports (upd_port s i f)) = length (g_ports s)"
  "s_io (upd_port s i f) = s_io s" "irq_flag (upd_port s i f) = irq_flag s"
  by (simp_all add: upd_port_def)

lemma transmit_spec:
  assumes "driven 0 s i"
  shows "\<exists>s'. transmit s i = Some s' \<and> driven 0 s' i \<and> irq_flag s' = irq_flag s
    \<and> port_sent s' i = port_sent s i @ take 16 (port_waiting s i)
    \<and> port_waiting s' i = drop 16 (port_waiting s i) \<and> port_tx_bytes s' i = port_tx_bytes s i"
proof -
  let ?s1 = "(upd_port s i (\<lambda>p. p\<lparr>s_lock := 1\<rparr>))\<lparr>irq_flag := False\<rparr>"
  have i: "i < length (g_ports s)" using assms by (simp add: driven_def)
  have g: "g_ports ?s1 ! i = (g_ports s ! i)\<lparr>s_lock := 1\<rparr>" "i < length (g_ports ?s1)" "s_io ?s1 = s_io s"
    using i by simp_all
  from burst_spec [of i ?s1 16] g assms obtain r io1 where
    b: "transmit_burst ?s1 i 16 = upd_port (?s1\<lparr>s_io := io1\<rparr>) i (\<lambda>p. p\<lparr>s_tx := r\<rparr>)" "ring_ok r"
      "ring_items r = drop 16 (port_waiting s i)"
      "sent_to (s_base (g_ports s ! i)) io1 = port_sent s i @ take 16 (port_waiting s i)"
    by (auto simp: driven_def port_waiting_def port_sent_def)
  have "transmit s i \<noteq> None" unfolding transmit_def port_lock_free [OF assms] by simp
  then obtain s' where s': "transmit s i = Some s'" by blast
  have "s' = port_unlock (if ring_is_empty r then
          s_outb (fst (s_inb (transmit_burst ?s1 i 16) (s_base (g_ports s ! i) + 1))) (s_base (g_ports s ! i) + 1)
            (snd (s_inb (transmit_burst ?s1 i 16) (s_base (g_ports s ! i) + 1)) AND NOT IER_THRE)
        else transmit_burst ?s1 i 16) i (irq_flag s)"
    using s' g b(1) i unfolding transmit_def port_lock_free [OF assms]
    by (cases "ring_is_empty r") (auto simp: Let_def case_prod_beta)
  with s' b i assms show ?thesis
    by (auto simp: driven_def port_unlock_def irq_restore_def spin_unlock_def s_outb_def s_inb_def inb_def
      port_sent_def port_waiting_def port_tx_bytes_def sent_to_def outb_def split: prod.splits)
qed

text \<open>What a wait for room needs from the interrupts taken meanwhile: they lose and reorder
  nothing, and some byte leaves a full ring.\<close>

locale transmitter =
  fixes pause :: "serial \<Rightarrow> serial option" and i :: nat
  assumes drains: "driven 0 s i \<Longrightarrow> \<exists>s'. pause s = Some s' \<and> driven 0 s' i
    \<and> port_accepted s' i = port_accepted s i \<and> port_tx_bytes s' i = port_tx_bytes s i
    \<and> (length (port_waiting s i) = 255 \<longrightarrow> length (port_waiting s' i) < 255)"
begin

lemma wait_room:
  assumes "driven 1 s i" and "length (port_waiting s i) < 255"
  shows "\<exists>s' fl. putc_wait pause s i c flags = Some (s', fl) \<and> driven 1 s' i
    \<and> port_accepted s' i = port_accepted s i @ [c] \<and> port_tx_bytes s' i = port_tx_bytes s i"
proof -
  let ?r = "s_tx (g_ports s ! i)"
  have r: "ring_ok ?r" "i < length (g_ports s)" using assms(1) by (simp_all add: driven_def)
  have ok: "snd (ring_push ?r c)" using ring_push_ok [OF r(1)] assms(2) by (simp add: port_waiting_def)
  have items: "ring_items (fst (ring_push ?r c)) = ring_items ?r @ [c]"
    using tx_fifo.push_contents [OF r(1), of c] assms(2) by (simp add: port_waiting_def)
  have "putc_wait pause s i c flags = Some (upd_port s i (\<lambda>p. p\<lparr>s_tx := fst (ring_push ?r c)\<rparr>), flags)"
    using ok by (subst putc_wait.simps) (simp add: case_prod_beta)
  then show ?thesis using assms r items tx_fifo.push_wf [OF r(1), of c]
    by (simp add: driven_def port_accepted_def port_sent_def port_waiting_def port_tx_bytes_def)
qed

lemma wait_spec:
  assumes "driven 1 s i"
  shows "\<exists>s' fl. putc_wait pause s i c flags = Some (s', fl) \<and> driven 1 s' i
    \<and> port_accepted s' i = port_accepted s i @ [c] \<and> port_tx_bytes s' i = port_tx_bytes s i"
proof (cases "length (port_waiting s i) < 255")
  case True
  then show ?thesis using wait_room [OF assms] by blast
next
  case False
  have r: "ring_ok (s_tx (g_ports s ! i))" "i < length (g_ports s)" using assms by (simp_all add: driven_def)
  have full: "length (port_waiting s i) = 255" using False tx_fifo.capacity [OF r(1)] by (simp add: port_waiting_def)
  let ?u = "port_unlock s i flags"
  have u: "driven 0 ?u i" "port_accepted ?u i = port_accepted s i" "port_tx_bytes ?u i = port_tx_bytes s i"
    "port_waiting ?u i = port_waiting s i"
    using assms r(2) by (simp_all add: port_unlock_def irq_restore_def spin_unlock_def driven_def
      port_accepted_def port_sent_def port_waiting_def port_tx_bytes_def)
  from drains [OF u(1)] u full obtain s1 where s1: "pause ?u = Some s1" "driven 0 s1 i"
    "port_accepted s1 i = port_accepted s i" "port_tx_bytes s1 i = port_tx_bytes s i" "length (port_waiting s1 i) < 255"
    by auto
  let ?l = "(upd_port s1 i (\<lambda>p. p\<lparr>s_lock := 1\<rparr>))\<lparr>irq_flag := False\<rparr>"
  have l: "driven 1 ?l i" "port_accepted ?l i = port_accepted s1 i" "port_tx_bytes ?l i = port_tx_bytes s1 i"
    "port_waiting ?l i = port_waiting s1 i"
    using s1(2) by (simp_all add: driven_def port_accepted_def port_sent_def port_waiting_def port_tx_bytes_def)
  have "putc_wait pause s i c flags = putc_wait pause ?l i c (irq_flag s1)"
    using ring_push_ok [OF r(1), of c] full
    by (subst putc_wait.simps) (simp add: case_prod_beta port_waiting_def s1(1) port_lock_free [OF s1(2)])
  with wait_room [OF l(1), of c "irq_flag s1"] l s1 show ?thesis by auto
qed

lemma driven_putc:
  assumes "driven 0 s i"
  shows "\<exists>s'. serial_putc_port pause s i c = Some s' \<and> driven 0 s' i
    \<and> port_accepted s' i = port_accepted s i @ [c] \<and> port_tx_bytes s' i = port_tx_bytes s i + 1"
proof -
  let ?l = "(upd_port s i (\<lambda>p. p\<lparr>s_lock := 1\<rparr>))\<lparr>irq_flag := False\<rparr>"
  have l: "driven 1 ?l i" "port_accepted ?l i = port_accepted s i" "port_tx_bytes ?l i = port_tx_bytes s i"
    using assms by (simp_all add: driven_def port_accepted_def port_sent_def port_waiting_def port_tx_bytes_def)
  from wait_spec [OF l(1), of c "irq_flag s"] l obtain s2 fl where
    s2: "putc_wait pause ?l i c (irq_flag s) = Some (s2, fl)" "driven 1 s2 i"
      "port_accepted s2 i = port_accepted s i @ [c]" "port_tx_bytes s2 i = port_tx_bytes s i" by auto
  from assms have o: "\<not> SERIAL_PORT_COUNT \<le> i" "s_open (g_ports s ! i)" "s_interrupts (g_ports s ! i)"
    by (simp_all add: driven_def)
  show ?thesis using s2 o
    by (simp add: serial_putc_port_def port_lock_free [OF assms] Let_def s_inb_def inb_def s_outb_def outb_def
        count_tx_def port_unlock_def irq_restore_def spin_unlock_def driven_def port_accepted_def port_sent_def
        port_waiting_def port_tx_bytes_def sent_to_def)
qed

lemma driven_write:
  assumes "driven 0 s i"
  shows "\<exists>s'. write_bytes pause s i str = Some s' \<and> driven 0 s' i
    \<and> port_accepted s' i = port_accepted s i @ crlf str
    \<and> port_tx_bytes s' i = port_tx_bytes s i + of_nat (length (crlf str))"
  using assms
proof (induction str arbitrary: s)
  case (Cons c str)
  obtain s1 where s1: "emit_char pause s i c = Some s1" "driven 0 s1 i"
    "port_accepted s1 i = port_accepted s i @ crlf [c]"
    "port_tx_bytes s1 i = port_tx_bytes s i + of_nat (length (crlf [c]))"
  proof (cases "c = 10")
    case True
    obtain s2 where s2: "serial_putc_port pause s i 13 = Some s2" "driven 0 s2 i"
      "port_accepted s2 i = port_accepted s i @ [13]" "port_tx_bytes s2 i = port_tx_bytes s i + 1"
      using driven_putc [OF Cons.prems] by blast
    from driven_putc [OF s2(2), of 10] s2 that True show ?thesis by (auto simp: emit_char_def crlf_def)
  next
    case False
    with driven_putc [OF Cons.prems, of c] that show ?thesis by (auto simp: emit_char_def crlf_def)
  qed
  from Cons.IH [OF s1(2)] s1 show ?case by (auto simp: crlf_def)
qed (simp add: crlf_def)

end

text \<open>The transmit branch of the interrupt handler provides it.\<close>

interpretation tx_irq: transmitter "\<lambda>s. transmit s i" i for i
proof
  fix s assume d: "driven 0 s i"
  from transmit_spec [OF d] obtain s' where s': "transmit s i = Some s'" "driven 0 s' i"
    "port_sent s' i = port_sent s i @ take 16 (port_waiting s i)"
    "port_waiting s' i = drop 16 (port_waiting s i)" "port_tx_bytes s' i = port_tx_bytes s i" by blast
  then show "\<exists>s'. transmit s i = Some s' \<and> driven 0 s' i
    \<and> port_accepted s' i = port_accepted s i \<and> port_tx_bytes s' i = port_tx_bytes s i
    \<and> (length (port_waiting s i) = 255 \<longrightarrow> length (port_waiting s' i) < 255)"
    by (simp add: port_accepted_def)
qed

section \<open>Numbers in text\<close>

text \<open>The value of a digit and of a text of digits.\<close>

definition digit_value :: "u8 \<Rightarrow> nat" where
  "digit_value c = (if 97 \<le> c then unat c - 87 else if 65 \<le> c then unat c - 55 else unat c - 48)"

definition text_value :: "nat \<Rightarrow> u8 list \<Rightarrow> nat" where
  "text_value base text = foldl (\<lambda>a c. a * base + digit_value c) 0 text"

definition uint_text :: "u64 \<Rightarrow> u64 \<Rightarrow> bool \<Rightarrow> u8 list" where
  "uint_text val base upper = rev (if val = 0 then [48] else uint_digits val base upper)"

lemma text_value_snoc [simp]: "text_value base (text @ [c]) = text_value base text * base + digit_value c"
  by (simp add: text_value_def)

lemma digit_table:
  "list_all (\<lambda>d. digit_value (digit_char False (of_nat d)) = d \<and> digit_value (digit_char True (of_nat d)) = d) [0..<16]"
  by code_simp

lemma digit_round: "d < 16 \<Longrightarrow> digit_value (digit_char u d) = unat d"
proof -
  assume "d < 16"
  then have "unat d \<in> set [0..<16]" by (simp add: word_less_nat_alt)
  then have "digit_value (digit_char False (of_nat (unat d))) = unat d
      \<and> digit_value (digit_char True (of_nat (unat d))) = unat d"
    using digit_table unfolding list_all_iff by blast
  then show ?thesis by (cases u) simp_all
qed

lemma word_mod_less: "(1 :: u64) < b \<Longrightarrow> v mod b < b"
  by (simp add: word_less_nat_alt unat_mod)

lemma uint_digits_spec:
  shows "1 < base \<Longrightarrow> base \<le> 16 \<Longrightarrow> text_value (unat base) (rev (uint_digits val base u)) = unat val"
    and "1 < base \<Longrightarrow> base \<le> 16 \<Longrightarrow> val \<noteq> 0 \<Longrightarrow> uint_digits val base u \<noteq> [] \<and> digit_value (last (uint_digits val base u)) \<noteq> 0"
    and "1 < base \<Longrightarrow> base \<le> 16 \<Longrightarrow> unat val < unat base ^ n \<Longrightarrow> length (uint_digits val base u) \<le> n"
proof (induction val base u arbitrary: n rule: uint_digits.induct)
  case (1 val base u)
  let ?d = "digit_char u (val mod base)"
  {
    case 1
    then have nb: "\<not> base \<le> 1" by simp
    show ?case
    proof (cases "val = 0")
      case False
      have "val mod base < base" using 1 by (simp add: word_mod_less)
      then have "digit_value ?d = unat (val mod base)" using 1 by (intro digit_round) simp
      then show ?thesis using "1.IH"(1) 1 False nb
        by (subst uint_digits.simps) (simp add: unat_div unat_mod)
    qed (simp add: uint_digits.simps text_value_def)
  next
    case 2
    then have nb: "\<not> base \<le> 1" by simp
    have "val mod base < base" using 2 by (simp add: word_mod_less)
    then have d: "digit_value ?d = unat (val mod base)" using 2 by (intro digit_round) simp
    have e: "uint_digits val base u = ?d # uint_digits (val div base) base u"
      using 2 nb by (subst uint_digits.simps) simp
    show ?case
    proof (cases "val div base = 0")
      case True
      then have "uint_digits (val div base) base u = []" by (subst uint_digits.simps) simp
      moreover have "val mod base = val" using True by (metis add_0 div_mult_mod_eq mult_zero_left)
      ultimately show ?thesis using e d 2 by (simp add: unat_eq_zero)
    next
      case False
      then show ?thesis using "1.IH"(2) 2 e nb by simp
    qed
  next
    case 3
    then have nb: "\<not> base \<le> 1" by simp
    show ?case
    proof (cases "val = 0")
      case False
      have b: "1 < unat base" using 3 by (simp add: word_less_nat_alt)
      have "n \<noteq> 0" using 3 False by (cases n) (simp_all add: unat_eq_zero)
      then obtain m where m: "n = Suc m" by (cases n) auto
      have "unat (val div base) < unat base ^ m"
        using 3(3) b unfolding m unat_div by (simp add: less_mult_imp_div_less mult.commute)
      then show ?thesis using "1.IH"(3) 3 False m nb by (subst uint_digits.simps) simp
    qed (simp add: uint_digits.simps)
  }
qed

lemma polled_emit:
  assumes "polled s i"
  shows "\<exists>s'. emit_char pause s i c = Some s' \<and> polled s' i \<and> port_sent s' i = port_sent s i @ crlf [c]"
  using polled_write [OF assms, of pause "[c]"] by (auto simp: bind_eq_Some_conv)

text \<open>A format string without conversions.\<close>

lemma vprintf_text:
  assumes "polled s i" and "cstr m p xs" and "37 \<notin> set xs"
  shows "\<exists>s'. vprintf_loop pause m ap s i p k n = Some (s', n + length xs) \<and> polled s' i
    \<and> port_sent s' i = port_sent s i @ crlf xs"
  using assms
proof (induction xs arbitrary: s p n)
  case Nil
  then show ?case by (subst vprintf_loop.simps) (simp add: crlf_def)
next
  case (Cons x xs)
  from Cons.prems have x: "m p = x" "x \<noteq> 0" "x \<noteq> 37" "cstr m (Suc p) xs" by (auto simp: cstr_Cons)
  obtain s1 where s1: "emit_char pause s i x = Some s1" "polled s1 i" "port_sent s1 i = port_sent s i @ crlf [x]"
    using polled_emit [OF Cons.prems(1)] by blast
  from Cons.prems(3) have "37 \<notin> set xs" by simp
  from Cons.IH [OF s1(2) x(4) this, of "n + 1"] obtain s2 where
    s2: "vprintf_loop pause m ap s1 i (Suc p) k (n + 1) = Some (s2, n + 1 + length xs)" "polled s2 i"
      "port_sent s2 i = port_sent s1 i @ crlf xs" by blast
  have "vprintf_loop pause m ap s i p k n = vprintf_loop pause m ap s1 i (Suc p) k (n + 1)"
    using x s1(1) by (subst vprintf_loop.simps) simp
  with s1 s2 show ?case by (simp add: crlf_def)
qed

section \<open>Properties\<close>

text \<open>C38. Writing to a port with interrupts loses nothing: while the ring is full, the transmit
  branch of the interrupt handler runs in the pauses, so the write returns, with the lock free
  again, and the bytes that were sent followed by those that wait in the ring are what they were
  before followed by the string with a carriage return before each newline, in that order;
  \<open>tx_bytes\<close> counts them.\<close>

theorem serial_write_interrupts:
  assumes "driven 0 s i"
  shows "\<exists>s'. serial_write_port (\<lambda>s. transmit s i) s i str = Some s' \<and> driven 0 s' i
    \<and> port_sent s' i @ port_waiting s' i = port_sent s i @ port_waiting s i @ crlf (cstring str)
    \<and> port_tx_bytes s' i = port_tx_bytes s i + of_nat (length (crlf (cstring str)))"
  using tx_irq.driven_write [OF assms, of "cstring str"]
  by (simp add: serial_write_port_def port_accepted_def)

definition idle_ring :: serial_ring where
  "idle_ring = \<lparr>r_buf = \<lambda>_. 0, r_head = 0, r_tail = 0\<rparr>"

definition com1 :: "bool \<Rightarrow> serial" where
  "com1 interrupts = \<lparr>g_ports = replicate 4 \<lparr>s_base = 0x3F8, s_irq = 4, s_present = True, s_open = True,
      s_interrupts = interrupts, s_flow_control = False, s_lock = 0, s_tx = idle_ring, s_rx = idle_ring,
      s_stats = zero_stats\<rparr>,
    s_io = \<lparr>io_in = \<lambda>_ _. 0x60, io_clock = 0, io_out = []\<rparr>, irq_flag = True\<rparr>"

lemma com1_ready: "driven 0 (com1 True) 0" "polled (com1 False) 0"
  by (simp_all add: driven_def polled_def com1_def SERIAL_PORT_COUNT_def ring_ok_def idle_ring_def LSR_THRE_def)

lemma com1_sent [simp]: "port_sent (com1 b) 0 = []" "port_waiting (com1 b) 0 = []"
  by (simp_all add: port_sent_def port_waiting_def com1_def sent_to_def ring_items_def idle_ring_def ring_contents_def)

theorem serial_write_interrupts_witness:
  "\<exists>s'. serial_write_port (\<lambda>s. transmit s 0) (com1 True) 0 (replicate 300 65) = Some s'
    \<and> port_sent s' 0 @ port_waiting s' 0 = replicate 300 65"
proof -
  have "crlf (cstring (replicate 300 65)) = replicate 300 65"
    by (simp add: cstring_id crlf_def map_replicate_const concat_replicate_trivial)
  then show ?thesis using serial_write_interrupts [OF com1_ready(1), of "replicate 300 65"]
    by (simp only: com1_sent append_Nil) blast
qed

text \<open>A write to a polled port returns when the device becomes ready again and again, and the
  data port has then received the string, with a carriage return before each newline, and nothing
  else; \<open>tx_bytes\<close> counts the bytes.\<close>

theorem serial_write_polled:
  assumes "polled s i"
  shows "\<exists>s'. serial_write_port pause s i str = Some s'
    \<and> port_sent s' i = port_sent s i @ crlf (cstring str)
    \<and> port_tx_bytes s' i = port_tx_bytes s i + of_nat (length (crlf (cstring str)))"
  using polled_write [OF assms, of pause "cstring str"] by (auto simp: serial_write_port_def)

theorem serial_write_polled_witness:
  "\<exists>s'. serial_write_port Some (com1 False) 0 [79, 75, 10, 0, 7] = Some s' \<and> port_sent s' 0 = [79, 75, 13, 10]"
  using serial_write_polled [OF com1_ready(2), of Some "[79, 75, 10, 0, 7]"] by (simp add: cstring_def crlf_def) blast

text \<open>In base 10 and 16 \<open>emit_uint\<close> prints a number that reads back as the number given, with
  no leading zero, in at most 20 digits, which its buffer of 32 bytes holds.\<close>

theorem emit_uint_roundtrip:
  assumes "base = 10 \<or> base = 16"
  shows "emit_uint pause s i val base upper = write_bytes pause s i (uint_text val base upper)
    \<and> text_value (unat base) (uint_text val base upper) = unat val
    \<and> uint_text val base upper \<noteq> [] \<and> length (uint_text val base upper) \<le> 20
    \<and> (val \<noteq> 0 \<longrightarrow> hd (uint_text val base upper) \<noteq> 48)"
proof -
  have b: "1 < base" "base \<le> 16" using assms by auto
  have "unat val < 2 ^ 64" using unat_bound [of val] by simp
  moreover have "(2 :: nat) ^ 64 \<le> unat base ^ 20" using assms by auto
  ultimately have "unat val < unat base ^ 20" by linarith
  from uint_digits_spec(3) [OF b this, of upper]
  have len: "length (uint_text val base upper) \<le> 20" by (simp add: uint_text_def)
  have "val \<noteq> 0 \<Longrightarrow> uint_digits val base upper \<noteq> [] \<and> last (uint_digits val base upper) \<noteq> 48"
    using uint_digits_spec(2) [OF b, of val upper] by (auto simp: digit_value_def)
  moreover have "text_value (unat base) (uint_text val base upper) = unat val"
    using uint_digits_spec(1) [OF b, of val upper] by (auto simp: uint_text_def text_value_def digit_value_def)
  ultimately show ?thesis using len by (auto simp: uint_text_def emit_uint_def hd_rev)
qed

theorem emit_uint_roundtrip_witness: "text_value 16 (uint_text 0xC0FFEE 16 True) = 0xC0FFEE"
  using emit_uint_roundtrip [of 16 Some undefined 0 "0xC0FFEE" True] by simp

text \<open>A format string that ends in a percent sign makes \<open>serial_vprintf_port\<close> step over the
  string's terminator: on a polled port it prints the percent sign and then the bytes that lie
  behind the string in memory, up to the next NUL.\<close>

theorem vprintf_past_end:
  assumes port: "polled s i" and fmt: "m p = 37" "m (p + 1) = 0" and behind: "cstr m (p + 2) xs" "37 \<notin> set xs"
  shows "\<exists>s'. serial_vprintf_port pause m s i (Some p) ap = Some (s', 1 + length xs)
    \<and> port_sent s' i = port_sent s i @ 37 # crlf xs"
proof -
  obtain s1 where s1: "emit_char pause s i 37 = Some s1" "polled s1 i" "port_sent s1 i = port_sent s i @ [37]"
    using polled_emit [OF port, of pause 37] by (auto simp: crlf_def)
  have "skip_ls m (p + 1) 0 = Some (p + 1, 0)" using fmt(2) by (subst skip_ls.simps) simp
  moreover have "convert pause m s i 0 0 v = Some (s1, 0)" for v using s1(1) by (simp add: convert_def)
  ultimately have "vprintf_loop pause m ap s i p 0 0 = vprintf_loop pause m ap s1 i (p + 2) 0 1"
    using fmt by (subst vprintf_loop.simps) simp
  moreover have "\<not> SERIAL_PORT_COUNT \<le> i" using port by (simp add: polled_def)
  ultimately show ?thesis using vprintf_text [OF s1(2) behind, of pause ap 0 1] s1(3)
    by (auto simp: serial_vprintf_port_def)
qed

theorem vprintf_past_end_witness:
  "\<exists>s'. serial_vprintf_port Some (blit (\<lambda>_. 0) 0 ([37, 0] @ cs ''key'')) (com1 False) 0 (Some 0) (\<lambda>_. 0) = Some (s', 4)
    \<and> port_sent s' 0 = cs ''%key''"
proof -
  let ?m = "blit (\<lambda>_. 0) 0 ([37, 0] @ cs ''key'')"
  have m: "?m 0 = 37" "?m (0 + 1) = 0" "cstr ?m (0 + 2) (cs ''key'')"
    by (simp_all add: blit_def cstr_Cons)
  have n: "37 \<notin> set (cs ''key'')" by simp
  from vprintf_past_end [OF com1_ready(2) m n, of Some "\<lambda>_. 0"]
  have "\<exists>s'. serial_vprintf_port Some ?m (com1 False) 0 (Some 0) (\<lambda>_. 0) = Some (s', 1 + length (cs ''key''))
    \<and> port_sent s' 0 = cs ''%key''" by (simp add: crlf_def)
  moreover have "1 + length (cs ''key'') = 4" by simp
  ultimately show ?thesis by metis
qed

end
