(* ===== verification/Innofs.thy ===== *)
theory Innofs
  imports Klib
begin

text \<open>
  kernel/src/fs/innofs.c over kernel/src/drivers/ata.c: the definitions. A sector is a buffer
  of 512 bytes and the disk a function from sector numbers to sectors, so \<open>ata_read_sectors\<close>
  and \<open>ata_write_sectors\<close> of one sector are application and update (the driver's errors are
  not examined by the file system, and are left out). The packed structures are accessed by
  the offsets the compiler gives them; \<open>kmalloc\<close> of a sector buffer is taken to succeed.
  Strings are NUL-free byte lists: \<open>k_strcmp(..) == 0\<close> on them is equality and \<open>k_strncpy\<close> is
  a padded copy, as \<open>Klib\<close> shows. A name field is read up to its NUL, which every write puts
  at byte 115 at the latest. Walks along the chain of a directory or file end only when the
  chain does: they are partial functions, with \<open>None\<close> for a walk that does not end.
\<close>

section \<open>On-disk structures\<close>

definition SECTOR_SIZE :: nat where
  "SECTOR_SIZE = 512"

definition INNOFS_MAGIC :: "u8 list" where
  "INNOFS_MAGIC = cs ''InnoFS Alpha''"

record superblock =
  sb_magic :: "u8 list"
  disk_size_sectors :: u32
  bitmap_start_sector :: u32
  bitmap_sectors :: u32
  root_dir_start_sector :: u32
  root_dir_sectors :: u32
  data_start_sector :: u32

definition sb_of_sector :: "buf \<Rightarrow> superblock" where
  "sb_of_sector b = \<lparr>sb_magic = bytes_at b 0 16, disk_size_sectors = get_u32 b 16,
    bitmap_start_sector = get_u32 b 20, bitmap_sectors = get_u32 b 24,
    root_dir_start_sector = get_u32 b 28, root_dir_sectors = get_u32 b 32,
    data_start_sector = get_u32 b 36\<rparr>"

definition sector_of_sb :: "superblock \<Rightarrow> buf" where
  "sector_of_sb sb = blit (\<lambda>_. 0) 0 (sb_magic sb @ bytes_u32 (disk_size_sectors sb)
    @ bytes_u32 (bitmap_start_sector sb) @ bytes_u32 (bitmap_sectors sb)
    @ bytes_u32 (root_dir_start_sector sb) @ bytes_u32 (root_dir_sectors sb)
    @ bytes_u32 (data_start_sector sb))"

text \<open>A directory entry takes 127 bytes: the name at 0, the size at 116, the first sector at 120,
  the owner at 124 and the flags at 126.\<close>

record dirent =
  d_name :: "u8 list"
  d_size :: u32
  d_first_sector :: u32
  d_owner_uid :: u16
  d_flags :: u8

definition DIRENT_SIZE :: nat where
  "DIRENT_SIZE = 127"

definition dirent_at :: "buf \<Rightarrow> nat \<Rightarrow> dirent" where
  "dirent_at b off = \<lparr>d_name = cstring (bytes_at b off 116), d_size = get_u32 b (off + 116),
    d_first_sector = get_u32 b (off + 120), d_owner_uid = get_u16 b (off + 124),
    d_flags = b (off + 126)\<rparr>"

text \<open>The entry of a fresh file or directory, as both branches of \<open>add_dirent\<close> fill it in.\<close>

definition fill_dirent :: "buf \<Rightarrow> nat \<Rightarrow> u8 list \<Rightarrow> u16 \<Rightarrow> u8 \<Rightarrow> buf" where
  "fill_dirent b off name owner_uid flags =
    (let b1 = blit b off (pad_to 115 name);
         b2 = b1(off + 115 := 0);
         b3 = put_u32 b2 (off + 116) 0;
         b4 = put_u32 b3 (off + 120) 0;
         b5 = put_u16 b4 (off + 124) owner_uid
     in b5(off + 126 := flags))"

text \<open>A data sector starts with the number of the next one; its payload follows.\<close>

definition next_sector :: "buf \<Rightarrow> u32" where
  "next_sector b = get_u32 b 0"

definition DATA_OFFSET :: nat where
  "DATA_OFFSET = 4"

section \<open>State\<close>

record open_file =
  of_used :: bool
  dirent_sector :: u32
  dirent_index :: nat
  of_offset :: u32
  of_size :: u32
  of_first_sector :: u32
  of_mode :: int

record innofs =
  disk :: "u32 \<Rightarrow> buf"
  g_sb :: superblock
  g_open_files :: "open_file list"
  g_innofs_mounted :: bool

definition MAX_OPEN_FILES :: int where
  "MAX_OPEN_FILES = 16"

definition VFS_MODE_READ :: int where
  "VFS_MODE_READ = 1"

definition VFS_MODE_WRITE :: int where
  "VFS_MODE_WRITE = 2"

definition VFS_MODE_CREATE :: int where
  "VFS_MODE_CREATE = 4"

definition write_sector :: "innofs \<Rightarrow> u32 \<Rightarrow> buf \<Rightarrow> innofs" where
  "write_sector fs lba b = fs\<lparr>disk := (disk fs)(lba := b)\<rparr>"

definition valid_fd :: "innofs \<Rightarrow> int \<Rightarrow> bool" where
  "valid_fd fs fd \<longleftrightarrow> 0 \<le> fd \<and> fd < MAX_OPEN_FILES \<and> of_used (g_open_files fs ! nat fd)"

definition set_file :: "innofs \<Rightarrow> int \<Rightarrow> open_file \<Rightarrow> innofs" where
  "set_file fs fd f = fs\<lparr>g_open_files := (g_open_files fs)[nat fd := f]\<rparr>"

function alloc_fd_loop :: "open_file list \<Rightarrow> nat \<Rightarrow> open_file list \<times> int" where
  "alloc_fd_loop fl i =
    (if i < 16
     then if \<not> of_used (fl ! i) then (fl[i := (fl ! i)\<lparr>of_used := True\<rparr>], int i)
          else alloc_fd_loop fl (i + 1)
     else (fl, - 1))"
  by auto
termination by (relation "measure (\<lambda>(fl, i). 16 - i)") auto

declare alloc_fd_loop.simps [simp del]

definition alloc_fd :: "innofs \<Rightarrow> innofs \<times> int" where
  "alloc_fd fs = (case alloc_fd_loop (g_open_files fs) 0 of (fl, fd) \<Rightarrow> (fs\<lparr>g_open_files := fl\<rparr>, fd))"

section \<open>The sector bitmap\<close>

definition bit_in_byte :: "u8 \<Rightarrow> nat \<Rightarrow> bool" where
  "bit_in_byte v b \<longleftrightarrow> v AND push_bit b 1 \<noteq> 0"

text \<open>The loops over the bytes and bits of one bitmap sector.\<close>

fun byte_scan :: "buf \<Rightarrow> nat list \<Rightarrow> (nat \<times> nat) option" where
  "byte_scan b [] = None"
| "byte_scan b (byte # bytes) =
    (if b byte \<noteq> 0xFF
     then (case List.find (\<lambda>k. \<not> bit_in_byte (b byte) k) [0..<8] of
        Some k \<Rightarrow> Some (byte, k)
      | None \<Rightarrow> byte_scan b bytes)
     else byte_scan b bytes)"

function bitmap_alloc_loop :: "innofs \<Rightarrow> u32 \<Rightarrow> innofs \<times> u32" where
  "bitmap_alloc_loop fs i =
    (if i < bitmap_sectors (g_sb fs)
     then
       (let bm = disk fs (bitmap_start_sector (g_sb fs) + i)
        in case byte_scan bm [0..<SECTOR_SIZE] of
             None \<Rightarrow> bitmap_alloc_loop fs (i + 1)
           | Some (byte, k) \<Rightarrow>
               (write_sector fs (bitmap_start_sector (g_sb fs) + i) (bm(byte := bm byte OR push_bit k 1)),
                i * of_nat SECTOR_SIZE * 8 + of_nat byte * 8 + of_nat k))
     else (fs, 0))"
  by auto
termination
  by (relation "measure (\<lambda>(fs, i). unat (bitmap_sectors (g_sb fs)) - unat i)") (auto intro: loop_term)

declare bitmap_alloc_loop.simps [simp del]

definition bitmap_alloc_sector :: "innofs \<Rightarrow> innofs \<times> u32" where
  "bitmap_alloc_sector fs = bitmap_alloc_loop fs 0"

definition bitmap_free_sector :: "innofs \<Rightarrow> u32 \<Rightarrow> innofs" where
  "bitmap_free_sector fs sector =
    (if sector < data_start_sector (g_sb fs) then fs
     else
       (let bitmap_sector = sector div (of_nat SECTOR_SIZE * 8);
            byte_idx = unat ((sector mod (of_nat SECTOR_SIZE * 8)) div 8);
            bit_rem = unat (sector mod 8);
            lba = bitmap_start_sector (g_sb fs) + bitmap_sector;
            bm = disk fs lba
        in write_sector fs lba (bm(byte_idx := bm byte_idx AND NOT (push_bit bit_rem 1)))))"

definition check_access :: "dirent \<Rightarrow> u16 \<Rightarrow> bool" where
  "check_access d uid =
    (if uid = 0 then True
     else if d_flags d AND 2 \<noteq> 0 then False
     else if d_flags d AND 4 \<noteq> 0 then d_owner_uid d = uid
     else True)"

section \<open>Paths and directories\<close>

definition slash :: u8 where
  "slash = of_char CHR ''/''"

text \<open>Index of the last slash, by the forward scan of the code.\<close>

fun last_slash :: "u8 list \<Rightarrow> nat \<Rightarrow> nat option \<Rightarrow> nat option" where
  "last_slash [] i acc = acc"
| "last_slash (c # p) i acc = last_slash p (i + 1) (if c = slash then Some i else acc)"

definition split_path :: "u8 list \<Rightarrow> (u8 list \<times> u8 list) option" where
  "split_path path =
    (case last_slash path 0 None of
      None \<Rightarrow> None
    | Some n \<Rightarrow> Some (if n = 0 then [slash] else take n path, drop (n + 1) path))"

text \<open>The next path component, at most 115 bytes of it, and the rest after one slash.\<close>

fun next_token :: "u8 list \<Rightarrow> nat \<Rightarrow> u8 list \<times> u8 list" where
  "next_token [] i = ([], [])"
| "next_token (c # p) i =
    (if c = slash then ([], p)
     else if i < 115 then (case next_token p (i + 1) of (tok, rest) \<Rightarrow> (c # tok, rest))
     else ([], c # p))"

definition entry_is :: "u8 list \<Rightarrow> buf \<Rightarrow> nat \<Rightarrow> bool" where
  "entry_is token b off \<longleftrightarrow> b off \<noteq> 0 \<and> d_name (dirent_at b off) = token"

definition entry_free :: "buf \<Rightarrow> nat \<Rightarrow> bool" where
  "entry_free b off \<longleftrightarrow> b off = 0"

text \<open>The four entries of a sector, starting at \<open>base\<close>: the first one with property \<open>P\<close>.\<close>

definition scan_sector :: "(buf \<Rightarrow> nat \<Rightarrow> bool) \<Rightarrow> buf \<Rightarrow> nat \<Rightarrow> nat option" where
  "scan_sector P b base = List.find (\<lambda>j. P b (base + DIRENT_SIZE * j)) [0..<4]"

text \<open>The loop over the sectors of the root directory, which has no chain.\<close>

function scan_root :: "innofs \<Rightarrow> (buf \<Rightarrow> nat \<Rightarrow> bool) \<Rightarrow> u32 \<Rightarrow> u32 \<Rightarrow> (u32 \<times> nat) option" where
  "scan_root fs P dir s =
    (if s < root_dir_sectors (g_sb fs)
     then (case scan_sector P (disk fs (dir + s)) 0 of
        Some j \<Rightarrow> Some (dir + s, j)
      | None \<Rightarrow> scan_root fs P dir (s + 1))
     else None)"
  by auto
termination
  by (relation "measure (\<lambda>(fs, P, dir, s). unat (root_dir_sectors (g_sb fs)) - unat s)")
    (auto intro: loop_term)

declare scan_root.simps [simp del]

text \<open>The loop along the chain of a subdirectory: the entry found, or the last sector visited.\<close>

partial_function (option) scan_chain ::
  "innofs \<Rightarrow> (buf \<Rightarrow> nat \<Rightarrow> bool) \<Rightarrow> u32 \<Rightarrow> u32 \<Rightarrow> ((u32 \<times> nat) + u32) option" where
  "scan_chain fs P sec_idx last_sec =
    (if sec_idx \<noteq> 0
     then (case scan_sector P (disk fs sec_idx) DATA_OFFSET of
        Some j \<Rightarrow> Some (Inl (sec_idx, j))
      | None \<Rightarrow> scan_chain fs P (next_sector (disk fs sec_idx)) sec_idx)
     else Some (Inr last_sec))"

text \<open>Offset of entry \<open>j\<close> in the sector of a directory.\<close>

definition entry_offset :: "bool \<Rightarrow> nat \<Rightarrow> nat" where
  "entry_offset in_root j = (if in_root then 0 else DATA_OFFSET) + DIRENT_SIZE * j"

text \<open>Looking one name up in a directory: the place of the entry, if there is one.\<close>

definition find_in_dir :: "innofs \<Rightarrow> u32 \<Rightarrow> bool \<Rightarrow> u8 list \<Rightarrow> (u32 \<times> nat) option option" where
  "find_in_dir fs dir in_root token =
    (if in_root then Some (scan_root fs (entry_is token) dir 0)
     else (case scan_chain fs (entry_is token) dir 0 of
        None \<Rightarrow> None
      | Some (Inl e) \<Rightarrow> Some (Some e)
      | Some (Inr _) \<Rightarrow> Some None))"

text \<open>What \<open>find_dirent\<close> stores through its output pointers. For the path \<open>/\<close> it leaves the
  sector and index as they were: \<open>lk_place\<close> is then \<open>None\<close>.\<close>

record lookup =
  lk_place :: "(u32 \<times> nat) option"
  lk_dirent :: dirent
  lk_in_root :: bool

partial_function (option) find_loop ::
  "innofs \<Rightarrow> u32 \<Rightarrow> bool \<Rightarrow> u8 list \<Rightarrow> lookup \<Rightarrow> lookup option option" where
  "find_loop fs dir in_root p out =
    (if p = [] then Some (Some out)
     else
       (case find_in_dir fs dir in_root (fst (next_token p 0)) of
         None \<Rightarrow> None
       | Some None \<Rightarrow> Some None
       | Some (Some e) \<Rightarrow>
           find_loop fs
             (d_first_sector (dirent_at (disk fs (fst e)) (entry_offset in_root (snd e)))) False
             (snd (next_token p 0))
             \<lparr>lk_place = Some e, lk_dirent = dirent_at (disk fs (fst e)) (entry_offset in_root (snd e)),
               lk_in_root = False\<rparr>))"

definition root_dirent :: "innofs \<Rightarrow> dirent" where
  "root_dirent fs = \<lparr>d_name = [], d_size = 0, d_first_sector = root_dir_start_sector (g_sb fs),
    d_owner_uid = 0, d_flags = 1\<rparr>"

definition find_dirent :: "innofs \<Rightarrow> u8 list \<Rightarrow> lookup option option" where
  "find_dirent fs path =
    (case path of
      [] \<Rightarrow> Some None
    | c # p \<Rightarrow>
        if c \<noteq> slash then Some None
        else if p = [] then
          Some (Some \<lparr>lk_place = None, lk_dirent = root_dirent fs, lk_in_root = True\<rparr>)
        else find_loop fs (root_dir_start_sector (g_sb fs)) True p
          \<lparr>lk_place = None, lk_dirent = root_dirent fs, lk_in_root = True\<rparr>)"


section \<open>Creating entries\<close>

text \<open>The first loop of \<open>add_dirent\<close> looks for an entry of the same name, the second for a free
  one; a subdirectory without a free entry gets a further sector. The result is the new state
  and the place of the entry, or no place for the result \<open>-1\<close>.\<close>

definition add_dirent_root ::
  "innofs \<Rightarrow> u32 \<Rightarrow> u8 list \<Rightarrow> u16 \<Rightarrow> u8 \<Rightarrow> innofs \<times> (u32 \<times> nat) option" where
  "add_dirent_root fs dir_sector name owner_uid flags =
    (case scan_root fs (entry_is name) dir_sector 0 of
      Some _ \<Rightarrow> (fs, None)
    | None \<Rightarrow>
        (case scan_root fs entry_free dir_sector 0 of
          Some (s, j) \<Rightarrow>
            (write_sector fs s (fill_dirent (disk fs s) (DIRENT_SIZE * j) name owner_uid flags), Some (s, j))
        | None \<Rightarrow> (fs, None)))"

definition extend_dir ::
  "innofs \<Rightarrow> u32 \<Rightarrow> u8 list \<Rightarrow> u16 \<Rightarrow> u8 \<Rightarrow> innofs \<times> (u32 \<times> nat) option" where
  "extend_dir fs last_sec name owner_uid flags =
    (case bitmap_alloc_sector fs of (fs1, new_sec) \<Rightarrow>
      if new_sec = 0 then (fs1, None)
      else
        (let fs2 = write_sector fs1 last_sec (put_u32 (disk fs1 last_sec) 0 new_sec)
         in (write_sector fs2 new_sec (fill_dirent (\<lambda>_. 0) DATA_OFFSET name owner_uid flags),
             Some (new_sec, 0))))"

definition add_dirent_chain ::
  "innofs \<Rightarrow> u32 \<Rightarrow> u8 list \<Rightarrow> u16 \<Rightarrow> u8 \<Rightarrow> (innofs \<times> (u32 \<times> nat) option) option" where
  "add_dirent_chain fs dir_sector name owner_uid flags =
    (case scan_chain fs (entry_is name) dir_sector 0 of
      None \<Rightarrow> None
    | Some (Inl _) \<Rightarrow> Some (fs, None)
    | Some (Inr _) \<Rightarrow>
        (case scan_chain fs entry_free dir_sector 0 of
          None \<Rightarrow> None
        | Some (Inl (s, j)) \<Rightarrow>
            Some (write_sector fs s
              (fill_dirent (disk fs s) (DATA_OFFSET + DIRENT_SIZE * j) name owner_uid flags), Some (s, j))
        | Some (Inr last_sec) \<Rightarrow> Some (extend_dir fs last_sec name owner_uid flags)))"

definition add_dirent ::
  "innofs \<Rightarrow> u32 \<Rightarrow> bool \<Rightarrow> u8 list \<Rightarrow> u16 \<Rightarrow> u8 \<Rightarrow> (innofs \<times> (u32 \<times> nat) option) option" where
  "add_dirent fs dir_sector in_root name owner_uid flags =
    (if in_root then Some (add_dirent_root fs dir_sector name owner_uid flags)
     else add_dirent_chain fs dir_sector name owner_uid flags)"

text \<open>\<open>innofs_open\<close> and \<open>innofs_mkdir\<close> store the first sector of a directory that was empty into
  its entry. They, \<open>innofs_close\<close> and \<open>innofs_rm\<close> take the sector of the entry for an array of
  entries from offset 0 on, in a subdirectory too.\<close>

definition set_first_sector :: "innofs \<Rightarrow> u32 \<times> nat \<Rightarrow> u32 \<Rightarrow> innofs" where
  "set_first_sector fs e sec =
    write_sector fs (fst e) (put_u32 (disk fs (fst e)) (DIRENT_SIZE * snd e + 120) sec)"

text \<open>\<open>p_place\<close> stands for the place of the parent's entry; for the root directory, whose first
  sector is never 0, it is not used.\<close>

definition link_parent :: "innofs \<Rightarrow> lookup \<Rightarrow> u32 \<Rightarrow> innofs" where
  "link_parent fs parent sec =
    (if d_first_sector (lk_dirent parent) = 0
     then (case lk_place parent of Some e \<Rightarrow> set_first_sector fs e sec | None \<Rightarrow> fs)
     else fs)"

definition innofs_mkdir :: "innofs \<Rightarrow> u8 list \<Rightarrow> u16 \<Rightarrow> u8 \<Rightarrow> (innofs \<times> int) option" where
  "innofs_mkdir fs name owner_uid flags =
    (if \<not> g_innofs_mounted fs then Some (fs, - 1)
     else
       (case split_path name of
         None \<Rightarrow> Some (fs, - 1)
       | Some (parent_dir, dirname) \<Rightarrow>
           (case find_dirent fs parent_dir of
             None \<Rightarrow> None
           | Some None \<Rightarrow> Some (fs, - 1)
           | Some (Some parent) \<Rightarrow>
               if d_flags (lk_dirent parent) AND 1 = 0 then Some (fs, - 1)
               else if \<not> check_access (lk_dirent parent) owner_uid then Some (fs, - 1)
               else
                 (case add_dirent fs (d_first_sector (lk_dirent parent)) (lk_in_root parent) dirname
                     owner_uid (flags OR 1) of
                   None \<Rightarrow> None
                 | Some (fs1, None) \<Rightarrow> Some (fs1, - 1)
                 | Some (fs1, Some (out_sec, _)) \<Rightarrow> Some (link_parent fs1 parent out_sec, 0)))))"

section \<open>Formatting and mounting\<close>

definition formatted_sb :: superblock where
  "formatted_sb = \<lparr>sb_magic = pad_to 16 INNOFS_MAGIC, disk_size_sectors = 65536,
    bitmap_start_sector = 1, bitmap_sectors = 2, root_dir_start_sector = 3, root_dir_sectors = 16,
    data_start_sector = 19\<rparr>"

fun write_run :: "innofs \<Rightarrow> u32 \<Rightarrow> buf \<Rightarrow> nat list \<Rightarrow> innofs" where
  "write_run fs start b [] = fs"
| "write_run fs start b (i # is) = write_run (write_sector fs (start + of_nat i) b) start b is"

fun reserve_bits :: "buf \<Rightarrow> nat list \<Rightarrow> buf" where
  "reserve_bits b [] = b"
| "reserve_bits b (i # is) = reserve_bits (b(i div 8 := b (i div 8) OR push_bit (i mod 8) 1)) is"

text \<open>The sectors \<open>innofs_mkfs\<close> writes before it creates the default directories.\<close>

definition mkfs_layout :: "innofs \<Rightarrow> innofs" where
  "mkfs_layout fs =
    (let fs1 = fs\<lparr>g_sb := formatted_sb\<rparr>;
         fs2 = write_sector fs1 0 (sector_of_sb formatted_sb);
         fs3 = write_run fs2 (bitmap_start_sector formatted_sb) (\<lambda>_. 0)
           [0..<unat (bitmap_sectors formatted_sb)];
         fs4 = write_sector fs3 (bitmap_start_sector formatted_sb)
           (reserve_bits (\<lambda>_. 0) [0..<unat (data_start_sector formatted_sb)]);
         fs5 = write_run fs4 (root_dir_start_sector formatted_sb) (\<lambda>_. 0)
           [0..<unat (root_dir_sectors formatted_sb)]
     in fs5\<lparr>g_innofs_mounted := True\<rparr>)"

definition innofs_mkfs :: "innofs \<Rightarrow> (innofs \<times> int) option" where
  "innofs_mkfs fs =
    (case innofs_mkdir (mkfs_layout fs) (cs ''/root'') 0 2 of
      None \<Rightarrow> None
    | Some (fs1, _) \<Rightarrow>
        (case innofs_mkdir fs1 (cs ''/root/global'') 0 2 of
          None \<Rightarrow> None
        | Some (fs2, _) \<Rightarrow>
            (case innofs_mkdir fs2 (cs ''/home'') 0 0 of
              None \<Rightarrow> None
            | Some (fs3, _) \<Rightarrow> Some (fs3, 0))))"

definition innofs_init :: "innofs \<Rightarrow> (innofs \<times> int) option" where
  "innofs_init fs =
    (let fs1 = fs\<lparr>g_sb := sb_of_sector (disk fs 0)\<rparr>
     in if take 12 (sb_magic (g_sb fs1)) = INNOFS_MAGIC
        then Some (fs1\<lparr>g_innofs_mounted := True\<rparr>, 0)
        else map_option (\<lambda>(fs2, _). (fs2, 1)) (innofs_mkfs fs1))"

section \<open>Opening, reading, writing, closing\<close>

definition opened :: "u32 \<times> nat \<Rightarrow> u32 \<Rightarrow> u32 \<Rightarrow> int \<Rightarrow> open_file" where
  "opened e sz first mode = \<lparr>of_used = True, dirent_sector = fst e, dirent_index = snd e,
    of_offset = 0, of_size = sz, of_first_sector = first, of_mode = mode\<rparr>"

definition finish_open :: "innofs \<Rightarrow> u32 \<times> nat \<Rightarrow> u32 \<Rightarrow> u32 \<Rightarrow> int \<Rightarrow> innofs \<times> int" where
  "finish_open fs e sz first mode =
    (case alloc_fd fs of (fs1, fd) \<Rightarrow>
      (if 0 \<le> fd then set_file fs1 fd (opened e sz first mode) else fs1, fd))"

text \<open>The entry of an existing file; \<open>e\<close> is its place.\<close>

definition open_existing :: "innofs \<Rightarrow> u32 \<times> nat \<Rightarrow> dirent \<Rightarrow> int \<Rightarrow> u16 \<Rightarrow> innofs \<times> int" where
  "open_existing fs e d mode uid =
    (if \<not> check_access d uid then (fs, - 1)
     else if d_flags d AND 1 \<noteq> 0 then (fs, - 1)
     else if mode AND VFS_MODE_CREATE \<noteq> 0
     then finish_open
       (write_sector fs (fst e) (put_u32 (disk fs (fst e)) (DIRENT_SIZE * snd e + 116) 0))
       e 0 (d_first_sector d) mode
     else finish_open fs e (d_size d) (d_first_sector d) mode)"

definition create_file :: "innofs \<Rightarrow> u8 list \<Rightarrow> int \<Rightarrow> u16 \<Rightarrow> (innofs \<times> int) option" where
  "create_file fs name mode uid =
    (case split_path name of
      None \<Rightarrow> Some (fs, - 1)
    | Some (parent_dir, filename) \<Rightarrow>
        (case find_dirent fs parent_dir of
          None \<Rightarrow> None
        | Some None \<Rightarrow> Some (fs, - 1)
        | Some (Some parent) \<Rightarrow>
            if d_flags (lk_dirent parent) AND 1 = 0 then Some (fs, - 1)
            else if \<not> check_access (lk_dirent parent) uid then Some (fs, - 1)
            else
              (case add_dirent fs (d_first_sector (lk_dirent parent)) (lk_in_root parent) filename uid 0 of
                None \<Rightarrow> None
              | Some (fs1, None) \<Rightarrow> Some (fs1, - 1)
              | Some (fs1, Some e) \<Rightarrow>
                  Some (finish_open (link_parent fs1 parent (fst e)) e 0 0 mode))))"

text \<open>The place of the entry is unset only for the path \<open>/\<close>, which is a directory: the value
  given to \<open>open_existing\<close> for it is not used.\<close>

definition innofs_open :: "innofs \<Rightarrow> u8 list \<Rightarrow> int \<Rightarrow> u16 \<Rightarrow> (innofs \<times> int) option" where
  "innofs_open fs name mode uid =
    (if \<not> g_innofs_mounted fs then Some (fs, - 1)
     else
       (case find_dirent fs name of
         None \<Rightarrow> None
       | Some (Some l) \<Rightarrow>
           Some (open_existing fs (case lk_place l of Some e \<Rightarrow> e | None \<Rightarrow> (0, 0)) (lk_dirent l) mode uid)
       | Some None \<Rightarrow>
           if mode AND VFS_MODE_CREATE = 0 then Some (fs, - 1) else create_file fs name mode uid))"


text \<open>The loop that skips the sectors before the offset of a read.\<close>

function skip_read :: "innofs \<Rightarrow> u32 \<Rightarrow> u32 \<Rightarrow> u32 \<Rightarrow> u32" where
  "skip_read fs cur n i =
    (if i < n \<and> cur \<noteq> 0 then skip_read fs (next_sector (disk fs cur)) n (i + 1) else cur)"
  by auto
termination
  by (relation "measure (\<lambda>(fs, cur, n, i). unat n - unat i)") (auto intro: loop_term)

declare skip_read.simps [simp del]

text \<open>The number of bytes one iteration of the read loop copies.\<close>

definition read_chunk :: "u32 \<Rightarrow> u32 \<Rightarrow> u32 \<Rightarrow> u32" where
  "read_chunk offset sz count =
    (let n1 = 508 - offset mod 508;
         n2 = (if n1 > count then count else n1)
     in if n2 > sz - offset then sz - offset else n2)"

lemma read_chunk_bounds:
  assumes "count \<noteq> 0" and "offset < sz"
  shows "read_chunk offset sz count \<noteq> 0" and "read_chunk offset sz count \<le> count"
proof -
  have "unat (offset mod 508) < 508" by (simp add: unat_mod)
  then have "unat (508 - offset mod 508) = 508 - unat (offset mod 508)"
    using unat_sub_no_wrap [of "offset mod 508" 508] by (simp add: word_le_nat_alt)
  with \<open>unat (offset mod 508) < 508\<close> have "unat (508 - offset mod 508) \<noteq> 0" by simp
  then have "508 - offset mod 508 \<noteq> 0" by (metis unat_0)
  moreover have "sz - offset \<noteq> 0" using assms(2) by auto
  ultimately show "read_chunk offset sz count \<noteq> 0" "read_chunk offset sz count \<le> count"
    using assms(1) by (auto simp: read_chunk_def Let_def)
qed

text \<open>The read loop: the bytes copied so far, and the offset it leaves.\<close>

function read_loop :: "innofs \<Rightarrow> u32 \<Rightarrow> u32 \<Rightarrow> u32 \<Rightarrow> u32 \<Rightarrow> u8 list \<Rightarrow> u8 list \<times> u32" where
  "read_loop fs sz cur offset count out =
    (if count \<noteq> 0 \<and> cur \<noteq> 0 \<and> offset < sz
     then
       (let sec = disk fs cur;
            sec_offset = offset mod 508;
            to_read = read_chunk offset sz count
        in read_loop fs sz
             (if sec_offset + to_read = 508 then next_sector sec else cur)
             (offset + to_read) (count - to_read)
             (out @ bytes_at sec (DATA_OFFSET + unat sec_offset) (unat to_read)))
     else (out, offset))"
  by auto
termination
proof (relation "measure (\<lambda>(fs, sz, cur, offset, count, out). unat count)", goal_cases)
  case (2 fs sz cur offset count out sec sec_offset to_read)
  then have "to_read \<noteq> 0" "to_read \<le> count" using read_chunk_bounds by auto
  then have "0 < unat to_read" "unat to_read \<le> unat count"
    by (simp_all add: word_le_nat_alt unat_gt_0)
  then have "unat (count - to_read) < unat count"
    using unat_sub_no_wrap [of to_read count] by (simp add: word_le_nat_alt)
  then show ?case by simp
qed simp

declare read_loop.simps [simp del]

text \<open>A \<open>u32\<close> returned as an \<open>int\<close>.\<close>

definition to_int :: "u32 \<Rightarrow> int" where
  "to_int w = sint w"

text \<open>The result of a read: the value returned and the bytes stored at \<open>buf\<close>.\<close>

definition innofs_read :: "innofs \<Rightarrow> int \<Rightarrow> u32 \<Rightarrow> innofs \<times> int \<times> u8 list" where
  "innofs_read fs fd count =
    (if \<not> valid_fd fs fd then (fs, - 1, [])
     else
       (let f = g_open_files fs ! nat fd
        in if of_mode f AND VFS_MODE_READ = 0 then (fs, - 1, [])
           else
             (let cur = skip_read fs (of_first_sector f) (of_offset f div 508) 0;
                  (out, offset) = read_loop fs (of_size f) cur (of_offset f) count []
              in (set_file fs fd (f\<lparr>of_offset := offset\<rparr>), to_int (of_nat (length out)), out))))"

text \<open>The sector after \<open>cur\<close>, allocated and zeroed when there is none yet. The result of the
  allocation is used without a test, as in the code.\<close>

definition next_or_alloc :: "innofs \<Rightarrow> u32 \<Rightarrow> innofs \<times> u32" where
  "next_or_alloc fs cur =
    (if next_sector (disk fs cur) = 0
     then
       (let sec = disk fs cur;
            (fs1, new_sec) = bitmap_alloc_sector fs;
            fs2 = write_sector fs1 cur (put_u32 sec 0 new_sec)
        in (write_sector fs2 new_sec (\<lambda>_. 0), new_sec))
     else (fs, next_sector (disk fs cur)))"

function skip_write :: "innofs \<Rightarrow> u32 \<Rightarrow> u32 \<Rightarrow> u32 \<Rightarrow> innofs \<times> u32" where
  "skip_write fs cur n i =
    (if i < n
     then (case next_or_alloc fs cur of (fs1, cur1) \<Rightarrow> skip_write fs1 cur1 n (i + 1))
     else (fs, cur))"
  by auto
termination
  by (relation "measure (\<lambda>(fs, cur, n, i). unat n - unat i)") (auto intro: loop_term)

declare skip_write.simps [simp del]

definition write_chunk :: "u32 \<Rightarrow> nat \<Rightarrow> nat" where
  "write_chunk offset count = min (508 - unat (offset mod 508)) count"

lemma write_chunk_pos: "0 < count \<Longrightarrow> 0 < write_chunk offset count"
  by (simp add: write_chunk_def unat_mod)

text \<open>The write loop. \<open>xs\<close> holds the bytes at \<open>in\<close>, whose number is \<open>count\<close>; the results are the
  offset and the size of the file.\<close>

function write_loop :: "innofs \<Rightarrow> u32 \<Rightarrow> u32 \<Rightarrow> u32 \<Rightarrow> u8 list \<Rightarrow> innofs \<times> u32 \<times> u32" where
  "write_loop fs cur offset sz xs =
    (if xs \<noteq> []
     then
       (let sec_offset = unat (offset mod 508);
            to_write = write_chunk offset (length xs);
            fs1 = write_sector fs cur (blit (disk fs cur) (DATA_OFFSET + sec_offset) (take to_write xs));
            offset1 = offset + of_nat to_write;
            sz1 = (if offset1 > sz then offset1 else sz);
            rest = drop to_write xs;
            (fs2, cur2) = (if sec_offset + to_write = 508 \<and> rest \<noteq> [] then next_or_alloc fs1 cur
              else (fs1, cur))
        in write_loop fs2 cur2 offset1 sz1 rest)
     else (fs, offset, sz))"
  by auto
termination
proof (relation "measure (\<lambda>(fs, cur, offset, sz, xs). length xs)", goal_cases)
  case (2 fs cur offset sz xs)
  then show ?case using write_chunk_pos [of "length xs" offset] by auto
qed simp

declare write_loop.simps [simp del]

definition innofs_write :: "innofs \<Rightarrow> int \<Rightarrow> u8 list \<Rightarrow> innofs \<times> int" where
  "innofs_write fs fd xs =
    (if \<not> valid_fd fs fd then (fs, - 1)
     else
       (let f = g_open_files fs ! nat fd
        in if of_mode f AND VFS_MODE_WRITE = 0 then (fs, - 1)
           else
             (let (fs1, first) = (if of_first_sector f = 0 then bitmap_alloc_sector fs
                    else (fs, of_first_sector f))
              in if first = 0 then (set_file fs1 fd (f\<lparr>of_first_sector := 0\<rparr>), 0)
                 else
                   (let fs2 = (if of_first_sector f = 0 then write_sector fs1 first (\<lambda>_. 0) else fs1);
                        (fs3, cur) = skip_write fs2 first (of_offset f div 508) 0;
                        (fs4, offset, sz) = write_loop fs3 cur (of_offset f) (of_size f) xs
                    in (set_file fs4 fd (f\<lparr>of_first_sector := first, of_offset := offset, of_size := sz\<rparr>),
                        to_int (of_nat (length xs)))))))"

definition innofs_close :: "innofs \<Rightarrow> int \<Rightarrow> innofs" where
  "innofs_close fs fd =
    (if \<not> valid_fd fs fd then fs
     else
       (let f = g_open_files fs ! nat fd;
            fs1 = (if of_mode f AND (VFS_MODE_WRITE OR VFS_MODE_CREATE) \<noteq> 0
              then
                (let b = disk fs (dirent_sector f);
                     b1 = put_u32 b (DIRENT_SIZE * dirent_index f + 116) (of_size f);
                     b2 = put_u32 b1 (DIRENT_SIZE * dirent_index f + 120) (of_first_sector f)
                 in write_sector fs (dirent_sector f) b2)
              else fs)
        in set_file fs1 fd (f\<lparr>of_used := False\<rparr>)))"

section \<open>Removing and listing\<close>

partial_function (option) free_chain :: "innofs \<Rightarrow> u32 \<Rightarrow> innofs option" where
  "free_chain fs cur =
    (if cur \<noteq> 0 then free_chain (bitmap_free_sector fs cur) (next_sector (disk fs cur)) else Some fs)"

text \<open>\<open>junk\<close> is what the uninitialised variables for the place of the entry hold; the code uses
  them when the path is \<open>/\<close>.\<close>

definition innofs_rm :: "innofs \<Rightarrow> u32 \<times> nat \<Rightarrow> u8 list \<Rightarrow> u16 \<Rightarrow> (innofs \<times> int) option" where
  "innofs_rm fs junk name uid =
    (if \<not> g_innofs_mounted fs then Some (fs, - 1)
     else
       (case find_dirent fs name of
         None \<Rightarrow> None
       | Some None \<Rightarrow> Some (fs, - 1)
       | Some (Some l) \<Rightarrow>
           if \<not> check_access (lk_dirent l) uid then Some (fs, - 1)
           else
             (case free_chain fs (d_first_sector (lk_dirent l)) of
               None \<Rightarrow> None
             | Some fs1 \<Rightarrow>
                 (let e = (case lk_place l of Some e \<Rightarrow> e | None \<Rightarrow> junk)
                  in Some (write_sector fs1 (fst e) ((disk fs1 (fst e))(DIRENT_SIZE * snd e := 0)), 0)))))"

record vfs_dirent =
  v_name :: "u8 list"
  v_size :: u32
  v_flags :: u32
  v_owner_uid :: u16

definition VFS_FLAG_FILE :: u32 where
  "VFS_FLAG_FILE = 1"

definition VFS_FLAG_DIRECTORY :: u32 where
  "VFS_FLAG_DIRECTORY = 2"

definition export_dirent :: "buf \<Rightarrow> nat \<Rightarrow> vfs_dirent" where
  "export_dirent b off =
    (let d = dirent_at b off
     in \<lparr>v_name = take 115 (d_name d), v_size = d_size d,
         v_flags = (if d_flags d AND 1 \<noteq> 0 then VFS_FLAG_DIRECTORY else VFS_FLAG_FILE),
         v_owner_uid = d_owner_uid d\<rparr>)"

text \<open>The four entries of a sector, counting the used ones: the entry with number \<open>index\<close>, or the
  count after the sector.\<close>

fun list_sector :: "buf \<Rightarrow> nat \<Rightarrow> nat list \<Rightarrow> int \<Rightarrow> int \<Rightarrow> vfs_dirent + int" where
  "list_sector b base [] n index = Inr n"
| "list_sector b base (j # js) n index =
    (if b (base + DIRENT_SIZE * j) \<noteq> 0
     then (if n = index then Inl (export_dirent b (base + DIRENT_SIZE * j))
           else list_sector b base js (n + 1) index)
     else list_sector b base js n index)"

function list_root :: "innofs \<Rightarrow> u32 \<Rightarrow> u32 \<Rightarrow> int \<Rightarrow> int \<Rightarrow> vfs_dirent option" where
  "list_root fs dir s n index =
    (if s < root_dir_sectors (g_sb fs)
     then (case list_sector (disk fs (dir + s)) 0 [0..<4] n index of
        Inl d \<Rightarrow> Some d
      | Inr n' \<Rightarrow> list_root fs dir (s + 1) n' index)
     else None)"
  by auto
termination
  by (relation "measure (\<lambda>(fs, dir, s, n, index). unat (root_dir_sectors (g_sb fs)) - unat s)")
    (auto intro: loop_term)

declare list_root.simps [simp del]

partial_function (option) list_chain :: "innofs \<Rightarrow> u32 \<Rightarrow> int \<Rightarrow> int \<Rightarrow> vfs_dirent option option" where
  "list_chain fs sec n index =
    (if sec \<noteq> 0
     then (case list_sector (disk fs sec) DATA_OFFSET [0..<4] n index of
        Inl d \<Rightarrow> Some (Some d)
      | Inr n' \<Rightarrow> list_chain fs (next_sector (disk fs sec)) n' index)
     else Some None)"

text \<open>The entry found, for the result 1, or none, for the result 0.\<close>

definition innofs_readdir :: "innofs \<Rightarrow> u8 list \<Rightarrow> int \<Rightarrow> vfs_dirent option option" where
  "innofs_readdir fs dir_path index =
    (if \<not> g_innofs_mounted fs then Some None
     else
       (case find_dirent fs dir_path of
         None \<Rightarrow> None
       | Some None \<Rightarrow> Some None
       | Some (Some l) \<Rightarrow>
           if d_flags (lk_dirent l) AND 1 = 0 then Some None
           else if lk_in_root l then Some (list_root fs (d_first_sector (lk_dirent l)) 0 0 index)
           else list_chain fs (d_first_sector (lk_dirent l)) 0 index))"

end
