(* ===== verification/Innofs_Alloc.thy ===== *)
theory Innofs_Alloc
  imports Innofs Pmm
begin

text \<open>
  The sector bitmap of InnoFS: the bits on disk form a bit array (the interface that the page
  bitmap of the page allocator also has), \<open>bitmap_alloc_sector\<close> takes its lowest clear bit and
  \<open>bitmap_free_sector\<close> clears one. The geometry is that of a disk formatted by \<open>innofs_mkfs\<close>.
\<close>

section \<open>The bits of the bitmap sectors\<close>

definition sector_bit :: "(u32 \<Rightarrow> buf) \<Rightarrow> u32 \<Rightarrow> bool" where
  "sector_bit d s \<longleftrightarrow> bit_in_byte (d (1 + s div 4096) (unat (s mod 4096 div 8))) (unat (s mod 8))"

definition set_sector_bit :: "(u32 \<Rightarrow> buf) \<Rightarrow> u32 \<Rightarrow> (u32 \<Rightarrow> buf)" where
  "set_sector_bit d s =
    (let b = d (1 + s div 4096); i = unat (s mod 4096 div 8)
     in d(1 + s div 4096 := b(i := b i OR push_bit (unat (s mod 8)) 1)))"

definition clear_sector_bit :: "(u32 \<Rightarrow> buf) \<Rightarrow> u32 \<Rightarrow> (u32 \<Rightarrow> buf)" where
  "clear_sector_bit d s =
    (let b = d (1 + s div 4096); i = unat (s mod 4096 div 8)
     in d(1 + s div 4096 := b(i := b i AND NOT (push_bit (unat (s mod 8)) 1))))"

lemma bit_in_byte_bit: "bit_in_byte v k \<longleftrightarrow> bit v k"
  by (simp add: bit_in_byte_def bit_iff_and_push_bit_not_eq_0)

lemma bit_in_byte_set: "k < 8 \<Longrightarrow> j < 8 \<Longrightarrow> bit_in_byte (v OR push_bit k 1) j \<longleftrightarrow> j = k \<or> bit_in_byte v j"
  by (auto simp: bit_in_byte_bit bit_simps)

lemma bit_in_byte_clear:
  "k < 8 \<Longrightarrow> j < 8 \<Longrightarrow> bit_in_byte (v AND NOT (push_bit k 1)) j \<longleftrightarrow> j \<noteq> k \<and> bit_in_byte v j"
  by (auto simp: bit_in_byte_bit bit_simps)

lemma byte_full_iff: "v = 0xFF \<longleftrightarrow> (\<forall>k < 8. bit_in_byte v k)"
proof -
  have "v = - 1" if "\<forall>k < 8. bit v k" using that by (intro bit_word_eqI) simp
  moreover have "bit (0xFF :: u8) k" if "k < 8" for k
  proof -
    have eq: "(0xFF :: u8) = mask 8" by (simp add: mask_eq_exp_minus_1)
    show ?thesis unfolding eq bit_mask_iff using that by simp
  qed
  ultimately show ?thesis by (auto simp: bit_in_byte_bit)
qed

lemma mod_8_bound: "unat (s mod 8) < 8" for s :: u32
  by (simp add: unat_mod)

lemma sector_place_eq:
  fixes s t :: u32
  assumes "s div 4096 = t div 4096" and "unat (s mod 4096 div 8) = unat (t mod 4096 div 8)"
    and "unat (s mod 8) = unat (t mod 8)"
  shows "s = t"
proof -
  have "unat s div 4096 = unat t div 4096"
    using arg_cong [OF assms(1), of unat] by (simp add: unat_div)
  moreover have "unat s mod 4096 div 8 = unat t mod 4096 div 8" "unat s mod 8 = unat t mod 8"
    using assms(2,3) by (simp_all add: unat_div unat_mod)
  moreover have "n = n div 4096 * 4096 + (n mod 4096 div 8 * 8 + n mod 8)" for n :: nat
  proof -
    have "n mod 4096 div 8 * 8 + n mod 4096 mod 8 = n mod 4096" by (rule div_mult_mod_eq)
    then show ?thesis using div_mult_mod_eq [of n 4096] mod_mod_cancel [of 8 4096 n] by simp
  qed
  ultimately have "unat s = unat t" by metis
  then show ?thesis by (simp add: word_unat_eq_iff)
qed

lemma sector_lba_inj: "1 + s div 4096 = 1 + t div 4096 \<longleftrightarrow> s div 4096 = t div 4096" for s t :: u32
  by simp

interpretation sector_bits: bit_array set_sector_bit clear_sector_bit sector_bit
proof unfold_locales
  fix d :: "u32 \<Rightarrow> buf" and s t :: u32
  show "sector_bit (set_sector_bit d s) t \<longleftrightarrow> t = s \<or> sector_bit d t"
    using sector_place_eq [of t s] bit_in_byte_set [OF mod_8_bound mod_8_bound]
    by (auto simp: sector_bit_def set_sector_bit_def Let_def)
  show "sector_bit (clear_sector_bit d s) t \<longleftrightarrow> t \<noteq> s \<and> sector_bit d t"
    using sector_place_eq [of t s] bit_in_byte_clear [OF mod_8_bound mod_8_bound]
    by (auto simp: sector_bit_def clear_sector_bit_def Let_def)
qed

section \<open>Allocation\<close>

definition free_sectors :: "(u32 \<Rightarrow> buf) \<Rightarrow> u32 set" where
  "free_sectors d = {s. s < 8192 \<and> \<not> sector_bit d s}"

lemma find_clear_bit:
  "List.find (\<lambda>k. \<not> bit_in_byte v k) [0..<8] = None \<longleftrightarrow> v = 0xFF"
  "List.find (\<lambda>k. \<not> bit_in_byte v k) [0..<8] = Some k \<Longrightarrow>
    k < 8 \<and> \<not> bit_in_byte v k \<and> (\<forall>j < k. bit_in_byte v j)"
  by (auto simp: find_None_iff find_Some_iff byte_full_iff)

lemma Suc_range_iff: "i < n \<Longrightarrow> (\<forall>j. i \<le> j \<and> j < n \<longrightarrow> P j) \<longleftrightarrow> P i \<and> (\<forall>j. Suc i \<le> j \<and> j < n \<longrightarrow> P j)"
  by (metis Suc_leD Suc_leI le_neq_implies_less order_refl)

lemma byte_scan_None: "byte_scan b [i..<n] = None \<longleftrightarrow> (\<forall>j. i \<le> j \<and> j < n \<longrightarrow> b j = 0xFF)"
proof (induction "n - i" arbitrary: i)
  case (Suc m)
  then have "byte_scan b [Suc i..<n] = None \<longleftrightarrow> (\<forall>j. Suc i \<le> j \<and> j < n \<longrightarrow> b j = 0xFF)" by simp
  moreover have "[i..<n] = i # [Suc i..<n]" using Suc.hyps(2) by (simp add: upt_conv_Cons)
  moreover have "(\<forall>j. i \<le> j \<and> j < n \<longrightarrow> b j = 0xFF) \<longleftrightarrow>
      b i = 0xFF \<and> (\<forall>j. Suc i \<le> j \<and> j < n \<longrightarrow> b j = 0xFF)"
    using Suc.hyps(2) by (intro Suc_range_iff) simp
  ultimately show ?case using find_clear_bit(1) [of "b i"] by (auto split: option.split)
qed auto

lemma byte_scan_Some:
  assumes "byte_scan b [i..<n] = Some (byte, k)"
  shows "i \<le> byte \<and> byte < n \<and> k < 8 \<and> \<not> bit_in_byte (b byte) k \<and> (\<forall>j < k. bit_in_byte (b byte) j)
    \<and> (\<forall>j. i \<le> j \<and> j < byte \<longrightarrow> b j = 0xFF)"
  using assms
proof (induction "n - i" arbitrary: i)
  case (Suc m)
  have l: "[i..<n] = i # [Suc i..<n]" using Suc.hyps(2) by (simp add: upt_conv_Cons)
  show ?case
  proof (cases "b i = 0xFF")
    case True
    with Suc.prems l have "byte_scan b [Suc i..<n] = Some (byte, k)" by simp
    moreover have "m = n - Suc i" using Suc.hyps(2) by simp
    ultimately have "Suc i \<le> byte \<and> byte < n \<and> k < 8 \<and> \<not> bit_in_byte (b byte) k
      \<and> (\<forall>j < k. bit_in_byte (b byte) j) \<and> (\<forall>j. Suc i \<le> j \<and> j < byte \<longrightarrow> b j = 0xFF)" using Suc.hyps(1) by blast
    then show ?thesis using True Suc_range_iff [of i byte "\<lambda>j. b j = 0xFF"] by (simp only: Suc_le_eq) auto
  next
    case False
    let ?f = "List.find (\<lambda>k. \<not> bit_in_byte (b i) k) [0..<8]"
    obtain k' where k': "?f = Some k'" using False find_clear_bit(1) [of "b i"] by (meson not_None_eq)
    then have "byte_scan b (i # [Suc i..<n]) = Some (i, k')" using False by (simp only: byte_scan.simps if_True simp_thms option.case)
    then have "byte = i" "k' = k" using Suc.prems l by simp_all
    moreover have "i < n" using Suc.hyps(2) by simp
    ultimately show ?thesis using find_clear_bit(2) [OF k'] by auto
  qed
qed simp

text \<open>The number that \<open>bitmap_alloc_sector\<close> computes from a place, and back.\<close>

lemma sector_of_place:
  assumes "i < 2" and "byte < 512" and "k < 8"
  defines "s \<equiv> of_nat i * 4096 + of_nat byte * 8 + of_nat k :: u32"
  shows "unat s = i * 4096 + byte * 8 + k" and "s div 4096 = of_nat i"
    and "unat (s mod 4096 div 8) = byte" and "unat (s mod 8) = k"
proof -
  have "s = of_nat (i * 4096 + byte * 8 + k)" by (simp add: s_def)
  moreover have b: "i * 4096 + byte * 8 + k < 8192" using assms by simp
  ultimately show u: "unat s = i * 4096 + byte * 8 + k"
    by (simp only: unat_of_nat) (simp add: take_bit_nat_eq_self)
  have "(i * 4096 + (byte * 8 + k)) div 4096 = i" using assms(2,3) by (intro div_nat_eqI) simp_all
  moreover have "(i * 4096 + (byte * 8 + k)) mod 4096 = byte * 8 + k" using assms(2,3) by simp
  moreover have "(byte * 8 + k) div 8 = byte" using assms(3) by (intro div_nat_eqI) simp_all
  moreover have "(i * 4096 + (byte * 8 + k)) mod 8 = k"
  proof -
    have "i * 4096 + (byte * 8 + k) = k + (i * 512 + byte) * 8" by simp
    then show ?thesis using assms(3) by (simp only: mod_mult_self1 mod_less)
  qed
  ultimately show "unat (s mod 4096 div 8) = byte" "unat (s mod 8) = k" "s div 4096 = of_nat i"
    using u assms(1) by (simp_all add: unat_div unat_mod word_unat_eq_iff unat_of_nat take_bit_nat_eq_self
      add.assoc)
qed


text \<open>One bitmap sector: the scan finds its lowest free bit, or there is none.\<close>

definition part_free :: "(u32 \<Rightarrow> buf) \<Rightarrow> nat \<Rightarrow> u32 set" where
  "part_free d i = {s \<in> free_sectors d. s div 4096 = of_nat i}"

lemma sector_byte_bound: "unat (s mod 4096 div 8) < 512" for s :: u32
proof -
  have "unat s mod 4096 < 4096" by simp
  then have "unat s mod 4096 div 8 < 512" by (intro div_less_iff_less_mult [THEN iffD2]) auto
  then show ?thesis by (simp add: unat_div unat_mod)
qed

lemma part_decompose: "unat s = unat (s div 4096) * 4096 + unat (s mod 4096 div 8) * 8 + unat (s mod 8)"
  for s :: u32
proof -
  have "unat s mod 4096 div 8 * 8 + unat s mod 4096 mod 8 = unat s mod 4096" by (rule div_mult_mod_eq)
  moreover have "unat s mod 4096 mod 8 = unat s mod 8" by (rule mod_mod_cancel) simp
  moreover have "unat s div 4096 * 4096 + unat s mod 4096 = unat s" by (rule div_mult_mod_eq)
  ultimately have "unat s = unat s div 4096 * 4096 + unat s mod 4096 div 8 * 8 + unat s mod 8" by linarith
  then show ?thesis by (simp only: unat_div unat_mod) simp
qed

lemma byte_scan_part_None:
  assumes "i < 2" and "byte_scan (d (1 + of_nat i)) [0..<512] = None"
  shows "part_free d i = {}"
proof -
  have "sector_bit d s" if "s div 4096 = of_nat i" for s
  proof -
    have "d (1 + s div 4096) (unat (s mod 4096 div 8)) = 0xFF"
      using assms(2) that sector_byte_bound [of s] by (simp only: byte_scan_None that) simp
    then show ?thesis using mod_8_bound [of s] byte_full_iff by (simp only: sector_bit_def)
  qed
  then show ?thesis by (auto simp: part_free_def free_sectors_def)
qed

lemma byte_scan_part_Some:
  assumes i: "i < 2" and scan: "byte_scan (d (1 + of_nat i)) [0..<512] = Some (byte, k)"
  defines "s \<equiv> of_nat i * 4096 + of_nat byte * 8 + of_nat k"
  shows "s \<in> part_free d i" and "\<And>t. t \<in> part_free d i \<Longrightarrow> s \<le> t"
    and "d (1 + s div 4096) = d (1 + of_nat i)" and "unat (s mod 4096 div 8) = byte" and "unat (s mod 8) = k"
    and "s div 4096 = of_nat i"
proof -
  note sc = byte_scan_Some [OF scan]
  then have b: "byte < 512" "k < 8" by simp_all
  note pl = sector_of_place [OF i b, folded s_def]
  show "unat (s mod 4096 div 8) = byte" "unat (s mod 8) = k" "s div 4096 = of_nat i"
    "d (1 + s div 4096) = d (1 + of_nat i)" using pl by simp_all
  have "unat s < 8192" using pl(1) i b by simp
  then have "s < 8192" by (simp add: word_less_nat_alt)
  moreover have "\<not> sector_bit d s" using sc pl by (simp add: sector_bit_def)
  ultimately show "s \<in> part_free d i" using pl(2) by (simp add: part_free_def free_sectors_def)
  fix t assume t: "t \<in> part_free d i"
  then have td: "t div 4096 = of_nat i" and nt: "\<not> sector_bit d t"
    by (simp_all add: part_free_def free_sectors_def)
  let ?bt = "unat (t mod 4096 div 8)" and ?kt = "unat (t mod 8)"
  have "\<not> ?bt < byte"
  proof
    assume "?bt < byte"
    with sc have "d (1 + of_nat i) ?bt = 0xFF" by simp
    then have "sector_bit d t" using byte_full_iff mod_8_bound [of t]
      by (simp only: sector_bit_def td)
    with nt show False by simp
  qed
  moreover have "\<not> ?kt < k" if "?bt = byte"
    using sc nt that by (auto simp: sector_bit_def td)
  ultimately have "byte * 8 + k \<le> ?bt * 8 + ?kt" using b by (cases "?bt = byte") auto
  moreover have "unat (t div 4096) = i" using i by (simp add: td unat_of_nat take_bit_nat_eq_self)
  ultimately have "unat s \<le> unat t" using part_decompose [of t] pl(1) by simp
  then show "s \<le> t" by (simp add: word_le_nat_alt)
qed

lemma free_sectors_parts: "free_sectors d = part_free d 0 \<union> part_free d 1"
proof -
  have "s div 4096 = 0 \<or> s div 4096 = 1" if "s < 8192" for s :: u32
  proof -
    have "unat s div 4096 < 2" using that by (simp add: word_less_nat_alt div_less_iff_less_mult)
    then have "unat (s div 4096) = 0 \<or> unat (s div 4096) = 1" by (auto simp: unat_div)
    then show ?thesis by (metis unat_0 unat_1 word_unat_eq_iff)
  qed
  then show ?thesis by (auto simp: part_free_def free_sectors_def)
qed

lemma part_order: "s \<in> part_free d 0 \<Longrightarrow> t \<in> part_free d 1 \<Longrightarrow> s \<le> t"
proof -
  assume "s \<in> part_free d 0" "t \<in> part_free d 1"
  then have "unat (s div 4096) = 0" "unat (t div 4096) = 1" by (simp_all add: part_free_def)
  then have "unat s div 4096 < unat t div 4096" by (simp add: unat_div)
  then have "unat s \<le> unat t" by (meson div_le_mono linorder_not_less order_less_imp_le)
  then show ?thesis by (simp add: word_le_nat_alt)
qed

lemma alloc_loop_step:
  assumes sb: "g_sb fs = formatted_sb" and i: "i < 2"
  shows "bitmap_alloc_loop fs (of_nat i) =
    (if part_free (disk fs) i = {} then bitmap_alloc_loop fs (of_nat i + 1)
     else (fs\<lparr>disk := set_sector_bit (disk fs) (Min (part_free (disk fs) i))\<rparr>, Min (part_free (disk fs) i)))"
proof (cases "byte_scan (disk fs (1 + of_nat i)) [0..<512]")
  case None
  have "of_nat i < (2 :: u32)" using i by (simp add: word_less_nat_alt unat_of_nat take_bit_nat_eq_self)
  with None byte_scan_part_None [of i "disk fs", OF i None] sb show ?thesis
    by (subst bitmap_alloc_loop.simps) (simp add: formatted_sb_def SECTOR_SIZE_def Let_def del: upt_Suc)
next
  case (Some e)
  obtain byte k where e: "e = (byte, k)" by (cases e)
  let ?s = "of_nat i * 4096 + of_nat byte * 8 + of_nat k :: u32"
  note sc = byte_scan_part_Some [of i "disk fs", OF i Some [unfolded e]]
  have m: "Min (part_free (disk fs) i) = ?s" using sc(1,2) by (intro Min_eqI) auto
  have "of_nat i < (2 :: u32)" using i by (simp add: word_less_nat_alt unat_of_nat take_bit_nat_eq_self)
  then have "bitmap_alloc_loop fs (of_nat i) =
      (write_sector fs (1 + of_nat i) ((disk fs (1 + of_nat i))(byte := disk fs (1 + of_nat i) byte OR push_bit k 1)), ?s)"
    using Some e sb
    by (subst bitmap_alloc_loop.simps) (simp add: formatted_sb_def SECTOR_SIZE_def Let_def del: upt_Suc)
  also have "\<dots> = (fs\<lparr>disk := set_sector_bit (disk fs) ?s\<rparr>, ?s)"
    by (simp only: set_sector_bit_def Let_def sc(4,5,6) write_sector_def)
  finally show ?thesis using sc(1) unfolding m by auto
qed

lemma bitmap_alloc_spec:
  assumes sb: "g_sb fs = formatted_sb"
  shows "bitmap_alloc_sector fs =
    (if free_sectors (disk fs) = {} then (fs, 0)
     else (fs\<lparr>disk := set_sector_bit (disk fs) (Min (free_sectors (disk fs)))\<rparr>, Min (free_sectors (disk fs))))"
proof -
  let ?p = "part_free (disk fs)"
  have l2: "bitmap_alloc_loop fs 2 = (fs, 0)"
    using sb by (subst bitmap_alloc_loop.simps) (simp add: formatted_sb_def)
  have l1: "bitmap_alloc_loop fs 1 = (if ?p 1 = {} then bitmap_alloc_loop fs 2
      else (fs\<lparr>disk := set_sector_bit (disk fs) (Min (?p 1))\<rparr>, Min (?p 1)))"
    using alloc_loop_step [OF sb, of 1] by simp
  have l0: "bitmap_alloc_loop fs 0 = (if ?p 0 = {} then bitmap_alloc_loop fs 1
      else (fs\<lparr>disk := set_sector_bit (disk fs) (Min (?p 0))\<rparr>, Min (?p 0)))"
    using alloc_loop_step [OF sb, of 0] by simp
  have "Min (?p 0 \<union> ?p 1) = Min (?p 0)" if "?p 0 \<noteq> {}"
  proof (rule Min_eqI)
    have m: "Min (?p 0) \<in> ?p 0" using that by simp
    then show "Min (?p 0) \<in> ?p 0 \<union> ?p 1" by simp
    show "Min (?p 0) \<le> t" if "t \<in> ?p 0 \<union> ?p 1" for t
      using that m part_order [OF m] by auto
  qed simp
  then show ?thesis unfolding bitmap_alloc_sector_def l0 l1 l2 free_sectors_parts by auto
qed

lemma bitmap_free_spec:
  assumes "g_sb fs = formatted_sb"
  shows "bitmap_free_sector fs s = (if s < 19 then fs else fs\<lparr>disk := clear_sector_bit (disk fs) s\<rparr>)"
  using assms by (simp add: bitmap_free_sector_def clear_sector_bit_def formatted_sb_def SECTOR_SIZE_def
    write_sector_def Let_def)

lemma free_after_set: "free_sectors (set_sector_bit d s) = free_sectors d - {s}"
  using sector_bits.zeros_set [of "{s. s < 8192}" d s] by (auto simp: free_sectors_def)

lemma free_after_clear: "s < 8192 \<Longrightarrow> free_sectors (clear_sector_bit d s) = insert s (free_sectors d)"
  using sector_bits.zeros_clear [of s "{s. s < 8192}" d] by (auto simp: free_sectors_def)


section \<open>A freshly formatted bitmap\<close>

text \<open>A disk that \<open>innofs_mkfs\<close> has laid out: the sectors before the data area are marked.\<close>

definition fs_ok :: "innofs \<Rightarrow> bool" where
  "fs_ok fs \<longleftrightarrow> g_sb fs = formatted_sb \<and> (\<forall>s < 19. sector_bit (disk fs) s)"

lemma write_run_disk:
  "disk (write_run fs start b is) t = (if \<exists>i \<in> set is. t = start + of_nat i then b else disk fs t)"
  by (induction fs start b "is" rule: write_run.induct) (auto simp: write_sector_def)

lemma write_run_fields [simp]:
  "g_sb (write_run fs start b is) = g_sb fs" "g_open_files (write_run fs start b is) = g_open_files fs"
  by (induction fs start b "is" rule: write_run.induct) (auto simp: write_sector_def)

lemma reserve_bits_bit:
  "k < 8 \<Longrightarrow> bit_in_byte (reserve_bits b is byte) k \<longleftrightarrow>
    (\<exists>i \<in> set is. i div 8 = byte \<and> i mod 8 = k) \<or> bit_in_byte (b byte) k"
proof (induction b "is" rule: reserve_bits.induct)
  case (2 b i "is")
  let ?b = "b(i div 8 := b (i div 8) OR push_bit (i mod 8) 1)"
  have "bit_in_byte (?b byte) k \<longleftrightarrow> i div 8 = byte \<and> i mod 8 = k \<or> bit_in_byte (b byte) k"
    using bit_in_byte_set [of "i mod 8" k "b (i div 8)"] "2.prems" by (cases "byte = i div 8") auto
  with 2 show ?case by (simp only: reserve_bits.simps list.set) blast
qed simp

lemma word_range_eq: "t = start + of_nat i \<longleftrightarrow> t - start = of_nat i" for t start :: "'a :: len word"
  by (auto simp: algebra_simps)

text \<open>What the layout puts into each sector.\<close>

lemma mkfs_layout_disk:
  "disk (mkfs_layout fs) t =
    (if t = 0 then sector_of_sb formatted_sb
     else if t = 1 then reserve_bits (\<lambda>_. 0) [0..<19]
     else if t < 19 then (\<lambda>_. 0)
     else disk fs t)"
proof -
  have "(\<exists>i \<in> set [0..<16]. t = 3 + of_nat i) \<longleftrightarrow> 3 \<le> t \<and> t < (19 :: u32)"
  proof
    assume "\<exists>i \<in> set [0..<16]. t = 3 + of_nat i"
    then obtain i where i: "i < 16" "t = 3 + of_nat i" by auto
    then have "unat t = 3 + i" by (simp add: unat_word_ariths unat_of_nat take_bit_nat_eq_self)
    with i(1) show "3 \<le> t \<and> t < 19" by (simp add: word_le_nat_alt word_less_nat_alt)
  next
    assume "3 \<le> t \<and> t < 19"
    then have b: "3 \<le> unat t" "unat t < 19" by (simp_all add: word_le_nat_alt word_less_nat_alt)
    then have "t = 3 + of_nat (unat t - 3)" by (simp add: of_nat_diff)
    with b show "\<exists>i \<in> set [0..<16]. t = 3 + of_nat i" by (intro bexI [of _ "unat t - 3"]) auto
  qed
  moreover have "(\<exists>i \<in> set [0..<2]. t = 1 + of_nat i) \<longleftrightarrow> t = 1 \<or> t = (2 :: u32)"
    by (auto simp: numeral_2_eq_2)
  moreover have "t < 19 \<longleftrightarrow> t = 0 \<or> t = 1 \<or> t = 2 \<or> (3 \<le> t \<and> t < 19)" for t :: u32
    by (auto simp: word_le_nat_alt word_less_nat_alt word_unat_eq_iff)
  moreover have "\<not> 3 \<le> (0 :: u32)" "\<not> 3 \<le> (1 :: u32)" "\<not> 3 \<le> (2 :: u32)"
    by (simp_all add: word_le_nat_alt)
  ultimately show ?thesis
    by (auto simp: mkfs_layout_def Let_def write_run_disk formatted_sb_def write_sector_def
        simp del: upt_Suc set_upt)
qed

lemma formatted_bits: "t < 8192 \<Longrightarrow> sector_bit (disk (mkfs_layout fs)) t \<longleftrightarrow> t < 19"
proof -
  assume t: "t < 8192"
  then have "unat t div 4096 < 2" by (simp add: word_less_nat_alt div_less_iff_less_mult)
  then have "unat (t div 4096) = 0 \<or> unat (t div 4096) = 1" by (auto simp: unat_div)
  then consider "t div 4096 = 0" | "t div 4096 = 1" by (metis unat_0 unat_1 word_unat_eq_iff)
  then show ?thesis
  proof cases
    case 1
    let ?byte = "unat (t mod 4096 div 8)" and ?k = "unat (t mod 8)"
    have u: "unat t = ?byte * 8 + ?k" using part_decompose [of t] by (simp add: 1)
    have "(\<exists>i \<in> set [0..<19]. i div 8 = ?byte \<and> i mod 8 = ?k) \<longleftrightarrow> unat t < 19"
    proof
      assume "\<exists>i \<in> set [0..<19]. i div 8 = ?byte \<and> i mod 8 = ?k"
      then obtain i where "i < 19" "i div 8 = ?byte" "i mod 8 = ?k" by auto
      with u show "unat t < 19" by (metis div_mult_mod_eq)
    next
      assume "unat t < 19"
      moreover have "unat t div 8 = ?byte" "unat t mod 8 = ?k"
        using mod_8_bound [of t] unfolding u by (simp_all add: div_nat_eqI)
      ultimately show "\<exists>i \<in> set [0..<19]. i div 8 = ?byte \<and> i mod 8 = ?k"
        by (intro bexI [of _ "unat t"]) auto
    qed
    moreover have "disk (mkfs_layout fs) 1 = reserve_bits (\<lambda>_. 0) [0..<19]"
      by (subst mkfs_layout_disk) simp
    ultimately show ?thesis
      using reserve_bits_bit [OF mod_8_bound [of t], of "\<lambda>_. 0" "[0..<19]" ?byte]
      by (simp add: sector_bit_def 1 word_less_nat_alt bit_in_byte_def del: upt_Suc set_upt)
  next
    case 2
    then have "4096 \<le> unat t" using part_decompose [of t] by simp
    moreover have "disk (mkfs_layout fs) 2 = (\<lambda>_. 0)" by (subst mkfs_layout_disk) simp
    ultimately show ?thesis using 2 by (simp add: sector_bit_def word_less_nat_alt bit_in_byte_def)
  qed
qed

lemma formatted_sb_layout [simp]: "g_sb (mkfs_layout fs) = formatted_sb"
  by (simp add: mkfs_layout_def Let_def write_sector_def)

lemma formatted_fs_ok: "fs_ok (mkfs_layout fs)"
  using formatted_bits [of _ fs] by (simp add: fs_ok_def word_less_nat_alt)

lemma formatted_free: "free_sectors (disk (mkfs_layout fs)) = {s. 19 \<le> s \<and> s < 8192}"
  using formatted_bits [of _ fs] by (auto simp: free_sectors_def)

lemma formatted_room: "card (free_sectors (disk (mkfs_layout fs))) = 8173"
proof -
  have "free_sectors (disk (mkfs_layout fs)) = of_nat ` {19..<8192}"
  proof (intro set_eqI iffI)
    fix s :: u32
    assume "s \<in> free_sectors (disk (mkfs_layout fs))"
    then have "unat s \<in> {19..<8192}" by (simp add: formatted_free word_le_nat_alt word_less_nat_alt)
    moreover have "s = of_nat (unat s)" by simp
    ultimately show "s \<in> of_nat ` {19..<8192}" by blast
  qed (auto simp: formatted_free word_le_nat_alt word_less_nat_alt unat_of_nat take_bit_nat_eq_self)
  moreover have "inj_on (of_nat :: nat \<Rightarrow> u32) {19..<8192}"
    by (rule inj_on_inverseI [where g = unat]) (simp add: unat_of_nat take_bit_nat_eq_self)
  ultimately show ?thesis by (simp add: card_image)
qed


section \<open>Properties of the sector bitmap\<close>

text \<open>An unformatted disk, for the examples.\<close>

definition blank :: innofs where
  "blank = \<lparr>disk = (\<lambda>_ _. 0), g_sb = sb_of_sector (\<lambda>_. 0), g_open_files = [], g_innofs_mounted = False\<rparr>"

text \<open>C22. \<open>bitmap_alloc_sector\<close> hands out the lowest sector whose bit is clear, always a data
  sector, and marks exactly that one; \<open>bitmap_free_sector\<close> undoes it. The result is 0, with
  nothing changed, exactly when the bitmap is full. Sectors before the data area are never
  freed.\<close>

theorem sector_alloc_free:
  assumes ok: "fs_ok fs" and alloc: "bitmap_alloc_sector fs = (fs', s)"
  shows "(if free_sectors (disk fs) = {} then s = 0 \<and> fs' = fs
      else s = Min (free_sectors (disk fs)) \<and> 19 \<le> s \<and> s < 8192
        \<and> free_sectors (disk fs') = free_sectors (disk fs) - {s}
        \<and> free_sectors (disk (bitmap_free_sector fs' s)) = free_sectors (disk fs))
    \<and> (t < 19 \<longrightarrow> bitmap_free_sector fs t = fs)"
proof (cases "free_sectors (disk fs) = {}")
  case True
  with alloc ok show ?thesis by (simp add: fs_ok_def bitmap_alloc_spec bitmap_free_spec)
next
  case False
  let ?s = "Min (free_sectors (disk fs))"
  have m: "?s \<in> free_sectors (disk fs)" using False by simp
  then have lt: "?s < 8192" unfolding free_sectors_def by blast
  have ge: "19 \<le> ?s" using m ok by (auto simp: fs_ok_def free_sectors_def not_less [symmetric])
  have eq: "s = ?s" "fs' = fs\<lparr>disk := set_sector_bit (disk fs) ?s\<rparr>"
    using alloc False ok bitmap_alloc_spec [of fs] by (auto simp: fs_ok_def)
  have f: "free_sectors (disk fs') = free_sectors (disk fs) - {?s}" by (simp add: eq(2) free_after_set)
  have "g_sb fs' = formatted_sb" using ok by (simp add: eq(2) fs_ok_def)
  then have "bitmap_free_sector fs' ?s = fs'\<lparr>disk := clear_sector_bit (disk fs') ?s\<rparr>"
    using ge by (simp add: bitmap_free_spec not_less)
  then have "free_sectors (disk (bitmap_free_sector fs' ?s)) = free_sectors (disk fs)"
    using free_after_clear [OF lt, of "disk fs'"] f m by auto
  moreover have "t < 19 \<longrightarrow> bitmap_free_sector fs t = fs" using ok by (simp add: fs_ok_def bitmap_free_spec)
  ultimately show ?thesis unfolding eq(1) using False ge lt f by (simp only: if_False simp_thms)
qed

theorem sector_alloc_free_witness:
  "\<exists>fs'. bitmap_alloc_sector (mkfs_layout blank) = (fs', 19) \<and> 19 \<notin> free_sectors (disk fs')"
proof -
  obtain fs' s where alloc: "bitmap_alloc_sector (mkfs_layout blank) = (fs', s)" by fastforce
  have "Min (free_sectors (disk (mkfs_layout blank))) = 19"
    unfolding formatted_free by (rule Min_eqI) (auto simp: word_less_nat_alt)
  moreover have "free_sectors (disk (mkfs_layout blank)) \<noteq> {}"
    unfolding formatted_free by (auto simp: word_less_nat_alt intro!: exI [of _ 19])
  ultimately show ?thesis using sector_alloc_free [OF formatted_fs_ok alloc] alloc by auto
qed

end
