(* ===== verification/Innofs_File.thy ===== *)
theory Innofs_File
  imports Innofs_Alloc
begin

text \<open>
  The contents of InnoFS files: a file is the chain of its data sectors, its abstraction the
  bytes of their payloads. Reading is shown to return a slice of that list, writing to overlay
  bytes on it, extending the chain by sectors taken from the bitmap and leaving every other
  sector alone.
\<close>

section \<open>Chains and contents\<close>

fun chain :: "(u32 \<Rightarrow> buf) \<Rightarrow> u32 \<Rightarrow> u32 list \<Rightarrow> bool" where
  "chain d s [] \<longleftrightarrow> s = 0"
| "chain d s (x # xs) \<longleftrightarrow> s = x \<and> x \<noteq> 0 \<and> chain d (next_sector (d x)) xs"

definition head0 :: "u32 list \<Rightarrow> u32" where
  "head0 xs = (case xs of [] \<Rightarrow> 0 | x # _ \<Rightarrow> x)"

definition content :: "(u32 \<Rightarrow> buf) \<Rightarrow> u32 list \<Rightarrow> u8 list" where
  "content d xs = concat (map (\<lambda>x. bytes_at (d x) 4 508) xs)"

lemma head0_simps [simp]: "head0 [] = 0" "head0 (x # xs) = x"
  by (simp_all add: head0_def)

lemma content_simps [simp]: "content d [] = []" "content d (x # xs) = bytes_at (d x) 4 508 @ content d xs"
  by (simp_all add: content_def)

lemma content_append: "content d (xs @ ys) = content d xs @ content d ys"
  by (simp add: content_def)

lemma length_content [simp]: "length (content d xs) = 508 * length xs"
  by (induction xs) simp_all

lemma content_cong: "(\<And>x. x \<in> set xs \<Longrightarrow> d x = d' x) \<Longrightarrow> content d xs = content d' xs"
  by (induction xs) simp_all

lemma chain_head: "chain d s xs \<Longrightarrow> s = head0 xs"
  by (cases xs) simp_all

lemma chain_nonzero: "chain d s xs \<Longrightarrow> 0 \<notin> set xs"
  by (induction xs arbitrary: s) auto

lemma chain_cong: "(\<And>x. x \<in> set xs \<Longrightarrow> next_sector (d x) = next_sector (d' x)) \<Longrightarrow> chain d s xs = chain d' s xs"
  by (induction xs arbitrary: s) simp_all

lemma chain_drop: "chain d s xs \<Longrightarrow> chain d (head0 (drop k xs)) (drop k xs)"
proof (induction k arbitrary: s xs)
  case (Suc k)
  then show ?case by (cases xs) auto
qed (auto dest: chain_head)

lemma head0_drop: "head0 (drop k xs) = (if k < length xs then xs ! k else 0)"
  by (cases "drop k xs") (auto simp: nth_via_drop)

lemma chain_next: "chain d s xs \<Longrightarrow> k < length xs \<Longrightarrow> next_sector (d (xs ! k)) = head0 (drop (Suc k) xs)"
proof -
  assume c: "chain d s xs" and k: "k < length xs"
  then have "drop k xs = xs ! k # drop (Suc k) xs" by (simp add: Cons_nth_drop_Suc)
  with chain_drop [OF c, of k] show ?thesis by (auto dest: chain_head)
qed

text \<open>The payload of one sector is a slice of the content.\<close>

lemma content_slice:
  assumes "k < length xs" and "p + n \<le> 508"
  shows "take n (drop (508 * k + p) (content d xs)) = bytes_at (d (xs ! k)) (4 + p) n"
  using assms(1)
proof (induction xs arbitrary: k)
  case (Cons x xs)
  show ?case
  proof (cases k)
    case 0
    have "bytes_at (d x) 4 508 = bytes_at (d x) 4 p @ bytes_at (d x) (4 + p) n @ bytes_at (d x) (4 + p + n) (508 - p - n)"
      using assms(2) bytes_at_add [of "d x" 4 p "508 - p"] bytes_at_add [of "d x" "4 + p" n "508 - p - n"] by simp
    then show ?thesis using 0 by simp
  next
    case (Suc j)
    with Cons show ?thesis by simp
  qed
qed simp

section \<open>Reading\<close>

lemma skip_read_chain:
  assumes "chain (disk fs) s xs" and "i \<le> n"
  shows "skip_read fs s n i = head0 (drop (unat n - unat i) xs)"
  using assms
proof (induction fs s n i arbitrary: xs rule: skip_read.induct)
  case (1 fs s n i)
  show ?case
  proof (cases "i < n \<and> s \<noteq> 0")
    case True
    then obtain ys where xs: "xs = s # ys" and c: "chain (disk fs) (next_sector (disk fs s)) ys"
      using "1.prems"(1) by (cases xs) auto
    have i: "unat (i + 1) = unat i + 1" using True by (intro unat_plus_1 [of i n]) simp
    then have "i + 1 \<le> n" using True by (simp add: word_le_nat_alt word_less_nat_alt)
    moreover have "unat n - unat i = Suc (unat n - Suc (unat i))"
      using True by (simp add: word_less_nat_alt Suc_diff_Suc)
    ultimately show ?thesis using "1.IH" [OF True c] True i xs
      by (subst skip_read.simps) simp
  next
    case False
    with "1.prems" have "i = n \<or> xs = []" by (cases xs) auto
    with False "1.prems" show ?thesis by (subst skip_read.simps) (auto dest: chain_head)
  qed
qed

lemma read_chunk_unat:
  assumes "count \<noteq> 0" and "offset < sz"
  shows "unat (read_chunk offset sz count) =
    min (min (508 - unat offset mod 508) (unat count)) (unat sz - unat offset)"
proof -
  have "unat (offset mod 508) < 508" by (simp add: unat_mod)
  then have "unat (508 - offset mod 508) = 508 - unat offset mod 508"
    using unat_sub_no_wrap [of "offset mod 508" 508] by (simp add: word_le_nat_alt unat_mod)
  moreover have "unat (sz - offset) = unat sz - unat offset"
    using assms(2) by (intro unat_sub_no_wrap) simp
  ultimately show ?thesis by (auto simp: read_chunk_def Let_def word_less_nat_alt)
qed

lemma div_mod_step:
  fixes p n :: nat
  assumes "p mod 508 + n \<le> 508"
  shows "(p + n) div 508 = (if p mod 508 + n = 508 then p div 508 + 1 else p div 508)"
proof -
  have "p + n = (p mod 508 + n) + p div 508 * 508" using div_mult_mod_eq [of p 508] by linarith
  moreover have "((p mod 508 + n) + p div 508 * 508) div 508 = p div 508 + (p mod 508 + n) div 508"
    by (rule div_mult_self1) simp
  ultimately show ?thesis using assms by (auto simp: not_less [symmetric])
qed

lemma read_loop_chain:
  assumes "chain (disk fs) s xs" and "unat sz \<le> 508 * length xs"
    and "cur = head0 (drop (unat offset div 508) xs)"
  shows "read_loop fs sz cur offset count out =
    (let bs = take (unat count) (drop (unat offset) (take (unat sz) (content (disk fs) xs)))
     in (out @ bs, offset + of_nat (length bs)))"
  using assms
proof (induction fs sz cur offset count out rule: read_loop.induct)
  case (1 fs sz cur offset count out)
  let ?C = "content (disk fs) xs" and ?o = "unat offset" and ?q = "unat offset div 508"
  show ?case
  proof (cases "count \<noteq> 0 \<and> cur \<noteq> 0 \<and> offset < sz")
    case True
    let ?n = "read_chunk offset sz count"
    have n: "unat ?n = min (min (508 - ?o mod 508) (unat count)) (unat sz - ?o)"
      using True by (intro read_chunk_unat) auto
    have nc: "unat ?n \<le> unat count" unfolding n by (rule min.coboundedI1, rule min.coboundedI2, rule le_refl)
    have ns: "unat ?n \<le> unat sz - ?o" unfolding n by (rule min.coboundedI2, rule le_refl)
    from True "1.prems"(3) have q: "?q < length xs" and cur: "cur = xs ! ?q"
      by (auto simp: head0_drop split: if_splits)
    have m: "unat (offset mod 508) = ?o mod 508" by (simp add: unat_mod)
    have le: "?o mod 508 + unat ?n \<le> 508"
    proof -
      have "unat ?n \<le> 508 - ?o mod 508" unfolding n by simp
      moreover have "?o mod 508 < 508" by simp
      ultimately show ?thesis by linarith
    qed
    have lt: "?o < unat sz" using True by (simp add: word_less_nat_alt)
    have on: "unat (offset + ?n) = ?o + unat ?n"
    proof (rule unat_add_no_wrap)
      from ns lt unat_bound [of sz] show "?o + unat ?n < 2 ^ LENGTH(32)" by simp
    qed
    have cn: "unat (count - ?n) = unat count - unat ?n"
      using nc by (intro unat_sub_no_wrap) (simp add: word_le_nat_alt)
    have full: "offset mod 508 + ?n = 508 \<longleftrightarrow> ?o mod 508 + unat ?n = 508"
    proof -
      have "unat (offset mod 508 + ?n) = unat (offset mod 508) + unat ?n"
        using m le by (intro unat_add_no_wrap) simp
      then show ?thesis using m by (simp add: word_unat_eq_iff)
    qed
    let ?cur = "if offset mod 508 + ?n = 508 then next_sector (disk fs cur) else cur"
    have cur': "?cur = head0 (drop (unat (offset + ?n) div 508) xs)"
      using div_mod_step [OF le] chain_next [OF "1.prems"(1) q] "1.prems"(3) cur
      by (simp add: on full)
    let ?B = "bytes_at (disk fs cur) (4 + unat (offset mod 508)) (unat ?n)"
    have "508 * ?q + ?o mod 508 = ?o" by simp
    then have B: "?B = take (unat ?n) (drop ?o ?C)"
      using content_slice [OF q le, of "disk fs"] cur m by simp
    let ?L = "drop ?o (take (unat sz) ?C)"
    have "take (unat ?n) ?L = ?B"
      unfolding B drop_take take_take using ns by (simp add: min.absorb1)
    then have split: "take (unat count) ?L = ?B @ take (unat (count - ?n)) (drop (unat ?n) ?L)"
      using nc cn take_add [of "unat ?n" "unat count - unat ?n" ?L] by simp
    have ih: "read_loop fs sz ?cur (offset + ?n) (count - ?n) (out @ ?B) =
      (let bs = take (unat (count - ?n)) (drop (unat (offset + ?n)) (take (unat sz) ?C))
       in ((out @ ?B) @ bs, offset + ?n + of_nat (length bs)))"
      using "1.IH" [OF True refl refl refl "1.prems"(1,2) cur'] by (simp add: DATA_OFFSET_def)
    have "read_loop fs sz cur offset count out = read_loop fs sz ?cur (offset + ?n) (count - ?n) (out @ ?B)"
      using True by (subst read_loop.simps) (simp add: Let_def DATA_OFFSET_def)
    moreover have "drop (unat (offset + ?n)) (take (unat sz) ?C) = drop (unat ?n) ?L"
      by (simp add: on add.commute)
    moreover have "of_nat (length ?B) = ?n" by simp
    ultimately show ?thesis unfolding ih split by (simp add: Let_def algebra_simps)
  next
    case False
    have "take (unat count) (drop ?o (take (unat sz) ?C)) = []"
    proof (cases "cur = 0 \<and> offset < sz")
      case True
      have "0 \<notin> set xs" by (rule chain_nonzero [OF "1.prems"(1)])
      with True "1.prems"(3) have "\<not> ?q < length xs" by (auto simp: head0_drop in_set_conv_nth)
      then have "508 * length xs \<le> ?o" by (simp add: not_less less_eq_div_iff_mult_less_eq)
      with "1.prems"(2) show ?thesis by simp
    next
      case f: False
      with False show ?thesis by (auto simp: not_less word_le_nat_alt)
    qed
    then show ?thesis using False by (subst read_loop.simps) (auto simp: Let_def)
  qed
qed


lemma innofs_read_chain:
  assumes "valid_fd fs fd" and "f = g_open_files fs ! nat fd" and "of_mode f AND VFS_MODE_READ \<noteq> 0"
    and "chain (disk fs) (of_first_sector f) xs" and "unat (of_size f) \<le> 508 * length xs"
  shows "innofs_read fs fd count =
    (let bs = take (unat count) (drop (unat (of_offset f)) (take (unat (of_size f)) (content (disk fs) xs)))
     in (set_file fs fd (f\<lparr>of_offset := of_offset f + of_nat (length bs)\<rparr>), to_int (of_nat (length bs)), bs))"
proof -
  have "skip_read fs (of_first_sector f) (of_offset f div 508) 0 = head0 (drop (unat (of_offset f) div 508) xs)"
    using skip_read_chain [OF assms(4), of 0 "of_offset f div 508"] by (simp add: unat_div)
  with read_loop_chain [OF assms(4,5), of _ "of_offset f" count "[]"] assms(1-3) show ?thesis
    by (simp add: innofs_read_def Let_def)
qed

section \<open>Overlaying\<close>

definition overlay :: "u8 list \<Rightarrow> nat \<Rightarrow> u8 list \<Rightarrow> u8 list" where
  "overlay L p ys = take p L @ ys @ drop (p + length ys) L"

lemma length_overlay: "p + length ys \<le> length L \<Longrightarrow> length (overlay L p ys) = length L"
  by (simp add: overlay_def)

lemma overlay_Nil [simp]: "overlay L p [] = L"
  by (simp add: overlay_def)

lemma overlay_append: "p + length ys \<le> length L \<Longrightarrow> overlay L p ys @ M = overlay (L @ M) p ys"
  by (simp add: overlay_def)

lemma overlay_overlay:
  "p + length ys \<le> length L \<Longrightarrow> overlay (overlay L p ys) (p + length ys) zs = overlay L p (ys @ zs)"
  by (simp add: overlay_def ac_simps)

lemma overlay_in_left: "p + length ys \<le> length L \<Longrightarrow> overlay (L @ M) p ys = overlay L p ys @ M"
  by (simp add: overlay_def)

lemma overlay_in_right: "overlay (L @ M) (length L + p) ys = L @ overlay M p ys"
  by (simp add: overlay_def)

lemma bytes_at_blit_inside:
  assumes "pos \<le> p" and "p + length ys \<le> pos + n"
  shows "bytes_at (blit b p ys) pos n = overlay (bytes_at b pos n) (p - pos) ys"
proof (rule nth_equalityI)
  show "length (bytes_at (blit b p ys) pos n) = length (overlay (bytes_at b pos n) (p - pos) ys)"
    using assms by (simp add: length_overlay)
  fix i
  assume "i < length (bytes_at (blit b p ys) pos n)"
  then have i: "i < n" by simp
  consider "pos + i < p" | "p \<le> pos + i" "pos + i < p + length ys" | "p + length ys \<le> pos + i" by linarith
  then show "bytes_at (blit b p ys) pos n ! i = overlay (bytes_at b pos n) (p - pos) ys ! i"
  proof cases
    case 1
    then have "i < p - pos" by simp
    with 1 i show ?thesis by (simp add: overlay_def nth_append blit_def)
  next
    case 2
    then have "i - (p - pos) = pos + i - p" "\<not> i < p - pos" "pos + i - p < length ys"
      using assms by simp_all
    with 2 i assms show ?thesis by (simp add: overlay_def nth_append blit_def)
  next
    case 3
    then have "\<not> i < p - pos" "\<not> i - (p - pos) < length ys" using assms by simp_all
    moreover have "p - pos + length ys + (i - (p - pos) - length ys) = i" using 3 assms by simp
    ultimately show ?thesis using 3 i assms by (auto simp: overlay_def nth_append blit_def)
  qed
qed

lemma content_update:
  assumes "k < length xs" and "distinct xs" and "p + length ys \<le> 508"
  shows "content (d(xs ! k := blit (d (xs ! k)) (4 + p) ys)) xs = overlay (content d xs) (508 * k + p) ys"
  using assms(1,2)
proof (induction xs arbitrary: k)
  case (Cons x xs)
  show ?case
  proof (cases k)
    case 0
    have "content (d(x := blit (d x) (4 + p) ys)) xs = content d xs"
      using Cons.prems by (intro content_cong) auto
    moreover have "bytes_at (blit (d x) (4 + p) ys) 4 508 = overlay (bytes_at (d x) 4 508) p ys"
      using bytes_at_blit_inside [of 4 "4 + p" ys 508 "d x"] assms(3) by simp
    ultimately show ?thesis using 0 assms(3)
      by (simp add: overlay_in_left fun_upd_same del: fun_upd_apply)
  next
    case (Suc j)
    then have "x \<noteq> xs ! j" using Cons.prems by (auto simp: in_set_conv_nth)
    with Suc Cons show ?thesis
      using overlay_in_right [of "bytes_at (d x) 4 508" "content d xs" "508 * j + p" ys] by (simp add: add.assoc)
  qed
qed simp

section \<open>Well-formed files\<close>

text \<open>A file on a formatted disk: its chain, whose sectors are distinct data sectors marked in
  the bitmap.\<close>

definition file_ok :: "(u32 \<Rightarrow> buf) \<Rightarrow> u32 \<Rightarrow> u32 list \<Rightarrow> bool" where
  "file_ok d first xs \<longleftrightarrow> chain d first xs \<and> distinct xs
    \<and> (\<forall>x \<in> set xs. 19 \<le> x \<and> x < 8192 \<and> sector_bit d x)"

text \<open>What growing a file from \<open>xs\<close> to \<open>xs @ zs\<close> may do to the disk.\<close>

definition grows :: "(u32 \<Rightarrow> buf) \<Rightarrow> u32 list \<Rightarrow> u32 list \<Rightarrow> (u32 \<Rightarrow> buf) \<Rightarrow> bool" where
  "grows d xs zs d' \<longleftrightarrow> set zs \<subseteq> free_sectors d \<and> free_sectors d' = free_sectors d - set zs
    \<and> distinct zs \<and> (\<forall>s < 8192. sector_bit d s \<longrightarrow> sector_bit d' s)
    \<and> (\<forall>t. t \<notin> set xs \<union> set zs \<union> {1, 2} \<longrightarrow> d' t = d t)"

lemma grows_refl: "grows d xs [] d"
  by (simp add: grows_def)

lemma grows_trans:
  assumes "grows d xs zs d'" and "grows d' (xs @ zs) zs' d''"
  shows "grows d xs (zs @ zs') d''"
proof -
  from assms have "free_sectors d'' = free_sectors d - set (zs @ zs')" "set (zs @ zs') \<subseteq> free_sectors d"
    "distinct (zs @ zs')" by (auto simp: grows_def)
  with assms show ?thesis unfolding grows_def by auto
qed

text \<open>The other files do not notice.\<close>

lemma other_file:
  assumes "grows d xs zs d'" and "file_ok d first ys" and "set ys \<inter> set xs = {}"
  shows "file_ok d' first ys" and "content d' ys = content d ys"
proof -
  have same: "d' y = d y" if "y \<in> set ys" for y
  proof -
    have y: "19 \<le> y" "sector_bit d y" using assms(2) that by (auto simp: file_ok_def)
    then have "y \<noteq> 1" "y \<noteq> 2" by (auto simp: word_le_nat_alt)
    moreover have "y \<notin> set zs" using y assms(1) by (auto simp: grows_def free_sectors_def)
    ultimately show ?thesis using assms that by (auto simp: grows_def)
  qed
  then show "content d' ys = content d ys" by (intro content_cong) auto
  have "chain d' first ys = chain d first ys" using same by (intro chain_cong) simp
  with assms(1,2) show "file_ok d' first ys" by (auto simp: file_ok_def grows_def)
qed


section \<open>Extending a file\<close>

lemma bitmap_lba: "s < 8192 \<Longrightarrow> 1 + s div 4096 = 1 \<or> 1 + s div 4096 = (2 :: u32)"
proof -
  assume "s < 8192"
  then have "unat s div 4096 < 2" by (simp add: word_less_nat_alt div_less_iff_less_mult)
  then have "unat (s div 4096) = 0 \<or> unat (s div 4096) = 1" by (auto simp: unat_div)
  then have "s div 4096 = 0 \<or> s div 4096 = 1" by (metis unat_0 unat_1 word_unat_eq_iff)
  then show ?thesis by auto
qed

lemma sector_bit_data: "t < 8192 \<Longrightarrow> x \<noteq> 1 \<Longrightarrow> x \<noteq> 2 \<Longrightarrow> sector_bit (d(x := b)) t = sector_bit d t"
  using bitmap_lba [of t] by (auto simp: sector_bit_def)

lemma free_sectors_data: "x \<noteq> 1 \<Longrightarrow> x \<noteq> 2 \<Longrightarrow> free_sectors (d(x := b)) = free_sectors d"
  by (auto simp: free_sectors_def sector_bit_data)

lemma set_sector_bit_data: "s < 8192 \<Longrightarrow> x \<noteq> 1 \<Longrightarrow> x \<noteq> 2 \<Longrightarrow> set_sector_bit d s x = d x"
  using bitmap_lba [of s] by (auto simp: set_sector_bit_def Let_def)

lemma data_sector: "19 \<le> s \<Longrightarrow> s \<noteq> 0 \<and> s \<noteq> 1 \<and> s \<noteq> (2 :: u32)"
  by (auto simp: word_le_nat_alt)

lemma alloc_data_sector:
  assumes "fs_ok fs" and "free_sectors (disk fs) \<noteq> {}"
  obtains s where "s \<in> free_sectors (disk fs)" "19 \<le> s" "s < 8192"
    "bitmap_alloc_sector fs = (fs\<lparr>disk := set_sector_bit (disk fs) s\<rparr>, s)"
proof -
  let ?s = "Min (free_sectors (disk fs))"
  have "?s \<in> free_sectors (disk fs)" using assms(2) by simp
  moreover from this assms(1) have "19 \<le> ?s" by (auto simp: fs_ok_def free_sectors_def not_less [symmetric])
  moreover from calculation(1) have "?s < 8192" unfolding free_sectors_def by blast
  moreover have "bitmap_alloc_sector fs = (fs\<lparr>disk := set_sector_bit (disk fs) ?s\<rparr>, ?s)"
    using assms bitmap_alloc_spec [of fs] by (simp only: fs_ok_def if_False)
  ultimately show thesis by (rule that)
qed

lemma next_sector_put [simp]: "next_sector (put_u32 b 0 s) = s"
  by (simp add: next_sector_def get_put_u32)

lemma payload_put [simp]: "bytes_at (put_u32 b 0 s) 4 508 = bytes_at b 4 508"
  by (simp add: put_u32_def bytes_at_blit_other)

lemma zero_sector [simp]: "next_sector (\<lambda>_. 0) = 0" "bytes_at (\<lambda>_. 0) p n = replicate n 0"
  by (simp_all add: next_sector_def get_u32_def bytes_at_def map_replicate_const)

lemma chain_snoc:
  assumes "chain d first xs" and "distinct xs" and "s \<notin> set xs" and "s \<noteq> 0" and "xs \<noteq> []"
  shows "chain (d(last xs := put_u32 (d (last xs)) 0 s, s := (\<lambda>_. 0))) first (xs @ [s])"
  using assms
proof (induction xs arbitrary: first)
  case (Cons x xs)
  show ?case
  proof (cases "xs = []")
    case True
    with Cons.prems show ?thesis by simp
  next
    case False
    then have "last xs \<in> set xs" by simp
    with Cons.prems have "x \<noteq> last xs" "x \<noteq> s" by auto
    with False Cons show ?thesis by simp
  qed
qed simp

text \<open>A fresh sector at the end of a file, on the disk.\<close>

definition append_sector :: "(u32 \<Rightarrow> buf) \<Rightarrow> u32 list \<Rightarrow> u32 \<Rightarrow> (u32 \<Rightarrow> buf)" where
  "append_sector d xs s =
    (if xs = [] then (set_sector_bit d s)(s := (\<lambda>_. 0))
     else (set_sector_bit d s)(last xs := put_u32 (d (last xs)) 0 s, s := (\<lambda>_. 0)))"

lemma append_sector_spec:
  assumes ok: "file_ok d first xs" and s: "s \<in> free_sectors d" "19 \<le> s"
  defines "d' \<equiv> append_sector d xs s"
  shows "file_ok d' (if xs = [] then s else first) (xs @ [s])"
    and "content d' (xs @ [s]) = content d xs @ replicate 508 0"
    and "grows d xs [s] d'"
proof -
  have lt: "s < 8192" using s by (simp add: free_sectors_def)
  have xs: "19 \<le> x \<and> x < 8192 \<and> sector_bit d x \<and> x \<noteq> 1 \<and> x \<noteq> 2 \<and> x \<noteq> 0" if "x \<in> set xs" for x
    using ok that data_sector [of x] by (auto simp: file_ok_def)
  then have new: "s \<notin> set xs" using s by (auto simp: free_sectors_def)
  note ds = data_sector [OF s(2)]
  have same: "set_sector_bit d s x = d x" if "x \<in> set xs" for x
    using xs [OF that] lt by (intro set_sector_bit_data) auto
  have "last xs \<noteq> 1 \<and> last xs \<noteq> 2" if "xs \<noteq> []" using xs [of "last xs"] that by simp
  then have bits: "sector_bit d' t \<longleftrightarrow> t = s \<or> sector_bit d t" if "t < 8192" for t
    using that ds sector_bits.test_set [of d s t] by (auto simp: d'_def append_sector_def sector_bit_data)
  then have free: "free_sectors d' = free_sectors d - {s}" by (auto simp: free_sectors_def)
  have c: "chain (set_sector_bit d s) first xs"
    using ok same chain_cong [of xs "set_sector_bit d s" d first] by (simp add: file_ok_def)
  have "chain d' (if xs = [] then s else first) (xs @ [s])"
  proof (cases "xs = []")
    case False
    have "d' = (set_sector_bit d s)(last xs := put_u32 (set_sector_bit d s (last xs)) 0 s, s := (\<lambda>_. 0))"
      using False same [of "last xs"] by (simp add: d'_def append_sector_def)
    then show ?thesis using chain_snoc [OF c _ new _ False] ok ds False by (simp add: file_ok_def)
  qed (use ds in \<open>simp add: d'_def append_sector_def\<close>)
  then show "file_ok d' (if xs = [] then s else first) (xs @ [s])"
    using ok xs new bits lt s(2) by (auto simp: file_ok_def)
  have "content d' xs = content d xs"
  proof -
    have "bytes_at (d' x) 4 508 = bytes_at (d x) 4 508" if "x \<in> set xs" for x
      using that new same [OF that] by (auto simp: d'_def append_sector_def)
    then show ?thesis unfolding content_def by (metis (mono_tags, lifting) map_eq_conv)
  qed
  moreover have "d' s = (\<lambda>_. 0)" by (simp add: d'_def append_sector_def)
  ultimately show "content d' (xs @ [s]) = content d xs @ replicate 508 0" by (simp add: content_append)
  have "d' t = d t" if "t \<notin> set xs \<union> set [s] \<union> {1, 2}" for t
    using that lt by (auto simp: d'_def append_sector_def set_sector_bit_data)
  then show "grows d xs [s] d'" using s free bits by (auto simp: grows_def)
qed


lemma grows_fs_ok: "fs_ok fs \<Longrightarrow> grows (disk fs) xs zs d' \<Longrightarrow> fs_ok (fs\<lparr>disk := d'\<rparr>)"
  by (auto simp: fs_ok_def grows_def word_less_nat_alt)

lemma grows_card:
  assumes "grows d xs zs d'"
  shows "length zs + card (free_sectors d') = card (free_sectors d)"
proof -
  have "free_sectors d = set zs \<union> free_sectors d'" "set zs \<inter> free_sectors d' = {}"
    using assms by (auto simp: grows_def)
  moreover have "finite (free_sectors d')" by simp
  ultimately have "card (free_sectors d) = card (set zs) + card (free_sectors d')"
    by (metis List.finite_set card_Un_disjoint)
  moreover have "card (set zs) = length zs" using assms by (simp add: grows_def distinct_card)
  ultimately show ?thesis by simp
qed

text \<open>The step shared by the three places where a write may have to extend the file.\<close>

definition extended :: "innofs \<Rightarrow> u32 \<Rightarrow> u32 list \<Rightarrow> u32 list \<Rightarrow> (u32 \<Rightarrow> buf) \<Rightarrow> u8 list \<Rightarrow> bool" where
  "extended fs first xs zs d' C \<longleftrightarrow> file_ok d' first (xs @ zs) \<and> grows (disk fs) xs zs d' \<and> content d' (xs @ zs) = C"

lemma next_or_alloc_spec:
  assumes fs: "fs_ok fs" and ok: "file_ok (disk fs) first xs" and q: "q < length xs"
    and room: "Suc q < length xs + card (free_sectors (disk fs))"
  shows "\<exists>zs d'. next_or_alloc fs (xs ! q) = (fs\<lparr>disk := d'\<rparr>, (xs @ zs) ! Suc q)
    \<and> extended fs first xs zs d' (content (disk fs) xs @ replicate (508 * length zs) 0)
    \<and> Suc q < length (xs @ zs)"
proof (cases "Suc q < length xs")
  case True
  have c: "chain (disk fs) first xs" using ok by (simp add: file_ok_def)
  have "next_sector (disk fs (xs ! q)) = xs ! Suc q"
    using chain_next [OF c q] True by (simp add: head0_drop)
  moreover have "xs ! Suc q \<noteq> 0" using chain_nonzero [OF c] nth_mem [OF True] by metis
  ultimately have "next_or_alloc fs (xs ! q) = (fs\<lparr>disk := disk fs\<rparr>, (xs @ []) ! Suc q)"
    by (simp add: next_or_alloc_def)
  then show ?thesis using ok grows_refl True unfolding extended_def
    by (intro exI [of _ "[]"] exI [of _ "disk fs"]) simp
next
  case False
  then have sq: "Suc q = length xs" and ne: "xs \<noteq> []" using q by auto
  then have cur: "xs ! q = last xs" by (simp add: last_conv_nth flip: sq)
  have c: "chain (disk fs) first xs" using ok by (simp add: file_ok_def)
  have nx: "next_sector (disk fs (xs ! q)) = 0" using chain_next [OF c q] sq by simp
  have "free_sectors (disk fs) \<noteq> {}" using room sq by auto
  from alloc_data_sector [OF fs this] obtain s where s: "s \<in> free_sectors (disk fs)" "19 \<le> s"
    and alloc: "bitmap_alloc_sector fs = (fs\<lparr>disk := set_sector_bit (disk fs) s\<rparr>, s)" by metis
  let ?d = "append_sector (disk fs) xs s"
  have "next_or_alloc fs (xs ! q) = (fs\<lparr>disk := ?d\<rparr>, (xs @ [s]) ! Suc q)"
    using nx alloc cur ne sq
    by (simp add: next_or_alloc_def write_sector_def append_sector_def Let_def nth_append)
  with append_sector_spec [OF ok s] ne sq show ?thesis unfolding extended_def
    by (intro exI [of _ "[s]"] exI [of _ ?d]) simp
qed

lemma extended_trans:
  assumes "extended fs first xs zs d' C" and "extended (fs\<lparr>disk := d'\<rparr>) first (xs @ zs) zs' d'' C'"
  shows "extended fs first xs (zs @ zs') d'' C'"
  using assms grows_trans [of "disk fs" xs zs d' zs' d''] by (simp add: extended_def)

text \<open>Overwriting part of one sector.\<close>

lemma write_in_sector:
  assumes fs: "fs_ok fs" and ok: "file_ok (disk fs) first xs" and q: "q < length xs"
    and p: "p + length ys \<le> 508"
  defines "d' \<equiv> (disk fs)(xs ! q := blit (disk fs (xs ! q)) (DATA_OFFSET + p) ys)"
  shows "extended fs first xs [] d' (overlay (content (disk fs) xs) (508 * q + p) ys)"
proof -
  have x: "xs ! q \<in> set xs" using q by simp
  then have n12: "xs ! q \<noteq> 1" "xs ! q \<noteq> 2" using ok data_sector by (auto simp: file_ok_def)
  have "next_sector (d' x) = next_sector (disk fs x)" for x
    by (auto simp: d'_def next_sector_def get_u32_def blit_other DATA_OFFSET_def)
  then have "chain d' first xs" using ok chain_cong [of xs d' "disk fs" first] by (simp add: file_ok_def)
  moreover have bits: "sector_bit d' t = sector_bit (disk fs) t" if "t < 8192" for t
    using that n12 by (simp add: d'_def sector_bit_data)
  ultimately have "file_ok d' first xs" using ok by (simp add: file_ok_def)
  moreover have "content d' xs = overlay (content (disk fs) xs) (508 * q + p) ys"
    using content_update [OF q _ p, of "disk fs"] ok by (simp add: file_ok_def d'_def DATA_OFFSET_def)
  moreover have "grows (disk fs) xs [] d'"
    using x bits free_sectors_data [OF n12] by (auto simp: grows_def d'_def)
  ultimately show ?thesis by (simp add: extended_def)
qed

lemma write_loop_Nil: "write_loop fs cur offset sz [] = (fs, offset, sz)"
  by (subst write_loop.simps) simp

text \<open>The write loop overlays its bytes on the content, extended as far as needed.\<close>

lemma write_loop_spec:
  assumes "fs_ok fs" and "file_ok (disk fs) first xs" and "ys \<noteq> []"
    and "unat offset div 508 < length xs" and "cur = xs ! (unat offset div 508)"
    and "unat offset + length ys < 2 ^ 32"
    and "unat offset + length ys \<le> 508 * (length xs + card (free_sectors (disk fs)))"
  shows "\<exists>zs d'. write_loop fs cur offset sz ys =
      (fs\<lparr>disk := d'\<rparr>, offset + of_nat (length ys), max sz (offset + of_nat (length ys)))
    \<and> extended fs first xs zs d'
        (overlay (content (disk fs) xs @ replicate (508 * length zs) 0) (unat offset) ys)
    \<and> unat offset + length ys \<le> 508 * length (xs @ zs)"
  using assms
proof (induction fs cur offset sz ys arbitrary: xs rule: write_loop.induct)
  case (1 fs cur offset sz ys)
  let ?p = "unat offset" and ?q = "unat offset div 508" and ?d = "disk fs"
  let ?n = "write_chunk offset (length ys)"
  let ?A = "take ?n ys" and ?B = "drop ?n ys"
  have m: "unat (offset mod 508) = ?p mod 508" by (simp add: unat_mod)
  have n: "?n \<le> length ys" "?p mod 508 + ?n \<le> 508" "0 < ?n"
    using write_chunk_pos [of "length ys" offset] "1.prems"(3) by (auto simp: write_chunk_def m)
  have rest: "?B = []" if "?p mod 508 + ?n \<noteq> 508"
  proof -
    have "?p mod 508 < 508" by simp
    with that show ?thesis by (auto simp: write_chunk_def m min_def split: if_splits)
  qed
  have A: "length ?A = ?n" using n by simp
  have pq: "508 * ?q + ?p mod 508 = ?p" by simp
  let ?d1 = "?d(cur := blit (?d cur) (DATA_OFFSET + unat (offset mod 508)) ?A)"
  let ?fs1 = "fs\<lparr>disk := ?d1\<rparr>"
  let ?C = "content ?d xs"
  have e1: "extended fs first xs [] ?d1 (overlay ?C ?p ?A)"
    using write_in_sector [OF "1.prems"(1,2,4), of "?p mod 508" ?A] n A by (simp only: "1.prems"(5) m pq)
  let ?o1 = "offset + of_nat ?n" and ?sz1 = "if offset + of_nat ?n > sz then offset + of_nat ?n else sz"
  have o1: "unat ?o1 = ?p + ?n"
  proof -
    have "unat (of_nat ?n :: u32) = ?n" using n "1.prems"(6) by (simp add: unat_of_nat take_bit_nat_eq_self)
    with n "1.prems"(6) show ?thesis using unat_add_no_wrap [of offset "of_nat ?n"] by simp
  qed
  have inC: "?p + ?n \<le> length ?C"
  proof -
    have "508 * ?q + 508 \<le> 508 * length xs" using "1.prems"(4) by simp
    moreover have "?p + ?n \<le> 508 * ?q + 508" using n(2) pq by linarith
    ultimately show ?thesis by simp
  qed
  have unfold: "write_loop fs cur offset sz ys =
      (let (fs2, cur2) = (if ?p mod 508 + ?n = 508 \<and> ?B \<noteq> [] then next_or_alloc ?fs1 cur else (?fs1, cur))
       in write_loop fs2 cur2 ?o1 ?sz1 ?B)"
    using "1.prems"(3) by (subst write_loop.simps) (simp add: Let_def write_sector_def m)
  show ?case
  proof (cases "?B = []")
    case True
    then have all: "?n = length ys" "?A = ys" using n by auto
    have "write_loop fs cur offset sz ys = (?fs1, ?o1, ?sz1)"
      by (simp only: unfold True simp_thms if_False Let_def prod.case write_loop_Nil)
    moreover have "?sz1 = max sz ?o1" by (auto simp: max_def not_less)
    ultimately show ?thesis using e1 inC all
      by (intro exI [of _ "[]"] exI [of _ ?d1]) (simp del: fun_upd_apply)
  next
    case False
    then have full: "?p mod 508 + ?n = 508" using rest by blast
    have e1': "file_ok ?d1 first xs" "grows ?d xs [] ?d1" "content ?d1 xs = overlay ?C ?p ?A"
      using e1 by (simp_all add: extended_def)
    have fs1: "fs_ok ?fs1" by (rule grows_fs_ok [OF "1.prems"(1) e1'(2)])
    have card1: "card (free_sectors ?d1) = card (free_sectors ?d)" using grows_card [OF e1'(2)] by simp
    have o1q: "unat ?o1 div 508 = Suc ?q" using div_mod_step [of ?p ?n] full o1 by simp
    have lenB: "length ?B = length ys - ?n" by simp
    have "508 * Suc ?q = ?p + ?n" unfolding mult_Suc_right using full pq by linarith
    then have "508 * Suc ?q < ?p + length ys" using False n by simp
    then have room: "Suc ?q < length xs + card (free_sectors (disk ?fs1))"
      using "1.prems"(7) card1 by simp
    have ok1: "file_ok (disk ?fs1) first xs" using e1'(1) by simp
    from next_or_alloc_spec [OF fs1 ok1 "1.prems"(4) room] obtain zs d2 where
      nx: "next_or_alloc ?fs1 cur = (?fs1\<lparr>disk := d2\<rparr>, (xs @ zs) ! Suc ?q)"
      and e2: "extended ?fs1 first xs zs d2 (content ?d1 xs @ replicate (508 * length zs) 0)"
      and q2: "Suc ?q < length (xs @ zs)" unfolding "1.prems"(5) by auto
    let ?fs2 = "fs\<lparr>disk := d2\<rparr>"
    from e2 have e2': "file_ok d2 first (xs @ zs)" "grows ?d1 xs zs d2"
      "content d2 (xs @ zs) = content ?d1 xs @ replicate (508 * length zs) 0" by (simp_all add: extended_def)
    have fs2: "fs_ok ?fs2" using grows_fs_ok [OF fs1, of xs zs d2] e2'(2) by simp
    have l: "write_loop fs cur offset sz ys = write_loop ?fs2 ((xs @ zs) ! Suc ?q) ?o1 ?sz1 ?B"
      using full False nx by (simp add: unfold)
    have card2: "length (xs @ zs) + card (free_sectors d2) = length xs + card (free_sectors ?d)"
      using grows_card [OF e2'(2)] card1 by simp
    have "\<exists>zs' d'. write_loop ?fs2 ((xs @ zs) ! Suc ?q) ?o1 ?sz1 ?B =
        (?fs2\<lparr>disk := d'\<rparr>, ?o1 + of_nat (length ?B), max ?sz1 (?o1 + of_nat (length ?B)))
      \<and> extended ?fs2 first (xs @ zs) zs' d'
          (overlay (content (disk ?fs2) (xs @ zs) @ replicate (508 * length zs') 0) (unat ?o1) ?B)
      \<and> unat ?o1 + length ?B \<le> 508 * length ((xs @ zs) @ zs')"
    proof (rule "1.IH" [OF "1.prems"(3) refl refl refl refl refl refl _ refl])
      show "(?fs2, (xs @ zs) ! Suc ?q) =
        (if unat (offset mod 508) + ?n = 508 \<and> ?B \<noteq> []
         then next_or_alloc (write_sector fs cur
            (blit (?d cur) (DATA_OFFSET + unat (offset mod 508)) ?A)) cur
         else (write_sector fs cur (blit (?d cur) (DATA_OFFSET + unat (offset mod 508)) ?A), cur))"
        using nx full False by (simp add: m write_sector_def)
      show "unat ?o1 + length ?B < 2 ^ 32" using "1.prems"(6) n(1) by (simp add: o1)
      show "unat ?o1 + length ?B \<le> 508 * (length (xs @ zs) + card (free_sectors (disk ?fs2)))"
        using "1.prems"(7) n(1) card2 by (simp add: o1)
    qed (use fs2 e2'(1) False q2 o1q in simp_all)
    then obtain zs' d' where ih: "write_loop ?fs2 ((xs @ zs) ! Suc ?q) ?o1 ?sz1 ?B =
        (?fs2\<lparr>disk := d'\<rparr>, ?o1 + of_nat (length ?B), max ?sz1 (?o1 + of_nat (length ?B)))"
      "extended ?fs2 first (xs @ zs) zs' d'
          (overlay (content d2 (xs @ zs) @ replicate (508 * length zs') 0) (unat ?o1) ?B)"
      "unat ?o1 + length ?B \<le> 508 * length ((xs @ zs) @ zs')" by auto
    have sum: "?o1 + of_nat (length ?B) = offset + of_nat (length ys)"
      using n(1) by (simp add: of_nat_diff)
    have "extended fs first xs (zs @ zs') d'
        (overlay (content d2 (xs @ zs) @ replicate (508 * length zs') 0) (unat ?o1) ?B)"
    proof -
      have "extended fs first xs zs d2 (content d2 (xs @ zs))"
        using extended_trans [OF e1, of zs d2] e2 e2'(3) by simp
      from extended_trans [OF this ih(2)] show ?thesis .
    qed
    moreover have "overlay (content d2 (xs @ zs) @ replicate (508 * length zs') 0) (unat ?o1) ?B =
        overlay (?C @ replicate (508 * length (zs @ zs')) 0) ?p ys"
    proof -
      let ?Z = "replicate (508 * length (zs @ zs')) 0 :: u8 list"
      have Z: "replicate (508 * length zs) 0 @ replicate (508 * length zs') 0 = ?Z"
        by (simp add: replicate_add distrib_left)
      have "(content d2 (xs @ zs)) @ replicate (508 * length zs') 0 = overlay (?C @ ?Z) ?p ?A"
        using inC A by (simp add: e2'(3) e1'(3) overlay_append Z)
      moreover have "overlay (overlay (?C @ ?Z) ?p ?A) (?p + length ?A) ?B = overlay (?C @ ?Z) ?p (?A @ ?B)"
        using inC A by (intro overlay_overlay) simp
      ultimately show ?thesis using A by (simp add: o1)
    qed
    moreover have "max ?sz1 (?o1 + of_nat (length ?B)) = max sz (offset + of_nat (length ys))"
    proof -
      have "unat (offset + of_nat (length ys)) = ?p + length ys"
        using "1.prems"(6) unat_add_no_wrap [of offset "of_nat (length ys)"]
        by (simp add: unat_of_nat take_bit_nat_eq_self)
      then have "?o1 \<le> offset + of_nat (length ys)" using o1 n(1) by (simp add: word_le_nat_alt)
      then show ?thesis unfolding sum by (auto simp: max_def)
    qed
    ultimately show ?thesis using l ih(1,3) n(1)
      by (intro exI [of _ "zs @ zs'"] exI [of _ d']) (simp add: sum o1)
  qed
qed


lemma skip_write_spec:
  assumes "fs_ok fs" and "file_ok (disk fs) first xs" and "i \<le> n" and "cur = xs ! unat i"
    and "unat i < length xs" and "unat n < length xs + card (free_sectors (disk fs))"
  shows "\<exists>zs d'. skip_write fs cur n i = (fs\<lparr>disk := d'\<rparr>, (xs @ zs) ! unat n)
    \<and> extended fs first xs zs d' (content (disk fs) xs @ replicate (508 * length zs) 0)
    \<and> unat n < length (xs @ zs)"
  using assms
proof (induction fs cur n i arbitrary: xs rule: skip_write.induct)
  case (1 fs cur n i)
  show ?case
  proof (cases "i < n")
    case False
    then have "i = n" using "1.prems"(3) by simp
    then have "skip_write fs cur n i = (fs\<lparr>disk := disk fs\<rparr>, (xs @ []) ! unat n)"
      using "1.prems"(4) by (subst skip_write.simps) simp
    then show ?thesis using "1.prems" \<open>i = n\<close> grows_refl
      by (intro exI [of _ "[]"] exI [of _ "disk fs"]) (simp add: extended_def)
  next
    case True
    then have i1: "unat (i + 1) = Suc (unat i)" using unat_plus_1 [of i n] by simp
    have lt: "unat i < unat n" using True by (simp add: word_less_nat_alt)
    have "Suc (unat i) < length xs + card (free_sectors (disk fs))" using lt "1.prems"(6) by linarith
    from next_or_alloc_spec [OF "1.prems"(1,2,5) this] obtain zs d1 where
      nx: "next_or_alloc fs cur = (fs\<lparr>disk := d1\<rparr>, (xs @ zs) ! Suc (unat i))"
      and e1: "extended fs first xs zs d1 (content (disk fs) xs @ replicate (508 * length zs) 0)"
      and q1: "Suc (unat i) < length (xs @ zs)" unfolding "1.prems"(4) by auto
    let ?fs1 = "fs\<lparr>disk := d1\<rparr>"
    from e1 have e1': "file_ok d1 first (xs @ zs)" "grows (disk fs) xs zs d1"
      "content d1 (xs @ zs) = content (disk fs) xs @ replicate (508 * length zs) 0" by (simp_all add: extended_def)
    have "\<exists>zs' d'. skip_write ?fs1 ((xs @ zs) ! Suc (unat i)) n (i + 1) =
        (?fs1\<lparr>disk := d'\<rparr>, ((xs @ zs) @ zs') ! unat n)
      \<and> extended ?fs1 first (xs @ zs) zs' d' (content (disk ?fs1) (xs @ zs) @ replicate (508 * length zs') 0)
      \<and> unat n < length ((xs @ zs) @ zs')"
    proof (rule "1.IH" [OF True nx [symmetric]])
      show "fs_ok ?fs1" by (rule grows_fs_ok [OF "1.prems"(1) e1'(2)])
      show "i + 1 \<le> n" using i1 lt by (simp add: word_le_nat_alt)
      show "unat n < length (xs @ zs) + card (free_sectors (disk ?fs1))"
        using "1.prems"(6) grows_card [OF e1'(2)] by simp
    qed (use e1'(1) i1 q1 in simp_all)
    then obtain zs' d' where ih: "skip_write ?fs1 ((xs @ zs) ! Suc (unat i)) n (i + 1) =
        (?fs1\<lparr>disk := d'\<rparr>, ((xs @ zs) @ zs') ! unat n)"
      "extended ?fs1 first (xs @ zs) zs' d' (content d1 (xs @ zs) @ replicate (508 * length zs') 0)"
      "unat n < length ((xs @ zs) @ zs')" by auto
    have "content d1 (xs @ zs) @ replicate (508 * length zs') 0 =
        content (disk fs) xs @ replicate (508 * length (zs @ zs')) 0"
      by (simp add: e1'(3) replicate_add distrib_left)
    with extended_trans [OF e1 ih(2)]
    have "extended fs first xs (zs @ zs') d' (content (disk fs) xs @ replicate (508 * length (zs @ zs')) 0)"
      by simp
    moreover have "skip_write fs cur n i = (fs\<lparr>disk := d'\<rparr>, (xs @ (zs @ zs')) ! unat n)"
      using True nx ih(1) by (subst skip_write.simps) simp
    ultimately show ?thesis using ih(3) by (intro exI [of _ "zs @ zs'"] exI [of _ d']) simp
  qed
qed

text \<open>A write from the first data sector on, once there is one.\<close>

lemma write_from_first:
  assumes fs: "fs_ok fs" and ok: "file_ok (disk fs) first xs" and xs: "xs \<noteq> []" and ys: "ys \<noteq> []"
    and len: "unat offset + length ys < 2 ^ 32"
    and room: "unat offset + length ys \<le> 508 * (length xs + card (free_sectors (disk fs)))"
  shows "\<exists>zs d' fs3 cur. skip_write fs first (offset div 508) 0 = (fs3, cur)
    \<and> write_loop fs3 cur offset sz ys =
        (fs\<lparr>disk := d'\<rparr>, offset + of_nat (length ys), max sz (offset + of_nat (length ys)))
    \<and> extended fs first xs zs d'
        (overlay (content (disk fs) xs @ replicate (508 * length zs) 0) (unat offset) ys)
    \<and> unat offset + length ys \<le> 508 * length (xs @ zs)"
proof -
  let ?C = "content (disk fs) xs" and ?q = "unat offset div 508"
  have q: "unat (offset div 508) = ?q" by (simp add: unat_div)
  have "chain (disk fs) first xs" using ok by (simp add: file_ok_def)
  then have first: "first = xs ! unat (0 :: u32)" using xs chain_head [of "disk fs" first xs]
    by (cases xs) simp_all
  have "508 * ?q \<le> unat offset" by simp
  moreover have "unat offset < unat offset + length ys" using ys by simp
  ultimately have "508 * ?q < 508 * (length xs + card (free_sectors (disk fs)))" using room by linarith
  then have n: "unat (offset div 508) < length xs + card (free_sectors (disk fs))" by (simp add: q)
  from skip_write_spec [OF fs ok _ first _ n] xs obtain zs d1 where
    sk: "skip_write fs first (offset div 508) 0 = (fs\<lparr>disk := d1\<rparr>, (xs @ zs) ! ?q)"
    and e1: "extended fs first xs zs d1 (?C @ replicate (508 * length zs) 0)"
    and q1: "?q < length (xs @ zs)" by (auto simp: q)
  let ?fs1 = "fs\<lparr>disk := d1\<rparr>"
  from e1 have e1': "file_ok d1 first (xs @ zs)" "grows (disk fs) xs zs d1"
    "content d1 (xs @ zs) = ?C @ replicate (508 * length zs) 0" by (simp_all add: extended_def)
  have fs1: "fs_ok ?fs1" by (rule grows_fs_ok [OF fs e1'(2)])
  have "unat offset + length ys \<le> 508 * (length (xs @ zs) + card (free_sectors (disk ?fs1)))"
    using room grows_card [OF e1'(2)] by simp
  from write_loop_spec [OF fs1 _ ys q1 refl len this, of first sz] e1'(1) obtain zs' d' where
    wl: "write_loop ?fs1 ((xs @ zs) ! ?q) offset sz ys =
      (?fs1\<lparr>disk := d'\<rparr>, offset + of_nat (length ys), max sz (offset + of_nat (length ys)))"
    and e2: "extended ?fs1 first (xs @ zs) zs' d'
        (overlay (content d1 (xs @ zs) @ replicate (508 * length zs') 0) (unat offset) ys)"
    and fit: "unat offset + length ys \<le> 508 * length ((xs @ zs) @ zs')" by auto
  have "content d1 (xs @ zs) @ replicate (508 * length zs') 0 = ?C @ replicate (508 * length (zs @ zs')) 0"
    by (simp add: e1'(3) replicate_add distrib_left)
  with extended_trans [OF e1 e2]
  have "extended fs first xs (zs @ zs') d'
      (overlay (?C @ replicate (508 * length (zs @ zs')) 0) (unat offset) ys)" by simp
  with sk wl fit show ?thesis
    by (intro exI [of _ "zs @ zs'"] exI [of _ d'] exI [of _ ?fs1] exI [of _ "(xs @ zs) ! ?q"]) simp
qed

lemma innofs_write_chain:
  assumes valid: "valid_fd fs fd" and f: "f = g_open_files fs ! nat fd"
    and mode: "of_mode f AND VFS_MODE_WRITE \<noteq> 0" and fs: "fs_ok fs"
    and ok: "file_ok (disk fs) (of_first_sector f) xs" and ys: "ys \<noteq> []"
    and len: "unat (of_offset f) + length ys < 2 ^ 32"
    and room: "unat (of_offset f) + length ys \<le> 508 * (length xs + card (free_sectors (disk fs)))"
  shows "\<exists>zs d' first. innofs_write fs fd ys =
      (set_file (fs\<lparr>disk := d'\<rparr>) fd (f\<lparr>of_first_sector := first,
          of_offset := of_offset f + of_nat (length ys),
          of_size := max (of_size f) (of_offset f + of_nat (length ys))\<rparr>), to_int (of_nat (length ys)))
    \<and> extended fs first xs zs d'
        (overlay (content (disk fs) xs @ replicate (508 * length zs) 0) (unat (of_offset f)) ys)
    \<and> unat (of_offset f) + length ys \<le> 508 * length (xs @ zs)"
proof (cases "xs = []")
  case False
  have c: "chain (disk fs) (of_first_sector f) xs" using ok by (simp add: file_ok_def)
  with False have nz: "of_first_sector f \<noteq> 0" using chain_nonzero [OF c] chain_head [OF c] by (cases xs) auto
  from write_from_first [OF fs ok False ys len room, of "of_size f"] obtain zs d' fs3 cur where
    "skip_write fs (of_first_sector f) (of_offset f div 508) 0 = (fs3, cur)"
    "write_loop fs3 cur (of_offset f) (of_size f) ys =
      (fs\<lparr>disk := d'\<rparr>, of_offset f + of_nat (length ys), max (of_size f) (of_offset f + of_nat (length ys)))"
    and r: "extended fs (of_first_sector f) xs zs d'
        (overlay (content (disk fs) xs @ replicate (508 * length zs) 0) (unat (of_offset f)) ys)"
      "unat (of_offset f) + length ys \<le> 508 * length (xs @ zs)" by blast
  then have "innofs_write fs fd ys =
      (set_file (fs\<lparr>disk := d'\<rparr>) fd (f\<lparr>of_first_sector := of_first_sector f,
          of_offset := of_offset f + of_nat (length ys),
          of_size := max (of_size f) (of_offset f + of_nat (length ys))\<rparr>), to_int (of_nat (length ys)))"
    using valid mode nz by (simp add: innofs_write_def f [symmetric] Let_def)
  with r show ?thesis by blast
next
  case True
  with ok have z: "of_first_sector f = 0" by (simp add: file_ok_def)
  from room ys True have "free_sectors (disk fs) \<noteq> {}" by auto
  from alloc_data_sector [OF fs this] obtain s where s: "s \<in> free_sectors (disk fs)" "19 \<le> s"
    and alloc: "bitmap_alloc_sector fs = (fs\<lparr>disk := set_sector_bit (disk fs) s\<rparr>, s)" by metis
  let ?d = "append_sector (disk fs) [] s" and ?fs1 = "fs\<lparr>disk := append_sector (disk fs) [] s\<rparr>"
  have ok0: "file_ok (disk fs) 0 []" by (simp add: file_ok_def)
  note ap = append_sector_spec [OF ok0 s, simplified]
  have fs1: "fs_ok ?fs1" by (rule grows_fs_ok [OF fs ap(3)])
  have "unat (of_offset f) + length ys \<le> 508 * (length [s] + card (free_sectors (disk ?fs1)))"
    using room True grows_card [OF ap(3)] by simp
  from write_from_first [OF fs1 _ _ ys len this, of s "of_size f"] ap(1) obtain zs d' fs3 cur where
    sk: "skip_write ?fs1 s (of_offset f div 508) 0 = (fs3, cur)"
    and wl: "write_loop fs3 cur (of_offset f) (of_size f) ys =
      (?fs1\<lparr>disk := d'\<rparr>, of_offset f + of_nat (length ys), max (of_size f) (of_offset f + of_nat (length ys)))"
    and e: "extended ?fs1 s [s] zs d'
        (overlay (content ?d [s] @ replicate (508 * length zs) 0) (unat (of_offset f)) ys)"
    and fit: "unat (of_offset f) + length ys \<le> 508 * length ([s] @ zs)" by auto
  have "write_sector (fs\<lparr>disk := set_sector_bit (disk fs) s\<rparr>) s (\<lambda>_. 0) = ?fs1"
    by (simp add: write_sector_def append_sector_def)
  with sk wl valid mode z alloc data_sector [OF s(2)] have w: "innofs_write fs fd ys =
      (set_file (fs\<lparr>disk := d'\<rparr>) fd (f\<lparr>of_first_sector := s,
          of_offset := of_offset f + of_nat (length ys),
          of_size := max (of_size f) (of_offset f + of_nat (length ys))\<rparr>), to_int (of_nat (length ys)))"
    by (simp add: innofs_write_def f [symmetric] Let_def)
  have "extended fs s [] [s] ?d (replicate 508 0)" using ap by (simp add: extended_def)
  from extended_trans [OF this, of zs d'] e have "extended fs s xs (s # zs) d'
      (overlay (content (disk fs) xs @ replicate (508 * length (s # zs)) 0) (unat (of_offset f)) ys)"
    using True ap(2) by (simp add: replicate_add)
  with w fit True show ?thesis by (intro exI [of _ "s # zs"] exI [of _ d'] exI [of _ s]) simp
qed


section \<open>Properties of reading and writing\<close>

text \<open>C20. \<open>innofs_read\<close> returns exactly the bytes of the file from the offset on, as many as asked
  for and present, moves the offset by their number and leaves the disk and the other
  descriptors alone; it ends for every request.\<close>

theorem innofs_read_correct:
  assumes valid: "valid_fd fs fd" and f: "f = g_open_files fs ! nat fd"
    and mode: "of_mode f AND VFS_MODE_READ \<noteq> 0"
    and ch: "chain (disk fs) (of_first_sector f) xs" "unat (of_size f) \<le> 508 * length xs"
  shows "\<exists>bs. innofs_read fs fd count =
      (set_file fs fd (f\<lparr>of_offset := of_offset f + of_nat (length bs)\<rparr>), to_int (of_nat (length bs)), bs)
    \<and> bs = take (unat count) (drop (unat (of_offset f)) (take (unat (of_size f)) (content (disk fs) xs)))
    \<and> length bs = min (unat count) (unat (of_size f) - unat (of_offset f))"
  using innofs_read_chain [OF valid f mode ch, of count] ch(2) by (auto simp: Let_def min.absorb2)

definition one_file :: "u32 \<Rightarrow> u32 \<Rightarrow> innofs" where
  "one_file sz first = (mkfs_layout blank)\<lparr>g_open_files := [opened (3, 0) sz first 7]\<rparr>"

theorem innofs_read_correct_witness:
  "snd (snd (innofs_read (write_sector (one_file 5 19) 19 (blit (\<lambda>_. 0) 4 (cs ''hello''))) 0 3)) = cs ''hel''"
proof -
  let ?b = "blit (\<lambda>_. 0) 4 (cs ''hello'')" and ?f = "opened (3, 0) 5 19 7"
  let ?fs = "write_sector (one_file 5 19) 19 ?b"
  have "next_sector ?b = 0" by (simp add: next_sector_def get_u32_def blit_other)
  then have c: "chain (disk ?fs) (of_first_sector ?f) [19]" by (simp add: write_sector_def opened_def)
  have v: "valid_fd ?fs 0" "?f = g_open_files ?fs ! nat 0" "of_mode ?f AND VFS_MODE_READ \<noteq> 0"
    "unat (of_size ?f) \<le> 508 * length [19 :: u32]"
    by (simp_all add: valid_fd_def write_sector_def one_file_def opened_def MAX_OPEN_FILES_def VFS_MODE_READ_def)
  have "content (disk ?fs) [19] = bytes_at ?b 4 508" by (simp add: write_sector_def)
  also have "\<dots> = bytes_at ?b 4 5 @ bytes_at ?b 9 503" using bytes_at_add [of ?b 4 5 503] by simp
  also have "bytes_at ?b 4 5 = cs ''hello''" by (rule bytes_at_blit) simp
  finally have "take 3 (drop 0 (take 5 (content (disk ?fs) [19]))) = cs ''hel''" by simp
  with innofs_read_correct [OF v(1-3) c v(4), of 3] show ?thesis by (auto simp: opened_def)
qed

text \<open>C2. As long as the bitmap has room, \<open>innofs_write\<close> stores all its bytes: the content of the
  file becomes the old one, extended with zeros as needed, with the bytes laid over it at the
  offset; size and offset are updated; new sectors come from the free ones; every other file,
  and every sector outside the file and the bitmap, keeps its contents.\<close>

theorem innofs_write_correct:
  assumes valid: "valid_fd fs fd" and f: "f = g_open_files fs ! nat fd"
    and mode: "of_mode f AND VFS_MODE_WRITE \<noteq> 0" and fs: "fs_ok fs"
    and ok: "file_ok (disk fs) (of_first_sector f) xs" and ys: "ys \<noteq> []"
    and len: "unat (of_offset f) + length ys < 2 ^ 32"
    and room: "unat (of_offset f) + length ys \<le> 508 * (length xs + card (free_sectors (disk fs)))"
  shows "\<exists>zs d' first. innofs_write fs fd ys =
      (set_file (fs\<lparr>disk := d'\<rparr>) fd (f\<lparr>of_first_sector := first,
          of_offset := of_offset f + of_nat (length ys),
          of_size := max (of_size f) (of_offset f + of_nat (length ys))\<rparr>), to_int (of_nat (length ys)))
    \<and> file_ok d' first (xs @ zs) \<and> fs_ok (fs\<lparr>disk := d'\<rparr>)
    \<and> content d' (xs @ zs) =
        overlay (content (disk fs) xs @ replicate (508 * length zs) 0) (unat (of_offset f)) ys
    \<and> set zs \<subseteq> free_sectors (disk fs) \<and> free_sectors d' = free_sectors (disk fs) - set zs
    \<and> (\<forall>t. t \<notin> set xs \<union> set zs \<union> {1, 2} \<longrightarrow> d' t = disk fs t)
    \<and> (\<forall>first' ws. file_ok (disk fs) first' ws \<longrightarrow> set ws \<inter> set xs = {} \<longrightarrow>
        file_ok d' first' ws \<and> content d' ws = content (disk fs) ws)"
proof -
  obtain zs d' first where w: "innofs_write fs fd ys =
      (set_file (fs\<lparr>disk := d'\<rparr>) fd (f\<lparr>of_first_sector := first,
          of_offset := of_offset f + of_nat (length ys),
          of_size := max (of_size f) (of_offset f + of_nat (length ys))\<rparr>), to_int (of_nat (length ys)))"
    and e: "file_ok d' first (xs @ zs)" "grows (disk fs) xs zs d'" "content d' (xs @ zs) =
        overlay (content (disk fs) xs @ replicate (508 * length zs) 0) (unat (of_offset f)) ys"
    using innofs_write_chain [OF assms] unfolding extended_def by (elim exE conjE) (rule that)
  from e(2) have g: "set zs \<subseteq> free_sectors (disk fs)" "free_sectors d' = free_sectors (disk fs) - set zs"
    "\<forall>t. t \<notin> set xs \<union> set zs \<union> {1, 2} \<longrightarrow> d' t = disk fs t" by (simp_all add: grows_def)
  have others: "\<forall>first' ws. file_ok (disk fs) first' ws \<longrightarrow> set ws \<inter> set xs = {} \<longrightarrow>
      file_ok d' first' ws \<and> content d' ws = content (disk fs) ws"
    using other_file [OF e(2)] by simp
  show ?thesis
    by (rule exI [of _ zs], rule exI [of _ d'], rule exI [of _ first])
      (intro conjI w e(1,3) g others grows_fs_ok [OF fs e(2)])
qed

theorem innofs_write_correct_witness:
  "\<exists>zs d' first. innofs_write (one_file 0 0) 0 (cs ''hello'') =
      (set_file ((one_file 0 0)\<lparr>disk := d'\<rparr>) 0 ((opened (3, 0) 0 0 7)\<lparr>of_first_sector := first,
          of_offset := 5, of_size := 5\<rparr>), 5)
    \<and> content d' zs = overlay (replicate (508 * length zs) 0) 0 (cs ''hello'')"
proof -
  let ?f = "opened (3, 0) 0 0 7"
  have v: "valid_fd (one_file 0 0) 0" "?f = g_open_files (one_file 0 0) ! nat 0"
    "of_mode ?f AND VFS_MODE_WRITE \<noteq> 0"
    by (simp_all add: valid_fd_def one_file_def opened_def MAX_OPEN_FILES_def VFS_MODE_WRITE_def)
  have fs: "fs_ok (one_file 0 0)" using formatted_fs_ok [of blank] by (simp add: fs_ok_def one_file_def)
  have ok: "file_ok (disk (one_file 0 0)) (of_first_sector ?f) []" by (simp add: file_ok_def opened_def)
  have room: "unat (of_offset ?f) + length (cs ''hello'') \<le>
      508 * (length ([] :: u32 list) + card (free_sectors (disk (one_file 0 0))))"
    using formatted_room [of blank] by (simp add: one_file_def opened_def)
  show ?thesis
    using innofs_write_correct [OF v fs ok _ _ room] by (auto simp: opened_def to_int_def)
qed

end
