(* ===== verification/Innofs_Dir.thy ===== *)
theory Innofs_Dir
  imports Innofs_File
begin

text \<open>
  InnoFS directories: the layout of entries in a sector, lookup and creation in the root
  directory, removal, listing, and the operations of the file system put together. The last
  section records what the code does to entries of subdirectories and to the superblock.
\<close>

section \<open>Entries\<close>

lemma dirent_at_cong:
  assumes "\<And>i. off \<le> i \<Longrightarrow> i < off + 127 \<Longrightarrow> b i = c i"
  shows "dirent_at b off = dirent_at c off"
proof -
  have "bytes_at b off 116 = bytes_at c off 116" by (rule bytes_at_cong) (simp add: assms)
  then show ?thesis by (simp add: dirent_at_def get_u32_def get_u16_def assms)
qed

lemma get_u32_cong: "(\<And>i. off \<le> i \<Longrightarrow> i < off + 4 \<Longrightarrow> b i = c i) \<Longrightarrow> get_u32 b off = get_u32 c off"
  by (simp add: get_u32_def)

lemma get_u16_cong: "(\<And>i. off \<le> i \<Longrightarrow> i < off + 2 \<Longrightarrow> b i = c i) \<Longrightarrow> get_u16 b off = get_u16 c off"
  by (simp add: get_u16_def)

lemma put_u32_other: "i < off \<or> off + 4 \<le> i \<Longrightarrow> put_u32 b off w i = b i"
  by (simp add: put_u32_def blit_other)

lemma put_u16_other: "i < off \<or> off + 2 \<le> i \<Longrightarrow> put_u16 b off w i = b i"
  by (simp add: put_u16_def blit_other)

lemma fill_dirent_outside: "i < off \<or> off + 127 \<le> i \<Longrightarrow> fill_dirent b off name uid flags i = b i"
  by (auto simp: fill_dirent_def Let_def put_u32_other put_u16_other blit_other)

lemma dirent_at_fill:
  assumes "0 \<notin> set name" and "length name \<le> 115"
  shows "dirent_at (fill_dirent b off name uid flags) off =
    \<lparr>d_name = name, d_size = 0, d_first_sector = 0, d_owner_uid = uid, d_flags = flags\<rparr>"
proof -
  let ?b1 = "blit b off (pad_to 115 name)"
  let ?b2 = "?b1(off + 115 := 0)"
  let ?f = "fill_dirent b off name uid flags"
  have n: "bytes_at ?f off 116 = pad_to 115 name @ [0]"
  proof -
    have "bytes_at ?f off 116 = bytes_at ?b2 off 116"
      by (rule bytes_at_cong) (auto simp: fill_dirent_def Let_def put_u32_other put_u16_other)
    also have "\<dots> = bytes_at ?b2 off 115 @ bytes_at ?b2 (off + 115) 1"
      using bytes_at_add [of ?b2 off 115 1] by simp
    also have "bytes_at ?b2 off 115 = bytes_at ?b1 off 115" by (rule bytes_at_cong) simp
    also have "\<dots> = pad_to 115 name" by (rule bytes_at_blit) simp
    also have "bytes_at ?b2 (off + 115) 1 = [0]" by (simp add: bytes_at_Suc)
    finally show ?thesis .
  qed
  have "pad_to 115 name @ [0] = name @ 0 # replicate (115 - length name) 0"
    using assms(2) by (simp add: pad_to_short replicate_append_same)
  then have "cstring (pad_to 115 name @ [0]) = name"
    using cstring_append_nul [OF assms(1)] by simp
  moreover have "get_u32 ?f (off + 116) = 0"
    unfolding fill_dirent_def Let_def
    by (subst get_u32_cong [where c = "put_u32 ?b2 (off + 116) 0"])
      (simp_all add: put_u16_other put_u32_other get_put_u32)
  moreover have "get_u32 ?f (off + 120) = 0"
    unfolding fill_dirent_def Let_def
    by (subst get_u32_cong [where c = "put_u32 (put_u32 ?b2 (off + 116) 0) (off + 120) 0"])
      (simp_all add: put_u16_other get_put_u32)
  moreover have "get_u16 ?f (off + 124) = uid"
    unfolding fill_dirent_def Let_def
    by (subst get_u16_cong [where c = "put_u16 (put_u32 (put_u32 ?b2 (off + 116) 0) (off + 120) 0) (off + 124) uid"])
      (simp_all add: get_put_u16)
  moreover have "?f (off + 126) = flags" by (simp add: fill_dirent_def Let_def)
  ultimately show ?thesis by (simp add: dirent_at_def n)
qed

lemma fill_dirent_first:
  assumes "name \<noteq> []" and "0 \<notin> set name" and "length name \<le> 115"
  shows "fill_dirent b off name uid flags off \<noteq> 0"
proof -
  have "fill_dirent b off name uid flags off = pad_to 115 name ! 0"
    by (simp add: fill_dirent_def Let_def put_u32_other put_u16_other blit_def)
  also have "\<dots> = hd name" using assms by (simp add: pad_to_short nth_append hd_conv_nth)
  finally show ?thesis using assms hd_in_set by metis
qed

text \<open>The entries of a root sector do not overlap.\<close>

lemma entry_apart:
  assumes "j \<noteq> k" and "DIRENT_SIZE * j \<le> i" and "i < DIRENT_SIZE * j + 127"
  shows "i < DIRENT_SIZE * k \<or> DIRENT_SIZE * k + 127 \<le> i"
  using assms by (auto simp: DIRENT_SIZE_def)

section \<open>Scanning the root directory\<close>

lemma scan_sector_None: "scan_sector P b base = None \<longleftrightarrow> (\<forall>j < 4. \<not> P b (base + DIRENT_SIZE * j))"
  by (auto simp: scan_sector_def find_None_iff)

lemma scan_sector_Some:
  "scan_sector P b base = Some j \<Longrightarrow>
    j < 4 \<and> P b (base + DIRENT_SIZE * j) \<and> (\<forall>k < j. \<not> P b (base + DIRENT_SIZE * k))"
  by (auto simp: scan_sector_def find_Some_iff)

text \<open>The places of the root directory of a formatted disk.\<close>

definition root_place :: "u32 \<times> nat \<Rightarrow> bool" where
  "root_place e \<longleftrightarrow> 3 \<le> fst e \<and> fst e < 19 \<and> snd e < 4"

definition at_place :: "(u32 \<Rightarrow> buf) \<Rightarrow> (buf \<Rightarrow> nat \<Rightarrow> bool) \<Rightarrow> u32 \<times> nat \<Rightarrow> bool" where
  "at_place d P e \<longleftrightarrow> P (d (fst e)) (DIRENT_SIZE * snd e)"

lemma scan_root_spec:
  assumes "g_sb fs = formatted_sb" and "s \<le> 16"
  shows "(case scan_root fs P 3 s of
      None \<Rightarrow> \<forall>e. root_place e \<longrightarrow> 3 + s \<le> fst e \<longrightarrow> \<not> at_place (disk fs) P e
    | Some e \<Rightarrow> root_place e \<and> 3 + s \<le> fst e \<and> at_place (disk fs) P e)"
  using assms
proof (induction fs P "3 :: u32" s rule: scan_root.induct)
  case (1 fs P s)
  have n: "root_dir_sectors (g_sb fs) = 16" using "1.prems" by (simp add: formatted_sb_def)
  show ?case
  proof (cases "s < 16")
    case False
    with "1.prems" have "s = 16" by simp
    then show ?thesis using n by (subst scan_root.simps) (auto simp: root_place_def)
  next
    case True
    have us: "unat (3 + s) = 3 + unat s" "unat (s + 1) = unat s + 1" "unat (3 + (s + 1)) = 4 + unat s" "unat s < 16"
      using True by (simp_all add: word_less_nat_alt unat_word_ariths)
    show ?thesis
    proof (cases "scan_sector P (disk fs (3 + s)) 0")
      case (Some j)
      then show ?thesis using n True us scan_sector_Some [OF Some]
        by (subst scan_root.simps) (auto simp: root_place_def at_place_def word_le_nat_alt word_less_nat_alt)
    next
      case None
      have eq: "scan_root fs P 3 s = scan_root fs P 3 (s + 1)"
        using n True None by (subst scan_root.simps) simp
      have here: "\<not> at_place (disk fs) P e" if "root_place e" "fst e = 3 + s" for e
        using None that by (auto simp: scan_sector_None root_place_def at_place_def)
      have le: "s + 1 \<le> 16" using us by (simp add: word_le_nat_alt)
      have next_or_here: "fst e = 3 + s \<or> 3 + (s + 1) \<le> fst e" if "3 + s \<le> fst e" for e :: "u32 \<times> nat"
        using that us by (auto simp: word_le_nat_alt word_unat_eq_iff)
      have weaken: "3 + s \<le> x" if "3 + (s + 1) \<le> x" for x :: u32
        using that us by (simp add: word_le_nat_alt)
      have "s < root_dir_sectors (g_sb fs)" using n True by simp
      note ih = "1.hyps" [OF this None "1.prems"(1) le]
      show ?thesis
      proof (cases "scan_root fs P 3 (s + 1)")
        case r: None
        then have "\<forall>e. root_place e \<longrightarrow> 3 + (s + 1) \<le> fst e \<longrightarrow> \<not> at_place (disk fs) P e" using ih by simp
        with here next_or_here have "\<forall>e. root_place e \<longrightarrow> 3 + s \<le> fst e \<longrightarrow> \<not> at_place (disk fs) P e" by blast
        then show ?thesis unfolding eq r by simp
      next
        case r: (Some e)
        then have "root_place e \<and> 3 + (s + 1) \<le> fst e \<and> at_place (disk fs) P e" using ih by simp
        with weaken show ?thesis unfolding eq r by simp
      qed
    qed
  qed
qed

lemma scan_root_None:
  assumes "g_sb fs = formatted_sb"
  shows "scan_root fs P 3 0 = None \<longleftrightarrow> (\<forall>e. root_place e \<longrightarrow> \<not> at_place (disk fs) P e)"
proof (cases "scan_root fs P 3 0")
  case None
  then show ?thesis using scan_root_spec [OF assms, of 0 P] by (simp add: root_place_def)
next
  case (Some e)
  then have "root_place e" "at_place (disk fs) P e" using scan_root_spec [OF assms, of 0 P] by simp_all
  then have "\<not> (\<forall>e. root_place e \<longrightarrow> \<not> at_place (disk fs) P e)" by blast
  with Some show ?thesis by simp
qed

lemma scan_root_Some:
  assumes "g_sb fs = formatted_sb" and "scan_root fs P 3 0 = Some e"
  shows "root_place e" and "at_place (disk fs) P e"
  using scan_root_spec [OF assms(1), of 0 P] assms(2) by simp_all

lemma scan_root_unique:
  assumes "g_sb fs = formatted_sb" and "root_place e" and "at_place (disk fs) P e"
    and "\<And>e'. root_place e' \<Longrightarrow> at_place (disk fs) P e' \<Longrightarrow> e' = e"
  shows "scan_root fs P 3 0 = Some e"
proof (cases "scan_root fs P 3 0")
  case None
  with scan_root_None [OF assms(1)] assms(2,3) show ?thesis by blast
next
  case (Some e')
  with scan_root_Some [OF assms(1) Some] assms(4) show ?thesis by auto
qed


section \<open>Names in the root directory\<close>

text \<open>Names that a single path component can carry.\<close>

definition good_name :: "u8 list \<Rightarrow> bool" where
  "good_name n \<longleftrightarrow> n \<noteq> [] \<and> length n \<le> 115 \<and> 0 \<notin> set n \<and> slash \<notin> set n"

lemma next_token_all: "slash \<notin> set n \<Longrightarrow> length n + i \<le> 115 \<Longrightarrow> next_token n i = (n, [])"
  by (induction n arbitrary: i) auto

lemma last_slash_none: "slash \<notin> set p \<Longrightarrow> last_slash p i acc = acc"
  by (induction p arbitrary: i acc) auto

lemma split_path_root: "slash \<notin> set n \<Longrightarrow> split_path (slash # n) = Some ([slash], n)"
  by (simp add: split_path_def last_slash_none)

lemma find_dirent_slash:
  "find_dirent fs [slash] = Some (Some \<lparr>lk_place = None, lk_dirent = root_dirent fs, lk_in_root = True\<rparr>)"
  by (simp add: find_dirent_def)

text \<open>Lookup of a name of the root directory.\<close>

lemma find_dirent_root:
  assumes "g_sb fs = formatted_sb" and "good_name n"
  shows "find_dirent fs (slash # n) =
    (case scan_root fs (entry_is n) 3 0 of
      None \<Rightarrow> Some None
    | Some e \<Rightarrow> Some (Some \<lparr>lk_place = Some e, lk_dirent = dirent_at (disk fs (fst e)) (DIRENT_SIZE * snd e),
        lk_in_root = False\<rparr>))"
proof -
  have tok: "next_token n 0 = (n, [])" using assms(2) by (intro next_token_all) (auto simp: good_name_def)
  have stop: "find_loop fs d r [] out = Some (Some out)" for d r out
    by (subst find_loop.simps) simp
  have root: "root_dir_start_sector (g_sb fs) = 3" using assms(1) by (simp add: formatted_sb_def)
  show ?thesis
  proof (cases "scan_root fs (entry_is n) 3 0")
    case None
    then show ?thesis using assms(2) tok root
      by (simp add: find_dirent_def good_name_def) (subst find_loop.simps, simp add: find_in_dir_def)
  next
    case (Some e)
    then show ?thesis using assms(2) tok root stop
      by (simp add: find_dirent_def good_name_def)
        (subst find_loop.simps, simp add: find_in_dir_def entry_offset_def)
  qed
qed

text \<open>The entry written by \<open>add_dirent\<close>, and its neighbours.\<close>

definition put_entry :: "(u32 \<Rightarrow> buf) \<Rightarrow> u32 \<times> nat \<Rightarrow> u8 list \<Rightarrow> u16 \<Rightarrow> u8 \<Rightarrow> (u32 \<Rightarrow> buf)" where
  "put_entry d e name uid flags =
    d(fst e := fill_dirent (d (fst e)) (DIRENT_SIZE * snd e) name uid flags)"

definition root_entry :: "(u32 \<Rightarrow> buf) \<Rightarrow> u32 \<times> nat \<Rightarrow> dirent" where
  "root_entry d e = dirent_at (d (fst e)) (DIRENT_SIZE * snd e)"

definition used_place :: "(u32 \<Rightarrow> buf) \<Rightarrow> u32 \<times> nat \<Rightarrow> bool" where
  "used_place d e \<longleftrightarrow> root_place e \<and> d (fst e) (DIRENT_SIZE * snd e) \<noteq> 0"

lemma at_place_entry:
  "root_place e \<Longrightarrow> at_place d (entry_is n) e \<longleftrightarrow> used_place d e \<and> d_name (root_entry d e) = n"
  "root_place e \<Longrightarrow> at_place d entry_free e \<longleftrightarrow> \<not> used_place d e"
  by (simp_all add: at_place_def entry_is_def entry_free_def used_place_def root_entry_def)

text \<open>A change confined to the 127 bytes of one place leaves the other places alone.\<close>

lemma other_place:
  assumes "e' \<noteq> e" and "\<And>s. s \<noteq> fst e \<Longrightarrow> d' s = d s"
    and "\<And>i. i < DIRENT_SIZE * snd e \<or> DIRENT_SIZE * snd e + 127 \<le> i \<Longrightarrow> d' (fst e) i = d (fst e) i"
  shows "root_entry d' e' = root_entry d e'" and "used_place d' e' = used_place d e'"
proof -
  have same: "d' (fst e') i = d (fst e') i" if "DIRENT_SIZE * snd e' \<le> i" "i < DIRENT_SIZE * snd e' + 127" for i
  proof (cases "fst e' = fst e")
    case True
    with assms(1) have "snd e' \<noteq> snd e" by (auto simp: prod_eq_iff)
    from entry_apart [OF this that] assms(3) True show ?thesis by simp
  qed (simp add: assms(2))
  then show "root_entry d' e' = root_entry d e'"
    unfolding root_entry_def by (intro dirent_at_cong) auto
  from same [of "DIRENT_SIZE * snd e'"] show "used_place d' e' = used_place d e'"
    by (simp add: used_place_def)
qed

lemma put_entry_spec:
  assumes "root_place e" and "good_name n"
  shows "root_entry (put_entry d e n uid flags) e =
      \<lparr>d_name = n, d_size = 0, d_first_sector = 0, d_owner_uid = uid, d_flags = flags\<rparr>"
    and "used_place (put_entry d e n uid flags) e"
    and "e' \<noteq> e \<Longrightarrow> root_entry (put_entry d e n uid flags) e' = root_entry d e'"
    and "e' \<noteq> e \<Longrightarrow> used_place (put_entry d e n uid flags) e' = used_place d e'"
  using assms dirent_at_fill fill_dirent_first
    other_place [of e' e "put_entry d e n uid flags" d]
  by (simp_all add: put_entry_def root_entry_def used_place_def good_name_def fill_dirent_outside)

lemma add_dirent_root_cases:
  assumes sb: "g_sb fs = formatted_sb"
  shows "(\<exists>e. used_place (disk fs) e \<and> d_name (root_entry (disk fs) e) = n) \<and> add_dirent_root fs 3 n uid flags = (fs, None)
    \<or> (\<forall>e. root_place e \<longrightarrow> used_place (disk fs) e) \<and> add_dirent_root fs 3 n uid flags = (fs, None)
    \<or> (\<exists>e. root_place e \<and> \<not> used_place (disk fs) e
        \<and> (\<forall>e'. used_place (disk fs) e' \<longrightarrow> d_name (root_entry (disk fs) e') \<noteq> n)
        \<and> add_dirent_root fs 3 n uid flags = (fs\<lparr>disk := put_entry (disk fs) e n uid flags\<rparr>, Some e))"
proof (cases "scan_root fs (entry_is n) 3 0")
  case (Some e)
  note r = scan_root_Some [OF sb Some]
  have "used_place (disk fs) e \<and> d_name (root_entry (disk fs) e) = n"
    using r(2) unfolding at_place_entry(1) [OF r(1)] .
  then have "\<exists>e. used_place (disk fs) e \<and> d_name (root_entry (disk fs) e) = n" by blast
  moreover have "add_dirent_root fs 3 n uid flags = (fs, None)" using Some by (simp add: add_dirent_root_def)
  ultimately show ?thesis by blast
next
  case none: None
  have new: "d_name (root_entry (disk fs) e') \<noteq> n" if "used_place (disk fs) e'" for e'
  proof -
    have rp: "root_place e'" using that by (simp add: used_place_def)
    have "\<not> at_place (disk fs) (entry_is n) e'" using none rp unfolding scan_root_None [OF sb] by blast
    with that at_place_entry(1) [OF rp] show ?thesis by blast
  qed
  show ?thesis
  proof (cases "scan_root fs entry_free 3 0")
    case None
    have "used_place (disk fs) e" if "root_place e" for e
      using None that at_place_entry(2) [OF that, of "disk fs"] unfolding scan_root_None [OF sb] by blast
    moreover have "add_dirent_root fs 3 n uid flags = (fs, None)" using none None by (simp add: add_dirent_root_def)
    ultimately show ?thesis by blast
  next
    case (Some e)
    note r = scan_root_Some [OF sb Some]
    have "\<not> used_place (disk fs) e" using r(2) unfolding at_place_entry(2) [OF r(1)] .
    moreover have "add_dirent_root fs 3 n uid flags = (fs\<lparr>disk := put_entry (disk fs) e n uid flags\<rparr>, Some e)"
      using none Some by (cases e) (simp add: add_dirent_root_def write_sector_def put_entry_def)
    ultimately show ?thesis using r(1) new by blast
  qed
qed


lemma scan_root_cong:
  assumes "g_sb fs = formatted_sb" and "g_sb fs' = formatted_sb"
    and "\<And>e. root_place e \<Longrightarrow> at_place (disk fs) P e = at_place (disk fs') P e" and "s \<le> 16"
  shows "scan_root fs P 3 s = scan_root fs' P 3 s"
  using assms
proof (induction fs P "3 :: u32" s rule: scan_root.induct)
  case (1 fs P s)
  have n: "root_dir_sectors (g_sb fs) = 16" "root_dir_sectors (g_sb fs') = 16"
    using "1.prems" by (simp_all add: formatted_sb_def)
  show ?case
  proof (cases "s < 16")
    case False
    then show ?thesis using n by (subst (1 2) scan_root.simps) simp
  next
    case True
    then have us: "unat (3 + s) = 3 + unat s" "unat (s + 1) = unat s + 1" "unat s < 16"
      by (simp_all add: word_less_nat_alt unat_word_ariths)
    have place: "root_place (3 + s, j)" if "j < 4" for j
      using us that by (simp add: root_place_def word_le_nat_alt word_less_nat_alt)
    have "List.find (\<lambda>j. P (disk fs (3 + s)) (DIRENT_SIZE * j)) [0..<4] =
        List.find (\<lambda>j. P (disk fs' (3 + s)) (DIRENT_SIZE * j)) [0..<4]"
      using "1.prems"(3) [OF place] by (intro find_cong) (auto simp: at_place_def)
    then have eq: "scan_sector P (disk fs (3 + s)) 0 = scan_sector P (disk fs' (3 + s)) 0"
      by (simp add: scan_sector_def)
    have le: "s + 1 \<le> 16" using us by (simp add: word_le_nat_alt)
    have "scan_root fs P 3 (s + 1) = scan_root fs' P 3 (s + 1)"
      if "scan_sector P (disk fs (3 + s)) 0 = None"
    proof (rule "1.hyps" [OF _ that "1.prems"(1,2,3) le])
      show "s < root_dir_sectors (g_sb fs)" using n True by simp
    qed
    then show ?thesis using n True eq by (subst (1 2) scan_root.simps) (auto split: option.split)
  qed
qed

section \<open>File descriptors\<close>

definition fd_free :: "innofs \<Rightarrow> bool" where
  "fd_free fs \<longleftrightarrow> length (g_open_files fs) = 16 \<and> (\<exists>i < 16. \<not> of_used (g_open_files fs ! i))"

lemma alloc_fd_loop_spec:
  assumes "length fl = 16" and "\<exists>i < 16. k \<le> i \<and> \<not> of_used (fl ! i)"
  shows "\<exists>i < 16. alloc_fd_loop fl k = (fl[i := (fl ! i)\<lparr>of_used := True\<rparr>], int i)"
  using assms
proof (induction fl k rule: alloc_fd_loop.induct)
  case (1 fl k)
  then have k: "k < 16" by auto
  show ?case
  proof (cases "of_used (fl ! k)")
    case True
    then have "\<exists>i < 16. k + 1 \<le> i \<and> \<not> of_used (fl ! i)"
      using "1.prems"(2) by (metis Suc_eq_plus1 Suc_leI le_neq_implies_less)
    with "1.IH" k True "1.prems"(1) show ?thesis by (subst alloc_fd_loop.simps) simp
  next
    case False
    with k show ?thesis by (subst alloc_fd_loop.simps) auto
  qed
qed

lemma finish_open_spec:
  assumes "fd_free fs"
  shows "\<exists>fd. 0 \<le> fd \<and> fd < 16 \<and> finish_open fs e sz first mode =
      (fs\<lparr>g_open_files := (g_open_files fs)[nat fd := opened e sz first mode]\<rparr>, fd)"
proof -
  obtain i where i: "i < 16"
    "alloc_fd_loop (g_open_files fs) 0 = ((g_open_files fs)[i := (g_open_files fs ! i)\<lparr>of_used := True\<rparr>], int i)"
    using alloc_fd_loop_spec [of "g_open_files fs" 0] assms by (auto simp: fd_free_def)
  then show ?thesis
    by (intro exI [of _ "int i"]) (simp add: finish_open_def alloc_fd_def set_file_def)
qed

section \<open>Size and first sector of an entry\<close>

definition put_sizes :: "(u32 \<Rightarrow> buf) \<Rightarrow> u32 \<times> nat \<Rightarrow> u32 \<Rightarrow> u32 \<Rightarrow> (u32 \<Rightarrow> buf)" where
  "put_sizes d e sz first = d(fst e :=
    put_u32 (put_u32 (d (fst e)) (DIRENT_SIZE * snd e + 116) sz) (DIRENT_SIZE * snd e + 120) first)"

lemma dirent_at_sizes:
  "dirent_at (put_u32 (put_u32 b (off + 116) sz) (off + 120) first) off =
    (dirent_at b off)\<lparr>d_size := sz, d_first_sector := first\<rparr>"
proof -
  let ?b = "put_u32 (put_u32 b (off + 116) sz) (off + 120) first"
  have "bytes_at ?b off 116 = bytes_at b off 116" by (rule bytes_at_cong) (simp add: put_u32_other)
  moreover have "get_u16 ?b (off + 124) = get_u16 b (off + 124)"
    by (rule get_u16_cong) (simp add: put_u32_other)
  ultimately show ?thesis
    by (simp add: dirent_at_def get_put_u32 get_put_u32_other put_u32_other)
qed

lemma put_sizes_spec:
  "root_entry (put_sizes d e sz first) e = (root_entry d e)\<lparr>d_size := sz, d_first_sector := first\<rparr>"
  "used_place (put_sizes d e sz first) e = used_place d e"
  "e' \<noteq> e \<Longrightarrow> root_entry (put_sizes d e sz first) e' = root_entry d e'"
  "e' \<noteq> e \<Longrightarrow> used_place (put_sizes d e sz first) e' = used_place d e'"
proof -
  show "root_entry (put_sizes d e sz first) e = (root_entry d e)\<lparr>d_size := sz, d_first_sector := first\<rparr>"
    "used_place (put_sizes d e sz first) e = used_place d e"
    by (simp_all add: root_entry_def used_place_def put_sizes_def dirent_at_sizes put_u32_other)
  assume "e' \<noteq> e"
  then show "root_entry (put_sizes d e sz first) e' = root_entry d e'"
    "used_place (put_sizes d e sz first) e' = used_place d e'"
    by (rule other_place; auto simp: put_sizes_def put_u32_other)+
qed

lemma root_sector_data: "root_place e \<Longrightarrow> fst e \<noteq> 1 \<and> fst e \<noteq> 2 \<and> fst e < 19"
  by (auto simp: root_place_def word_le_nat_alt)

text \<open>Root entries see only the root sectors.\<close>

lemma root_same:
  assumes "\<And>s. s < 19 \<Longrightarrow> 3 \<le> s \<Longrightarrow> d' s = d s" and "root_place e"
  shows "root_entry d' e = root_entry d e" and "used_place d' e = used_place d e"
  using assms by (auto simp: root_entry_def used_place_def root_place_def)


section \<open>Creating a file, closing it, opening it again\<close>

lemma root_dirent_flags: "d_flags (root_dirent fs) AND 1 \<noteq> 0"
  by (simp add: root_dirent_def)

lemma root_access: "check_access (root_dirent fs) uid"
  by (simp add: check_access_def root_dirent_def)

text \<open>A name that is new to the root directory.\<close>

definition new_name :: "innofs \<Rightarrow> u8 list \<Rightarrow> bool" where
  "new_name fs n \<longleftrightarrow> good_name n \<and> (\<forall>e. used_place (disk fs) e \<longrightarrow> d_name (root_entry (disk fs) e) \<noteq> n)"

definition root_room :: "innofs \<Rightarrow> bool" where
  "root_room fs \<longleftrightarrow> (\<exists>e. root_place e \<and> \<not> used_place (disk fs) e)"

lemma new_name_scan: "g_sb fs = formatted_sb \<Longrightarrow> new_name fs n \<Longrightarrow> scan_root fs (entry_is n) 3 0 = None"
  using at_place_entry(1) [of _ "disk fs" n] unfolding new_name_def by (auto simp: scan_root_None)

lemma unique_name_scan:
  assumes "g_sb fs = formatted_sb" and "used_place (disk fs) e" and "d_name (root_entry (disk fs) e) = n"
    and "\<And>e'. used_place (disk fs) e' \<Longrightarrow> d_name (root_entry (disk fs) e') = n \<Longrightarrow> e' = e"
  shows "scan_root fs (entry_is n) 3 0 = Some e"
proof (rule scan_root_unique [OF assms(1)])
  show p: "root_place e" using assms(2) by (simp add: used_place_def)
  show "at_place (disk fs) (entry_is n) e" using assms(2,3) by (simp add: at_place_entry(1) [OF p])
  fix e'
  assume "root_place e'" "at_place (disk fs) (entry_is n) e'"
  then show "e' = e" using assms(4) at_place_entry(1) [of e'] by blast
qed

lemma create_root_file:
  assumes sb: "g_sb fs = formatted_sb" and m: "g_innofs_mounted fs" and n: "new_name fs n"
    and room: "root_room fs" and fd: "fd_free fs" and mode: "mode AND VFS_MODE_CREATE \<noteq> 0"
  shows "\<exists>e fd. root_place e \<and> \<not> used_place (disk fs) e \<and> 0 \<le> fd \<and> fd < 16
    \<and> innofs_open fs (slash # n) mode uid =
        Some (fs\<lparr>disk := put_entry (disk fs) e n uid 0,
          g_open_files := (g_open_files fs)[nat fd := opened e 0 0 mode]\<rparr>, fd)"
proof -
  have good: "good_name n" using n by (simp add: new_name_def)
  obtain e where e: "root_place e" "\<not> used_place (disk fs) e"
    and add: "add_dirent_root fs 3 n uid 0 = (fs\<lparr>disk := put_entry (disk fs) e n uid 0\<rparr>, Some e)"
    using add_dirent_root_cases [OF sb, of n uid 0] n room unfolding new_name_def root_room_def by blast
  let ?fs = "fs\<lparr>disk := put_entry (disk fs) e n uid 0\<rparr>"
  have "fd_free ?fs" using fd by (simp add: fd_free_def)
  from finish_open_spec [OF this, of e 0 0 mode] obtain fd where fd: "0 \<le> fd" "fd < 16"
    "finish_open ?fs e 0 0 mode = (?fs\<lparr>g_open_files := (g_open_files ?fs)[nat fd := opened e 0 0 mode]\<rparr>, fd)"
    by blast
  have none: "find_dirent fs (slash # n) = Some None"
    using find_dirent_root [OF sb good] new_name_scan [OF sb n] by simp
  have root: "d_first_sector (root_dirent fs) = 3" using sb by (simp add: root_dirent_def formatted_sb_def)
  have "create_file fs (slash # n) mode uid = Some (finish_open ?fs e 0 0 mode)"
    using good split_path_root [of n] root_dirent_flags [of fs] root_access [of fs uid] root add
    by (simp add: create_file_def good_name_def find_dirent_slash add_dirent_def link_parent_def)
  then have "innofs_open fs (slash # n) mode uid = Some (finish_open ?fs e 0 0 mode)"
    using m none mode by (simp add: innofs_open_def)
  with e fd show ?thesis by (intro exI [of _ e] exI [of _ fd]) simp
qed

lemma close_root_file:
  assumes fd: "0 \<le> fd" "fd < 16" "nat fd < length (g_open_files fs)"
    and f: "g_open_files fs ! nat fd = f" "of_used f" "of_mode f AND (VFS_MODE_WRITE OR VFS_MODE_CREATE) \<noteq> 0"
    and e: "dirent_sector f = fst e" "dirent_index f = snd e"
  shows "innofs_close fs fd = fs\<lparr>disk := put_sizes (disk fs) e (of_size f) (of_first_sector f),
    g_open_files := (g_open_files fs)[nat fd := f\<lparr>of_used := False\<rparr>]\<rparr>"
  using assms by (simp add: innofs_close_def valid_fd_def MAX_OPEN_FILES_def Let_def put_sizes_def
    write_sector_def set_file_def)

lemma open_root_file:
  assumes sb: "g_sb fs = formatted_sb" and m: "g_innofs_mounted fs" and n: "good_name n"
    and scan: "scan_root fs (entry_is n) 3 0 = Some e" and fd: "fd_free fs"
    and fl: "d_flags (root_entry (disk fs) e) = 0" and mode: "mode AND VFS_MODE_CREATE = 0"
  shows "\<exists>fd. 0 \<le> fd \<and> fd < 16 \<and> innofs_open fs (slash # n) mode uid =
    Some (fs\<lparr>g_open_files := (g_open_files fs)[nat fd := opened e (d_size (root_entry (disk fs) e))
      (d_first_sector (root_entry (disk fs) e)) mode]\<rparr>, fd)"
proof -
  let ?d = "root_entry (disk fs) e"
  obtain fd where fd: "0 \<le> fd" "fd < 16" "finish_open fs e (d_size ?d) (d_first_sector ?d) mode =
      (fs\<lparr>g_open_files := (g_open_files fs)[nat fd := opened e (d_size ?d) (d_first_sector ?d) mode]\<rparr>, fd)"
    using finish_open_spec [OF fd] by blast
  have "innofs_open fs (slash # n) mode uid = Some (finish_open fs e (d_size ?d) (d_first_sector ?d) mode)"
    using m find_dirent_root [OF sb n] scan fl mode
    by (simp add: innofs_open_def open_existing_def check_access_def root_entry_def)
  with fd show ?thesis by auto
qed

text \<open>A state in which the descriptor is open for writing on the entry, which stands for the name, and in which
  the sectors of the file hold the bytes; the rest of the root directory is that of \<open>d\<close>.\<close>

definition holds_written :: "(u32 \<Rightarrow> buf) \<Rightarrow> u8 list \<Rightarrow> u8 list \<Rightarrow> innofs \<Rightarrow> int \<Rightarrow> u32 \<times> nat \<Rightarrow> u32 \<Rightarrow> u32 list \<Rightarrow> bool" where
  "holds_written d n ys fs fd e first zs \<longleftrightarrow> 0 \<le> fd \<and> fd < 16 \<and> root_place e \<and> \<not> used_place d e
    \<and> g_sb fs = formatted_sb \<and> g_innofs_mounted fs \<and> length (g_open_files fs) = 16
    \<and> g_open_files fs ! nat fd = (opened e 0 0 (VFS_MODE_WRITE OR VFS_MODE_CREATE))
        \<lparr>of_first_sector := first, of_offset := of_nat (length ys), of_size := of_nat (length ys)\<rparr>
    \<and> (\<exists>uid. \<forall>s. 3 \<le> s \<and> s < 19 \<longrightarrow> disk fs s = put_entry d e n uid 0 s)
    \<and> file_ok (disk fs) first zs \<and> take (length ys) (content (disk fs) zs) = ys \<and> length ys \<le> 508 * length zs"

lemma write_new_file:
  assumes fs: "fs_ok fs" and m: "g_innofs_mounted fs" and n: "new_name fs n"
    and room: "root_room fs" and fd: "fd_free fs" and ys: "ys \<noteq> []" and len: "length ys < 2 ^ 32"
    and space: "length ys \<le> 508 * card (free_sectors (disk fs))"
  shows "\<exists>fs1 fd1 fs2 e first zs. innofs_open fs (slash # n) (VFS_MODE_WRITE OR VFS_MODE_CREATE) uid = Some (fs1, fd1)
    \<and> innofs_write fs1 fd1 ys = (fs2, to_int (of_nat (length ys))) \<and> holds_written (disk fs) n ys fs2 fd1 e first zs"
proof -
  let ?W = "VFS_MODE_WRITE OR VFS_MODE_CREATE"
  have sb: "g_sb fs = formatted_sb" using fs by (simp add: fs_ok_def)
  have modes: "?W AND VFS_MODE_CREATE \<noteq> 0" "?W AND VFS_MODE_WRITE \<noteq> 0"
    by (simp_all add: VFS_MODE_WRITE_def VFS_MODE_CREATE_def)
  from create_root_file [OF sb m n room fd modes(1)] obtain e fd1 where e: "root_place e"
    "\<not> used_place (disk fs) e" and fd1: "0 \<le> fd1" "fd1 < 16"
    and op1: "innofs_open fs (slash # n) ?W uid = Some (fs\<lparr>disk := put_entry (disk fs) e n uid 0,
          g_open_files := (g_open_files fs)[nat fd1 := opened e 0 0 ?W]\<rparr>, fd1)" by blast
  let ?d1 = "put_entry (disk fs) e n uid 0" and ?f1 = "opened e 0 0 ?W"
  define fs1 where "fs1 = fs\<lparr>disk := ?d1, g_open_files := (g_open_files fs)[nat fd1 := ?f1]\<rparr>"
  have l16: "length (g_open_files fs) = 16" using fd by (simp add: fd_free_def)
  note rs = root_sector_data [OF e(1)]
  have bits: "sector_bit ?d1 t = sector_bit (disk fs) t" if "t < 8192" for t
    unfolding put_entry_def using rs that by (simp add: sector_bit_data)
  have free1: "free_sectors (disk fs1) = free_sectors (disk fs)"
    unfolding fs1_def put_entry_def using rs by (simp add: free_sectors_data)
  have fs1: "fs_ok fs1" using fs bits by (simp add: fs_ok_def fs1_def word_less_nat_alt)
  have f1: "g_open_files fs1 ! nat fd1 = ?f1" using fd1 l16 by (simp add: fs1_def)
  have v1: "valid_fd fs1 fd1" using fd1 f1 by (simp add: valid_fd_def MAX_OPEN_FILES_def opened_def)
  have "file_ok (disk fs1) (of_first_sector ?f1) []" by (simp add: file_ok_def opened_def)
  from innofs_write_chain [OF v1 f1 [symmetric] _ fs1 this ys] modes len space
  obtain zs d2 first where w: "innofs_write fs1 fd1 ys =
      (set_file (fs1\<lparr>disk := d2\<rparr>) fd1 (?f1\<lparr>of_first_sector := first, of_offset := of_nat (length ys),
          of_size := of_nat (length ys)\<rparr>), to_int (of_nat (length ys)))"
    and ext: "extended fs1 first [] zs d2 (overlay (replicate (508 * length zs) 0) 0 ys)"
    and fit: "length ys \<le> 508 * length zs"
    by (auto simp: opened_def free1)
  have g2: "file_ok d2 first zs" "grows ?d1 [] zs d2" "content d2 zs = overlay (replicate (508 * length zs) 0) 0 ys"
    using ext by (simp_all add: extended_def fs1_def)
  have "d2 s = ?d1 s" if "3 \<le> s \<and> s < 19" for s
  proof -
    have "s \<notin> set zs" using g2(1) that by (auto simp: file_ok_def)
    moreover have "s \<noteq> 1" "s \<noteq> 2" using that by (auto simp: word_le_nat_alt)
    ultimately show ?thesis using g2(2) that by (simp add: grows_def)
  qed
  moreover have "take (length ys) (content d2 zs) = ys" using fit by (simp add: g2(3) overlay_def)
  ultimately have "holds_written (disk fs) n ys (fst (innofs_write fs1 fd1 ys)) fd1 e first zs"
    unfolding w using e fd1 l16 m sb g2(1) fit by (auto simp: holds_written_def fs1_def set_file_def)
  with w op1 [folded fs1_def] show ?thesis by (metis fst_conv)
qed

text \<open>Closing stores the size and the first sector in the entry, under which the name is then found.\<close>

lemma close_written_file:
  assumes h: "holds_written d n ys fs fd e first zs" and good: "good_name n"
    and absent: "\<forall>e'. used_place d e' \<longrightarrow> d_name (root_entry d e') \<noteq> n"
  defines "fs' \<equiv> innofs_close fs fd"
  shows "g_sb fs' = formatted_sb" "g_innofs_mounted fs'" "fd_free fs'" "scan_root fs' (entry_is n) 3 0 = Some e"
    "d_size (root_entry (disk fs') e) = of_nat (length ys)" "d_first_sector (root_entry (disk fs') e) = first"
    "d_flags (root_entry (disk fs') e) = 0" "disk fs' = put_sizes (disk fs) e (of_nat (length ys)) first"
proof -
  let ?d = "put_sizes (disk fs) e (of_nat (length ys)) first"
  have fd: "0 \<le> fd" "fd < 16" "nat fd < length (g_open_files fs)" and e: "root_place e" "\<not> used_place d e"
    using h by (simp_all add: holds_written_def nat_less_iff)
  obtain uid where root: "disk fs s = put_entry d e n uid 0 s" if "s < 19" "3 \<le> s" for s
    using h unfolding holds_written_def by blast
  have mode: "(VFS_MODE_WRITE OR VFS_MODE_CREATE) AND (VFS_MODE_WRITE OR VFS_MODE_CREATE) \<noteq> 0"
    by (simp add: VFS_MODE_WRITE_def VFS_MODE_CREATE_def)
  have fs': "fs' = fs\<lparr>disk := ?d, g_open_files := (g_open_files fs)[nat fd := (g_open_files fs ! nat fd)\<lparr>of_used := False\<rparr>]\<rparr>"
    unfolding fs'_def using h close_root_file [OF fd refl, of e] mode by (simp add: holds_written_def opened_def)
  then show d': "disk fs' = ?d" and sb: "g_sb fs' = formatted_sb" and "g_innofs_mounted fs'"
    using h by (simp_all add: holds_written_def)
  note same = root_same [OF root]
  have entry: "root_entry ?d e = \<lparr>d_name = n, d_size = of_nat (length ys), d_first_sector = first,
      d_owner_uid = uid, d_flags = 0\<rparr>" "used_place ?d e"
    using put_sizes_spec(1,2) same [OF _ _ e(1)] put_entry_spec(1,2) [OF e(1) good] by simp_all
  then show "d_size (root_entry (disk fs') e) = of_nat (length ys)" "d_first_sector (root_entry (disk fs') e) = first"
    "d_flags (root_entry (disk fs') e) = 0" by (simp_all add: d')
  have "d_name (root_entry ?d e') \<noteq> n" if "used_place ?d e'" "e' \<noteq> e" for e'
  proof -
    have p: "root_place e'" using that(1) by (simp add: used_place_def)
    have "used_place d e'" "root_entry ?d e' = root_entry d e'"
      using that put_sizes_spec(3,4) [OF that(2)] same [OF _ _ p] put_entry_spec(3,4) [OF e(1) good that(2)] by simp_all
    moreover from this absent have "d_name (root_entry d e') \<noteq> n" by blast
    ultimately show ?thesis by simp
  qed
  with entry show "scan_root fs' (entry_is n) 3 0 = Some e" by (intro unique_name_scan [OF sb]) (auto simp: d')
  have "length (g_open_files fs') = 16" "\<not> of_used (g_open_files fs' ! nat fd)" "nat fd < 16"
    using fd h by (simp_all add: fs' holds_written_def)
  then show "fd_free fs'" unfolding fd_free_def by blast
qed

text \<open>Opened for reading, a file gives the bytes that its sectors hold.\<close>

lemma read_opened_file:
  assumes fd: "0 \<le> fd" "fd < 16" "fd_free fs" and d: "\<forall>x \<in> set zs. disk fs x = d x"
    and ok: "file_ok d first zs" and ys: "take (length ys) (content d zs) = ys" "length ys \<le> 508 * length zs" "length ys < 2 ^ 32"
  shows "snd (snd (innofs_read (fs\<lparr>g_open_files := (g_open_files fs)[nat fd := opened e (of_nat (length ys)) first VFS_MODE_READ]\<rparr>)
    fd (of_nat (length ys)))) = ys"
proof -
  let ?f = "opened e (of_nat (length ys)) first VFS_MODE_READ"
  define fs' where "fs' = fs\<lparr>g_open_files := (g_open_files fs)[nat fd := ?f]\<rparr>"
  have f: "?f = g_open_files fs' ! nat fd" using fd by (simp add: fs'_def fd_free_def)
  have v: "valid_fd fs' fd" using fd f [symmetric] by (simp add: valid_fd_def MAX_OPEN_FILES_def opened_def)
  have keep: "disk fs' x = d x" if "x \<in> set zs" for x using d that by (simp add: fs'_def)
  have ch: "chain (disk fs') (of_first_sector ?f) zs"
    using ok keep chain_cong [of zs "disk fs'" d first] by (simp add: opened_def file_ok_def)
  have ul: "unat (of_nat (length ys) :: u32) = length ys" using ys(3) by (simp add: unat_of_nat take_bit_nat_eq_self)
  have "content (disk fs') zs = content d zs" by (rule content_cong [OF keep])
  with innofs_read_chain [OF v f _ ch, of "of_nat (length ys)"] ys ul show ?thesis
    unfolding fs'_def [symmetric] by (simp add: opened_def VFS_MODE_READ_def Let_def)
qed

text \<open>C1. A file of the root directory survives being written, closed and opened again, by any
  user: create it, write bytes to it, close it, open it for reading, read: the bytes read are
  the bytes written.\<close>

theorem root_file_roundtrip:
  assumes fs: "fs_ok fs" and m: "g_innofs_mounted fs" and n: "new_name fs n"
    and room: "root_room fs" and fd: "fd_free fs" and ys: "ys \<noteq> []" and len: "length ys < 2 ^ 32"
    and space: "length ys \<le> 508 * card (free_sectors (disk fs))"
  shows "\<exists>fs1 fd1 fs2 fs4 fd2.
    innofs_open fs (slash # n) (VFS_MODE_WRITE OR VFS_MODE_CREATE) uid = Some (fs1, fd1) \<and> 0 \<le> fd1
    \<and> innofs_write fs1 fd1 ys = (fs2, to_int (of_nat (length ys)))
    \<and> innofs_open (innofs_close fs2 fd1) (slash # n) VFS_MODE_READ uid' = Some (fs4, fd2) \<and> 0 \<le> fd2
    \<and> snd (snd (innofs_read fs4 fd2 (of_nat (length ys)))) = ys"
proof -
  have good: "good_name n" and absent: "\<forall>e'. used_place (disk fs) e' \<longrightarrow> d_name (root_entry (disk fs) e') \<noteq> n"
    using n unfolding new_name_def by blast+
  from write_new_file [OF assms, of uid] obtain fs1 fd1 fs2 e first zs
    where w: "innofs_open fs (slash # n) (VFS_MODE_WRITE OR VFS_MODE_CREATE) uid = Some (fs1, fd1)"
      "innofs_write fs1 fd1 ys = (fs2, to_int (of_nat (length ys)))"
    and h: "holds_written (disk fs) n ys fs2 fd1 e first zs" by blast
  let ?fs3 = "innofs_close fs2 fd1"
  note c = close_written_file [OF h good absent]
  have "VFS_MODE_READ AND VFS_MODE_CREATE = 0" by (simp add: VFS_MODE_READ_def VFS_MODE_CREATE_def)
  from open_root_file [OF c(1,2) good c(4,3,7) this, of uid'] obtain fd2 where fd2: "0 \<le> fd2" "fd2 < 16"
    and op2: "innofs_open ?fs3 (slash # n) VFS_MODE_READ uid' = Some (?fs3\<lparr>g_open_files :=
      (g_open_files ?fs3)[nat fd2 := opened e (of_nat (length ys)) first VFS_MODE_READ]\<rparr>, fd2)"
    unfolding c(5,6) by blast
  have ok: "file_ok (disk fs2) first zs" and e: "root_place e" and fd1: "0 \<le> fd1"
    and bytes: "take (length ys) (content (disk fs2) zs) = ys" "length ys \<le> 508 * length zs"
    using h by (simp_all add: holds_written_def)
  have same: "\<forall>x \<in> set zs. disk ?fs3 x = disk fs2 x"
  proof
    fix x
    assume "x \<in> set zs"
    then have "19 \<le> x" using ok by (simp add: file_ok_def)
    then have "x \<noteq> fst e" using root_sector_data [OF e] by auto
    then show "disk ?fs3 x = disk fs2 x" by (simp add: c(8) put_sizes_def)
  qed
  define fs4 where "fs4 = ?fs3\<lparr>g_open_files := (g_open_files ?fs3)[nat fd2 := opened e (of_nat (length ys)) first VFS_MODE_READ]\<rparr>"
  have "snd (snd (innofs_read fs4 fd2 (of_nat (length ys)))) = ys"
    unfolding fs4_def by (rule read_opened_file [OF fd2 c(3) same ok bytes len])
  with w op2 [folded fs4_def] fd1 fd2(1) show ?thesis by blast
qed

text \<open>A freshly laid out disk with all descriptors free, for the examples.\<close>

definition fresh :: innofs where
  "fresh = (mkfs_layout blank)\<lparr>g_open_files := replicate 16 ((opened (0, 0) 0 0 0)\<lparr>of_used := False\<rparr>)\<rparr>"

lemma fresh_unused: "\<not> used_place (disk fresh) e"
proof
  assume u: "used_place (disk fresh) e"
  then have "root_place e" by (simp add: used_place_def)
  then have "fst e \<noteq> 0" "fst e \<noteq> 1" "fst e < 19" by (auto simp: root_place_def word_le_nat_alt)
  then have "disk fresh (fst e) = (\<lambda>_. 0)" using mkfs_layout_disk [of blank "fst e"] by (simp add: fresh_def)
  with u show False by (simp add: used_place_def)
qed

lemma fresh_facts:
  "fs_ok fresh" "g_innofs_mounted fresh" "root_room fresh" "fd_free fresh"
  "card (free_sectors (disk fresh)) = 8173" "good_name n \<Longrightarrow> new_name fresh n"
proof -
  show "fs_ok fresh" using formatted_fs_ok [of blank] by (simp add: fresh_def fs_ok_def)
  show "g_innofs_mounted fresh" by (simp add: fresh_def mkfs_layout_def Let_def)
  have "root_place (3, 0)" by (simp add: root_place_def)
  then show "root_room fresh" using fresh_unused unfolding root_room_def by blast
  show "fd_free fresh" by (auto simp: fd_free_def fresh_def intro!: exI [of _ 0])
  show "card (free_sectors (disk fresh)) = 8173" using formatted_room [of blank] by (simp add: fresh_def)
  show "new_name fresh n" if "good_name n" using that fresh_unused unfolding new_name_def by blast
qed

lemma good_motd: "good_name (cs ''motd'')"
  by (simp add: good_name_def slash_def)

theorem root_file_roundtrip_witness:
  "\<exists>fs1 fd1 fs2 fs4 fd2.
    innofs_open fresh (slash # cs ''motd'') (VFS_MODE_WRITE OR VFS_MODE_CREATE) 1 = Some (fs1, fd1)
    \<and> innofs_write fs1 fd1 (cs ''hello'') = (fs2, to_int 5)
    \<and> innofs_open (innofs_close fs2 fd1) (slash # cs ''motd'') VFS_MODE_READ 2 = Some (fs4, fd2)
    \<and> snd (snd (innofs_read fs4 fd2 5)) = cs ''hello''"
  using root_file_roundtrip [OF fresh_facts(1,2) fresh_facts(6) [OF good_motd] fresh_facts(3,4),
      of "cs ''hello''" 1 2] fresh_facts(5)
  by (simp del: cs_simps add: cs_def) blast


section \<open>Lookup and creation\<close>

lemma put_entry_lookup:
  assumes sb: "g_sb fs = formatted_sb" and n: "good_name n" and e: "root_place e"
    and fresh: "\<forall>e'. used_place (disk fs) e' \<longrightarrow> d_name (root_entry (disk fs) e') \<noteq> n"
  shows "find_dirent (fs\<lparr>disk := put_entry (disk fs) e n uid flags\<rparr>) (slash # n) = Some (Some \<lparr>lk_place = Some e,
    lk_dirent = \<lparr>d_name = n, d_size = 0, d_first_sector = 0, d_owner_uid = uid, d_flags = flags\<rparr>, lk_in_root = False\<rparr>)"
proof -
  let ?d = "put_entry (disk fs) e n uid flags" and ?fs = "fs\<lparr>disk := put_entry (disk fs) e n uid flags\<rparr>"
  have sb': "g_sb ?fs = formatted_sb" using sb by simp
  note pe = put_entry_spec [OF e n, where d = "disk fs" and uid = uid and flags = flags]
  have "e' = e" if "used_place ?d e'" "d_name (root_entry ?d e') = n" for e'
    using that pe(3,4) [where e' = e'] fresh by (cases "e' = e") auto
  then have "scan_root ?fs (entry_is n) 3 0 = Some e"
    using pe(1,2) by (intro unique_name_scan [OF sb']) simp_all
  then show ?thesis using find_dirent_root [OF sb' n] pe(1) by (simp add: root_entry_def)
qed

lemma put_entry_other:
  assumes sb: "g_sb fs = formatted_sb" and n: "good_name n" and k: "good_name k" and kn: "k \<noteq> n"
    and e: "root_place e" "\<not> used_place (disk fs) e"
  shows "find_dirent (fs\<lparr>disk := put_entry (disk fs) e n uid flags\<rparr>) (slash # k) = find_dirent fs (slash # k)"
proof -
  let ?fs = "fs\<lparr>disk := put_entry (disk fs) e n uid flags\<rparr>"
  have sb': "g_sb ?fs = formatted_sb" using sb by simp
  note pe = put_entry_spec [OF e(1) n, where d = "disk fs" and uid = uid and flags = flags]
  have at: "at_place (disk fs) (entry_is k) e' = at_place (disk ?fs) (entry_is k) e'" if "root_place e'" for e'
    using pe(1) pe(3,4) [where e' = e'] kn e(2) at_place_entry(1) [OF that] by (cases "e' = e") simp_all
  have scan: "scan_root fs (entry_is k) 3 0 = scan_root ?fs (entry_is k) 3 0"
    by (rule scan_root_cong [OF sb sb' at]) simp_all
  show ?thesis
  proof (cases "scan_root fs (entry_is k) 3 0")
    case None
    with scan find_dirent_root [OF sb k] find_dirent_root [OF sb' k] show ?thesis by simp
  next
    case (Some e')
    note r = scan_root_Some [OF sb Some]
    have "used_place (disk fs) e'" using r(2) unfolding at_place_entry(1) [OF r(1)] by simp
    with e(2) have "e' \<noteq> e" by auto
    with pe(3) have "root_entry (disk ?fs) e' = root_entry (disk fs) e'" by simp
    moreover have "scan_root ?fs (entry_is k) 3 0 = Some e'" using scan Some by simp
    ultimately show ?thesis
      unfolding find_dirent_root [OF sb k] find_dirent_root [OF sb' k] using Some by (simp add: root_entry_def)
  qed
qed

text \<open>C23. Creating a name in the root directory fails, changing nothing, exactly when the name is
  taken or no entry is free. Otherwise looking the name up gives the new entry, and every other
  name is looked up with the same result as before.\<close>

theorem add_dirent_root_lookup:
  assumes sb: "g_sb fs = formatted_sb" and n: "good_name n" and k: "good_name k" and kn: "k \<noteq> n"
    and add: "add_dirent_root fs 3 n uid flags = (fs', r)"
  shows "case r of
      None \<Rightarrow> fs' = fs \<and> (find_dirent fs (slash # n) \<noteq> Some None \<or> \<not> root_room fs)
    | Some e \<Rightarrow> find_dirent fs (slash # n) = Some None
        \<and> find_dirent fs' (slash # n) = Some (Some \<lparr>lk_place = Some e,
            lk_dirent = \<lparr>d_name = n, d_size = 0, d_first_sector = 0, d_owner_uid = uid, d_flags = flags\<rparr>,
            lk_in_root = False\<rparr>)
        \<and> find_dirent fs' (slash # k) = find_dirent fs (slash # k)"
proof -
  from add_dirent_root_cases [OF sb, of n uid flags]
  consider (taken) e where "used_place (disk fs) e" "d_name (root_entry (disk fs) e) = n" "r = None" "fs' = fs"
    | (full) "\<forall>e. root_place e \<longrightarrow> used_place (disk fs) e" "r = None" "fs' = fs"
    | (added) e where "root_place e" "\<not> used_place (disk fs) e" "r = Some e"
      "\<forall>e'. used_place (disk fs) e' \<longrightarrow> d_name (root_entry (disk fs) e') \<noteq> n"
      "fs' = fs\<lparr>disk := put_entry (disk fs) e n uid flags\<rparr>"
    using add by (metis prod.inject)
  then show ?thesis
  proof cases
    case taken
    have p: "root_place e" using taken(1) by (simp add: used_place_def)
    have "scan_root fs (entry_is n) 3 0 \<noteq> None"
      using taken(1,2) p at_place_entry(1) [OF p] scan_root_None [OF sb] by blast
    then have "find_dirent fs (slash # n) \<noteq> Some None"
      using find_dirent_root [OF sb n] by (auto split: option.splits)
    with taken(3,4) show ?thesis by simp
  next
    case full
    then show ?thesis by (simp add: root_room_def)
  next
    case added
    have "new_name fs n" using n added(4) unfolding new_name_def by blast
    from new_name_scan [OF sb this] have "find_dirent fs (slash # n) = Some None"
      using find_dirent_root [OF sb n] by simp
    with put_entry_lookup [OF sb n added(1,4)] put_entry_other [OF sb n k kn added(1,2)] added(3,5) show ?thesis by simp
  qed
qed

theorem add_dirent_root_lookup_witness:
  "\<exists>fs' e. add_dirent_root fresh 3 (cs ''motd'') 0 0 = (fs', Some e)
    \<and> find_dirent fs' (slash # cs ''bin'') = find_dirent fresh (slash # cs ''bin'')"
proof -
  have sb: "g_sb fresh = formatted_sb" using fresh_facts(1) by (simp add: fs_ok_def)
  have k: "good_name (cs ''bin'')" by (simp add: good_name_def slash_def)
  have kn: "cs ''bin'' \<noteq> cs ''motd''" by simp
  obtain fs' r where add: "add_dirent_root fresh 3 (cs ''motd'') 0 0 = (fs', r)" by fastforce
  note t = add_dirent_root_lookup [OF sb good_motd k kn add]
  have "find_dirent fresh (slash # cs ''motd'') = Some None"
    using find_dirent_root [OF sb good_motd] new_name_scan [OF sb fresh_facts(6) [OF good_motd]] by simp
  with t fresh_facts(3) obtain e where "r = Some e" by (cases r) auto
  with t add show ?thesis by auto
qed

section \<open>Listing the root directory\<close>

text \<open>The used entries in the order of the disk.\<close>

definition root_places :: "u32 \<Rightarrow> (u32 \<times> nat) list" where
  "root_places s = concat (map (\<lambda>i. map (\<lambda>j. (3 + of_nat i, j)) [0..<4]) [unat s..<16])"

definition listing :: "(u32 \<Rightarrow> buf) \<Rightarrow> (u32 \<times> nat) list \<Rightarrow> vfs_dirent list" where
  "listing d es = map (\<lambda>e. export_dirent (d (fst e)) (DIRENT_SIZE * snd e))
    (filter (\<lambda>e. d (fst e) (DIRENT_SIZE * snd e) \<noteq> 0) es)"

lemma list_sector_spec:
  "list_sector b 0 js n index =
    (let l = map (\<lambda>j. export_dirent b (DIRENT_SIZE * j)) (filter (\<lambda>j. b (DIRENT_SIZE * j) \<noteq> 0) js)
     in if n \<le> index \<and> index < n + int (length l) then Inl (l ! nat (index - n)) else Inr (n + int (length l)))"
proof (induction b "0 :: nat" js n index rule: list_sector.induct)
  case (2 b j js n index)
  moreover have "nat (index - (n + 1)) = nat (index - n) - Suc 0" by simp
  ultimately show ?case by (auto simp: Let_def nth_Cons' split: if_splits)
qed simp


lemma root_places_step: "s < 16 \<Longrightarrow> root_places s = map (\<lambda>j. (3 + s, j)) [0..<4] @ root_places (s + 1)"
proof -
  assume s: "s < 16"
  then have "unat (s + 1) = unat s + 1" "unat s < 16" using unat_plus_1 [OF s] by (simp_all add: word_less_nat_alt)
  then have "[unat s..<16] = unat s # [unat (s + 1)..<16]" by (simp add: upt_conv_Cons)
  then show ?thesis by (simp add: root_places_def del: upt_Suc upt_rec_numeral)
qed

lemma listing_append: "listing d (xs @ ys) = listing d xs @ listing d ys"
  by (simp add: listing_def)

lemma list_root_spec:
  assumes "g_sb fs = formatted_sb" and "s \<le> 16"
  shows "list_root fs 3 s n index =
    (let l = listing (disk fs) (root_places s)
     in if n \<le> index \<and> index < n + int (length l) then Some (l ! nat (index - n)) else None)"
  using assms
proof (induction fs "3 :: u32" s n index rule: list_root.induct)
  case (1 fs s n index)
  have r: "root_dir_sectors (g_sb fs) = 16" using "1.prems" by (simp add: formatted_sb_def)
  show ?case
  proof (cases "s < 16")
    case False
    with "1.prems" have "s = 16" by simp
    then show ?thesis using r
      by (subst list_root.simps) (simp add: root_places_def listing_def)
  next
    case True
    let ?b = "disk fs (3 + s)"
    let ?l = "listing (disk fs) (map (\<lambda>j. (3 + s, j)) [0..<4])" and ?l' = "listing (disk fs) (root_places (s + 1))"
    have l: "?l = map (\<lambda>j. export_dirent ?b (DIRENT_SIZE * j)) (filter (\<lambda>j. ?b (DIRENT_SIZE * j) \<noteq> 0) [0..<4])"
      by (simp add: listing_def filter_map comp_def del: upt_rec_numeral)
    have ls: "list_sector ?b 0 [0..<4] n index =
      (if n \<le> index \<and> index < n + int (length ?l) then Inl (?l ! nat (index - n)) else Inr (n + int (length ?l)))"
      unfolding l list_sector_spec Let_def ..
    have le: "s + 1 \<le> 16" using True unat_plus_1 [OF True] by (simp add: word_le_nat_alt word_less_nat_alt)
    have split: "listing (disk fs) (root_places s) = ?l @ ?l'"
      by (simp only: root_places_step [OF True] listing_append)
    show ?thesis
    proof (cases "n \<le> index \<and> index < n + int (length ?l)")
      case found: True
      then have "list_root fs 3 s n index = Some (?l ! nat (index - n))"
        using r True ls by (subst list_root.simps) simp
      moreover have "nat (index - n) < length ?l" using found by linarith
      ultimately show ?thesis using found unfolding split Let_def by (simp add: nth_append)
    next
      case False
      then have sec: "list_sector ?b 0 [0..<4] n index = Inr (n + int (length ?l))" using ls by simp
      have lt: "s < root_dir_sectors (g_sb fs)" using r True by simp
      have "list_root fs 3 s n index = list_root fs 3 (s + 1) (n + int (length ?l)) index"
        using lt sec by (subst list_root.simps) simp
      also have "\<dots> = (if n + int (length ?l) \<le> index \<and> index < n + int (length ?l) + int (length ?l')
          then Some (?l' ! nat (index - (n + int (length ?l)))) else None)"
        using "1.hyps" [OF lt sec "1.prems"(1) le] by (simp add: Let_def)
      finally have eq: "list_root fs 3 s n index =
        (if n + int (length ?l) \<le> index \<and> index < n + int (length ?l) + int (length ?l')
          then Some (?l' ! nat (index - (n + int (length ?l)))) else None)" .
      have "nat (index - (n + int (length ?l))) = nat (index - n) - length ?l" by arith
      moreover have "n + int (length ?l) \<le> index \<and> index < n + int (length ?l) + int (length ?l')
          \<longleftrightarrow> n \<le> index \<and> index < n + int (length (?l @ ?l'))" using False by auto
      moreover have "(?l @ ?l') ! nat (index - n) = ?l' ! (nat (index - n) - length ?l)"
        if "n \<le> index" using that False by (simp only: nth_append) auto
      ultimately show ?thesis unfolding eq split Let_def by (simp only: if_cancel cong: if_cong)
    qed
  qed
qed

text \<open>\<open>innofs_readdir\<close> on the root directory enumerates its used entries, in disk order, each
  exactly once: index \<open>i\<close> gives the \<open>i\<close>-th one, and any index outside the listing gives none.\<close>

theorem readdir_root_listing:
  assumes "g_sb fs = formatted_sb" and "g_innofs_mounted fs"
  shows "innofs_readdir fs [slash] index =
    Some (let l = listing (disk fs) (root_places 0)
          in if 0 \<le> index \<and> index < int (length l) then Some (l ! nat index) else None)"
proof -
  have "d_first_sector (root_dirent fs) = 3" using assms(1) by (simp add: root_dirent_def formatted_sb_def)
  then show ?thesis
    using list_root_spec [OF assms(1), of 0 0 index] assms(2) root_dirent_flags [of fs]
    by (simp add: innofs_readdir_def find_dirent_slash Let_def)
qed

theorem readdir_root_listing_witness: "innofs_readdir fresh [slash] 0 = Some None"
proof -
  have "disk fresh (fst e) (DIRENT_SIZE * snd e) = 0" if "e \<in> set (root_places 0)" for e
  proof -
    have "root_place e" using that
      by (auto simp: root_places_def root_place_def word_le_nat_alt word_less_nat_alt unat_word_ariths
          unat_of_nat take_bit_nat_eq_self simp del: upt_rec_numeral)
    with fresh_unused [of e] show ?thesis by (simp add: used_place_def)
  qed
  then have "listing (disk fresh) (root_places 0) = []"
    unfolding listing_def by (auto simp: filter_empty_conv simp del: upt_rec_numeral)
  moreover have "g_sb fresh = formatted_sb" using fresh_facts(1) by (simp add: fs_ok_def)
  ultimately show ?thesis using readdir_root_listing [OF _ fresh_facts(2), of 0] by simp
qed


section \<open>Removing a file of the root directory\<close>

lemma free_chain_spec:
  assumes "g_sb fs = formatted_sb" and "file_ok (disk fs) first xs"
  shows "\<exists>d'. free_chain fs first = Some (fs\<lparr>disk := d'\<rparr>)
    \<and> free_sectors d' = free_sectors (disk fs) \<union> set xs
    \<and> (\<forall>t. t \<noteq> 1 \<longrightarrow> t \<noteq> 2 \<longrightarrow> d' t = disk fs t)"
  using assms
proof (induction xs arbitrary: fs first)
  case Nil
  then have "free_chain fs first = Some (fs\<lparr>disk := disk fs\<rparr>)"
    by (subst free_chain.simps) (simp add: file_ok_def)
  then show ?case by (intro exI [of _ "disk fs"]) simp
next
  case (Cons x xs)
  then have x: "first = x" "x \<noteq> 0" "19 \<le> x" "x < 8192" "x \<notin> set xs"
    and ok: "chain (disk fs) (next_sector (disk fs x)) xs" "distinct xs"
      "\<forall>y \<in> set xs. 19 \<le> y \<and> y < 8192 \<and> sector_bit (disk fs) y"
    by (auto simp: file_ok_def)
  let ?d = "clear_sector_bit (disk fs) x"
  have same: "?d t = disk fs t" if "t \<noteq> 1" "t \<noteq> 2" for t
    using bitmap_lba [OF x(4)] that by (auto simp: clear_sector_bit_def Let_def)
  have bit: "sector_bit ?d y" if "y \<in> set xs" for y
    using ok(3) that x(5) sector_bits.test_clear by blast
  have "?d y = disk fs y" if "y \<in> set xs" for y
    using ok(3) that data_sector [of y] same by blast
  then have "chain ?d (next_sector (disk fs x)) xs"
    using ok(1) chain_cong [of xs ?d "disk fs"] by simp
  then have "file_ok ?d (next_sector (disk fs x)) xs" using ok bit by (simp add: file_ok_def)
  then have "\<exists>d'. free_chain (fs\<lparr>disk := ?d\<rparr>) (next_sector (disk fs x)) = Some (fs\<lparr>disk := d'\<rparr>)
    \<and> free_sectors d' = free_sectors ?d \<union> set xs \<and> (\<forall>t. t \<noteq> 1 \<longrightarrow> t \<noteq> 2 \<longrightarrow> d' t = ?d t)"
    using Cons.IH [of "fs\<lparr>disk := ?d\<rparr>" "next_sector (disk fs x)"] Cons.prems(1) by simp
  then obtain d' where d': "free_chain (fs\<lparr>disk := ?d\<rparr>) (next_sector (disk fs x)) = Some (fs\<lparr>disk := d'\<rparr>)"
    "free_sectors d' = free_sectors ?d \<union> set xs" "\<forall>t. t \<noteq> 1 \<longrightarrow> t \<noteq> 2 \<longrightarrow> d' t = ?d t" by blast
  have "\<not> x < 19" using x(3) by simp
  then have "free_chain fs first = Some (fs\<lparr>disk := d'\<rparr>)"
    using x d'(1) Cons.prems(1) by (subst free_chain.simps) (simp add: bitmap_free_spec)
  with d'(2,3) same free_after_clear [OF x(4), of "disk fs"] show ?case by auto
qed

text \<open>C24. Removing a file of the root directory, by a user with access to it, ends, gives all its
  sectors back to the bitmap, and makes its name unknown; the other names are not affected.\<close>

theorem rm_root_file:
  assumes sb: "g_sb fs = formatted_sb" and m: "g_innofs_mounted fs" and n: "good_name n"
    and e: "used_place (disk fs) e" "d_name (root_entry (disk fs) e) = n"
    and unique: "\<forall>e'. used_place (disk fs) e' \<longrightarrow> d_name (root_entry (disk fs) e') = n \<longrightarrow> e' = e"
    and acc: "check_access (root_entry (disk fs) e) uid"
    and ok: "file_ok (disk fs) (d_first_sector (root_entry (disk fs) e)) xs"
  shows "\<exists>fs'. innofs_rm fs junk (slash # n) uid = Some (fs', 0)
    \<and> free_sectors (disk fs') = free_sectors (disk fs) \<union> set xs
    \<and> find_dirent fs' (slash # n) = Some None
    \<and> (\<forall>e'. root_place e' \<longrightarrow> e' \<noteq> e \<longrightarrow> used_place (disk fs') e' = used_place (disk fs) e'
        \<and> root_entry (disk fs') e' = root_entry (disk fs) e')"
proof -
  have p: "root_place e" using e(1) by (simp add: used_place_def)
  note rs = root_sector_data [OF p]
  have scan: "scan_root fs (entry_is n) 3 0 = Some e"
    using unique by (intro unique_name_scan [OF sb e]) blast
  obtain d' where d': "free_chain fs (d_first_sector (root_entry (disk fs) e)) = Some (fs\<lparr>disk := d'\<rparr>)"
    "free_sectors d' = free_sectors (disk fs) \<union> set xs" "\<forall>t. t \<noteq> 1 \<longrightarrow> t \<noteq> 2 \<longrightarrow> d' t = disk fs t"
    using free_chain_spec [OF sb ok] by blast
  let ?d = "d'(fst e := (d' (fst e))(DIRENT_SIZE * snd e := 0))"
  have rm: "innofs_rm fs junk (slash # n) uid = Some (fs\<lparr>disk := ?d\<rparr>, 0)"
    using m find_dirent_root [OF sb n] scan acc d'(1)
    by (simp add: innofs_rm_def root_entry_def write_sector_def)
  have free: "free_sectors ?d = free_sectors (disk fs) \<union> set xs"
    using rs d'(2) by (simp add: free_sectors_data)
  have keep: "used_place ?d e' = used_place (disk fs) e'" "root_entry ?d e' = root_entry (disk fs) e'"
    if "e' \<noteq> e" "root_place e'" for e'
  proof -
    have same: "d' s = disk fs s" if "s < 19" "3 \<le> s" for s
    proof -
      have "s \<noteq> 1" "s \<noteq> 2" using that(2) by (auto simp: word_le_nat_alt)
      then show ?thesis using d'(3) by blast
    qed
    have "root_entry ?d e' = root_entry d' e'" "used_place ?d e' = used_place d' e'"
      by (rule other_place [OF that(1)]; auto)+
    then show "used_place ?d e' = used_place (disk fs) e'" "root_entry ?d e' = root_entry (disk fs) e'"
      using root_same [OF same that(2)] by simp_all
  qed
  have unused: "\<not> used_place ?d e" by (simp add: used_place_def)
  have "d_name (root_entry ?d e') \<noteq> n" if "used_place ?d e'" for e'
  proof -
    from that unused have "e' \<noteq> e" "root_place e'" by (auto simp: used_place_def)
    from keep [OF this] that unique this(1) show ?thesis by metis
  qed
  then have nn: "new_name (fs\<lparr>disk := ?d\<rparr>) n" using n unfolding new_name_def by simp
  have sb': "g_sb (fs\<lparr>disk := ?d\<rparr>) = formatted_sb" using sb by simp
  have "find_dirent (fs\<lparr>disk := ?d\<rparr>) (slash # n) = Some None"
    using find_dirent_root [OF sb' n] new_name_scan [OF sb' nn] by simp
  with rm free keep show ?thesis by (intro exI [of _ "fs\<lparr>disk := ?d\<rparr>"]) simp
qed


theorem rm_root_file_witness:
  "\<exists>fs fs'. innofs_rm fs (0, 0) (slash # cs ''motd'') 7 = Some (fs', 0)
    \<and> find_dirent fs' (slash # cs ''motd'') = Some None"
proof -
  let ?e = "(3, 0) :: u32 \<times> nat"
  let ?d = "put_entry (disk fresh) ?e (cs ''motd'') 7 0" and ?fs = "fresh\<lparr>disk := put_entry (disk fresh) (3, 0) (cs ''motd'') 7 0\<rparr>"
  have p: "root_place ?e" by (simp add: root_place_def)
  note pe = put_entry_spec [OF p good_motd, where d = "disk fresh" and uid = 7 and flags = 0]
  have sb: "g_sb ?fs = formatted_sb" using fresh_facts(1) by (simp add: fs_ok_def)
  have m: "g_innofs_mounted ?fs" using fresh_facts(2) by simp
  have e: "used_place (disk ?fs) ?e" "d_name (root_entry (disk ?fs) ?e) = cs ''motd''"
    using pe(1,2) by simp_all
  have u: "\<forall>e'. used_place (disk ?fs) e' \<longrightarrow> d_name (root_entry (disk ?fs) e') = cs ''motd'' \<longrightarrow> e' = ?e"
    using pe(4) fresh_unused by auto
  have a: "check_access (root_entry (disk ?fs) ?e) 7" using pe(1) by (simp add: check_access_def)
  have ok: "file_ok (disk ?fs) (d_first_sector (root_entry (disk ?fs) ?e)) []" using pe(1) by (simp add: file_ok_def)
  from rm_root_file [OF sb m good_motd e u a ok, of "(0, 0)"] show ?thesis by blast
qed

section \<open>Entries of subdirectories and the superblock\<close>

text \<open>C26. When a file of a subdirectory is closed after writing, its size and first sector are
  stored four bytes too early: the entry ends up with the first sector as its size and keeps
  its old first sector. For a new file that is 0, so nothing of the file can be read again.\<close>

theorem close_in_subdirectory:
  assumes valid: "valid_fd fs fd" and f: "f = g_open_files fs ! nat fd"
    and mode: "of_mode f AND (VFS_MODE_WRITE OR VFS_MODE_CREATE) \<noteq> 0"
  defines "off \<equiv> DATA_OFFSET + DIRENT_SIZE * dirent_index f"
  shows "d_size (dirent_at (disk (innofs_close fs fd) (dirent_sector f)) off) = of_first_sector f
    \<and> d_first_sector (dirent_at (disk (innofs_close fs fd) (dirent_sector f)) off) =
      d_first_sector (dirent_at (disk fs (dirent_sector f)) off)"
proof -
  let ?b = "disk fs (dirent_sector f)" and ?o = "DIRENT_SIZE * dirent_index f"
  have d: "disk (innofs_close fs fd) (dirent_sector f) =
      put_u32 (put_u32 ?b (?o + 116) (of_size f)) (?o + 120) (of_first_sector f)"
    using valid mode by (simp add: innofs_close_def f [symmetric] Let_def write_sector_def set_file_def)
  show ?thesis
    unfolding d by (simp add: dirent_at_def off_def DATA_OFFSET_def get_put_u32 get_put_u32_other
      add.commute [of 4] add.assoc)
qed

theorem close_in_subdirectory_witness:
  "d_size (dirent_at (disk (innofs_close (one_file 5 40) 0) 3) (4 + 127 * 0)) = 40"
proof -
  let ?f = "opened (3, 0) 5 40 7"
  have "valid_fd (one_file 5 40) 0" "?f = g_open_files (one_file 5 40) ! nat 0"
    "of_mode ?f AND (VFS_MODE_WRITE OR VFS_MODE_CREATE) \<noteq> 0"
    by (simp_all add: valid_fd_def one_file_def opened_def MAX_OPEN_FILES_def VFS_MODE_WRITE_def VFS_MODE_CREATE_def)
  from close_in_subdirectory [OF this] show ?thesis
    by (simp add: opened_def DATA_OFFSET_def DIRENT_SIZE_def)
qed


lemma mkdir_in_root:
  assumes sb: "g_sb fs = formatted_sb" and m: "g_innofs_mounted fs" and n: "new_name fs n" and room: "root_room fs"
  shows "\<exists>e. root_place e \<and> \<not> used_place (disk fs) e
    \<and> innofs_mkdir fs (slash # n) 0 flags = Some (fs\<lparr>disk := put_entry (disk fs) e n 0 (flags OR 1)\<rparr>, 0)"
proof -
  have good: "good_name n" using n by (simp add: new_name_def)
  obtain e where e: "root_place e" "\<not> used_place (disk fs) e"
    and add: "add_dirent_root fs 3 n 0 (flags OR 1) = (fs\<lparr>disk := put_entry (disk fs) e n 0 (flags OR 1)\<rparr>, Some e)"
    using add_dirent_root_cases [OF sb, of n 0 "flags OR 1"] n room unfolding new_name_def root_room_def by blast
  have root: "d_first_sector (root_dirent fs) = 3" using sb by (simp add: root_dirent_def formatted_sb_def)
  have "innofs_mkdir fs (slash # n) 0 flags = Some (fs\<lparr>disk := put_entry (disk fs) e n 0 (flags OR 1)\<rparr>, 0)"
    using m good split_path_root [of n] root_dirent_flags [of fs] root_access [of fs 0] root add
    by (cases e) (simp add: innofs_mkdir_def good_name_def find_dirent_slash add_dirent_def link_parent_def)
  with e show ?thesis by blast
qed

text \<open>The first entry of an empty directory: its new sector is linked from sector 0.\<close>

lemma mkdir_in_empty_dir:
  assumes fs: "fs_ok fs" and m: "g_innofs_mounted fs" and n: "good_name n" and k: "good_name k"
    and scan: "scan_root fs (entry_is n) 3 0 = Some e"
    and empty: "d_first_sector (root_entry (disk fs) e) = 0" and dir: "d_flags (root_entry (disk fs) e) AND 1 \<noteq> 0"
    and free: "free_sectors (disk fs) \<noteq> {}"
  shows "\<exists>s fs'. 19 \<le> s \<and> s < 8192 \<and> innofs_mkdir fs (slash # n @ slash # k) 0 flags = Some (fs', 0)
    \<and> fs_ok fs' \<and> g_innofs_mounted fs' \<and> disk fs' 0 = put_u32 (disk fs 0) 0 s
    \<and> (\<forall>e'. root_place e' \<longrightarrow> e' \<noteq> e \<longrightarrow> used_place (disk fs') e' = used_place (disk fs) e'
        \<and> root_entry (disk fs') e' = root_entry (disk fs) e')
    \<and> d_name (root_entry (disk fs') e) = d_name (root_entry (disk fs) e)
    \<and> g_open_files fs' = g_open_files fs"
proof -
  have sb: "g_sb fs = formatted_sb" using fs by (simp add: fs_ok_def)
  have p: "root_place e" by (rule scan_root_Some(1) [OF sb scan])
  note rs = root_sector_data [OF p]
  have e0: "fst e \<noteq> 0" using p by (auto simp: root_place_def word_le_nat_alt)
  obtain s where s: "s \<in> free_sectors (disk fs)" "19 \<le> s" "s < 8192"
    and alloc: "bitmap_alloc_sector fs = (fs\<lparr>disk := set_sector_bit (disk fs) s\<rparr>, s)"
    using alloc_data_sector [OF fs free] by blast
  note ds = data_sector [OF s(2)]
  have no_slash: "slash \<notin> set n" "slash \<notin> set k" using n k by (simp_all add: good_name_def)
  have ls: "last_slash (slash # n @ slash # k) 0 None = Some (Suc (length n))"
  proof -
    have "last_slash (xs @ slash # k) i acc = Some (i + length xs)" if "slash \<notin> set xs" for xs i acc
      using that no_slash(2) by (induction xs arbitrary: i acc) (auto simp: last_slash_none)
    from this [OF no_slash(1), of "Suc 0"] show ?thesis by simp
  qed
  have split: "split_path (slash # n @ slash # k) = Some (slash # n, k)"
    using ls by (simp add: split_path_def)
  have find: "find_dirent fs (slash # n) = Some (Some \<lparr>lk_place = Some e, lk_dirent = root_entry (disk fs) e,
      lk_in_root = False\<rparr>)"
    using find_dirent_root [OF sb n] scan by (simp add: root_entry_def)
  have chain0: "scan_chain fs P 0 0 = Some (Inr 0)" for P by (subst scan_chain.simps) simp
  let ?d1 = "set_sector_bit (disk fs) s"
  let ?d2 = "?d1(0 := put_u32 (?d1 0) 0 s)"
  let ?d3 = "?d2(s := fill_dirent (\<lambda>_. 0) DATA_OFFSET k 0 (flags OR 1))"
  have ext: "extend_dir fs 0 k 0 (flags OR 1) = (fs\<lparr>disk := ?d3\<rparr>, Some (s, 0))"
    using alloc ds by (simp add: extend_dir_def write_sector_def Let_def)
  let ?d4 = "?d3(fst e := put_u32 (?d3 (fst e)) (DIRENT_SIZE * snd e + 120) s)"
  have mk: "innofs_mkdir fs (slash # n @ slash # k) 0 flags = Some (fs\<lparr>disk := ?d4\<rparr>, 0)"
    using m split find dir empty ext chain0
    by (simp add: innofs_mkdir_def check_access_def add_dirent_def add_dirent_chain_def link_parent_def
        set_first_sector_def write_sector_def)
  have d1: "?d1 t = disk fs t" if "t \<noteq> 1" "t \<noteq> 2" for t by (rule set_sector_bit_data [OF s(3) that])
  have se: "s \<noteq> fst e" using s(2) rs by auto
  have bits: "sector_bit ?d4 t = sector_bit ?d1 t" if "t < 8192" for t
    using that rs ds by (simp add: sector_bit_data)
  have "sector_bit ?d4 t" if "t < 19" for t
  proof -
    have "t < 8192" using that by (simp add: word_less_nat_alt)
    with bits fs that sector_bits.test_set show ?thesis by (simp add: fs_ok_def)
  qed
  then have ok: "fs_ok (fs\<lparr>disk := ?d4\<rparr>)" using fs by (simp add: fs_ok_def)
  have z: "?d4 0 = put_u32 (disk fs 0) 0 s" using e0 ds d1 [of 0] by simp
  have root: "root_entry ?d3 e' = root_entry (disk fs) e'" "used_place ?d3 e' = used_place (disk fs) e'"
    if "root_place e'" for e'
  proof -
    have same: "?d3 t = disk fs t" if "t < 19" "3 \<le> t" for t
    proof -
      have "t \<noteq> 0" "t \<noteq> 1" "t \<noteq> 2" "t \<noteq> s" using that s(2) by (auto simp: word_le_nat_alt word_less_nat_alt)
      then show ?thesis using d1 by simp
    qed
    show "root_entry ?d3 e' = root_entry (disk fs) e'" "used_place ?d3 e' = used_place (disk fs) e'"
      by (rule root_same [where d' = ?d3 and d = "disk fs", OF same that]; assumption)+
  qed
  have others: "used_place ?d4 e' = used_place ?d3 e'" "root_entry ?d4 e' = root_entry ?d3 e'"
    if "e' \<noteq> e" for e'
    by (rule other_place [OF that]; auto simp: put_u32_other)+
  have "d_name (root_entry ?d4 e) = d_name (root_entry ?d3 e)"
  proof -
    have "bytes_at (put_u32 b (off + 120) w) off 116 = bytes_at b off 116" for b off w
      by (rule bytes_at_cong) (simp add: put_u32_other)
    then show ?thesis by (simp add: root_entry_def dirent_at_def)
  qed
  with s mk ok m z root [OF p] root others show ?thesis
    by (intro exI [of _ s] exI [of _ "fs\<lparr>disk := ?d4\<rparr>"]) simp
qed

text \<open>The first sector after formatting.\<close>

lemma mkfs_sector0:
  "\<exists>fs' s. innofs_mkfs fs = Some (fs', 0) \<and> g_innofs_mounted fs' \<and> 19 \<le> s \<and> s < 8192
    \<and> disk fs' 0 = put_u32 (sector_of_sb formatted_sb) 0 s"
proof -
  let ?f0 = "mkfs_layout fs"
  have sb0: "g_sb ?f0 = formatted_sb" by simp
  have m0: "g_innofs_mounted ?f0" by (simp add: mkfs_layout_def Let_def)
  have unused: "\<not> used_place (disk ?f0) e" for e
  proof
    assume u: "used_place (disk ?f0) e"
    then have "root_place e" by (simp add: used_place_def)
    then have "fst e \<noteq> 0" "fst e \<noteq> 1" "fst e < 19" by (auto simp: root_place_def word_le_nat_alt)
    then have "disk ?f0 (fst e) = (\<lambda>_. 0)" using mkfs_layout_disk [of fs "fst e"] by simp
    with u show False by (simp add: used_place_def)
  qed
  have places: "root_place (3, 0)" "root_place (3, 1)" "root_place (3, 2)" "(3, 0) \<noteq> (3 :: u32, 1 :: nat)"
    "(3, 0) \<noteq> (3 :: u32, 2 :: nat)" "(3, 1) \<noteq> (3 :: u32, 2 :: nat)"
    by (simp_all add: root_place_def)
  have good: "good_name (cs ''root'')" "good_name (cs ''global'')" "good_name (cs ''home'')"
    by (simp_all add: good_name_def slash_def)
  have "new_name ?f0 (cs ''root'')" "root_room ?f0"
    using good(1) unused places(1) unfolding new_name_def root_room_def by blast+
  from mkdir_in_root [OF sb0 m0 this, of 2] obtain e where e: "root_place e" "\<not> used_place (disk ?f0) e"
    and mk1: "innofs_mkdir ?f0 (slash # cs ''root'') 0 2 =
      Some (?f0\<lparr>disk := put_entry (disk ?f0) e (cs ''root'') 0 (2 OR 1)\<rparr>, 0)" by blast
  let ?f1 = "?f0\<lparr>disk := put_entry (disk ?f0) e (cs ''root'') 0 (2 OR 1)\<rparr>"
  note pe = put_entry_spec [OF e(1) good(1), where d = "disk ?f0" and uid = 0 and flags = "2 OR 1"]
  note rs = root_sector_data [OF e(1)]
  have "sector_bit (disk ?f1) t = sector_bit (disk ?f0) t" if "t < 8192" for t
    unfolding put_entry_def using that rs by (simp add: sector_bit_data)
  then have ok1: "fs_ok ?f1" using formatted_fs_ok [of fs] by (simp add: fs_ok_def word_less_nat_alt)
  have sb1: "g_sb ?f1 = formatted_sb" by simp
  have scan1: "scan_root ?f1 (entry_is (cs ''root'')) 3 0 = Some e"
    using pe unused by (intro unique_name_scan [OF sb1]) auto
  have "free_sectors (disk ?f1) = free_sectors (disk ?f0)"
    unfolding put_entry_def using rs by (simp add: free_sectors_data)
  moreover have "(19 :: u32) \<in> {s. 19 \<le> s \<and> s < 8192}" by (simp add: word_less_nat_alt)
  ultimately have fr: "free_sectors (disk ?f1) \<noteq> {}" unfolding formatted_free by blast
  have m1: "g_innofs_mounted ?f1" using m0 by simp
  have "d_first_sector (root_entry (disk ?f1) e) = 0" "d_flags (root_entry (disk ?f1) e) AND 1 \<noteq> 0"
    using pe(1) by simp_all
  from mkdir_in_empty_dir [OF ok1 m1 good(1,2) scan1 this fr, of 2] obtain s f2 where s: "19 \<le> s" "s < 8192"
    and mk2: "innofs_mkdir ?f1 (slash # cs ''root'' @ slash # cs ''global'') 0 2 = Some (f2, 0)"
    and f2: "fs_ok f2" "g_innofs_mounted f2" "disk f2 0 = put_u32 (disk ?f1 0) 0 s"
      "\<forall>e'. root_place e' \<longrightarrow> e' \<noteq> e \<longrightarrow> used_place (disk f2) e' = used_place (disk ?f1) e'
        \<and> root_entry (disk f2) e' = root_entry (disk ?f1) e'"
      "d_name (root_entry (disk f2) e) = d_name (root_entry (disk ?f1) e)" by blast
  have unused2: "\<not> used_place (disk f2) e'" if "root_place e'" "e' \<noteq> e" for e'
  proof -
    have "used_place (disk f2) e' = used_place (disk ?f1) e'" using f2(4) that by blast
    with pe(4) [OF that(2)] unused show ?thesis by simp
  qed
  have "d_name (root_entry (disk f2) e) = cs ''root''" using f2(5) pe(1) by simp
  moreover have "cs ''root'' \<noteq> cs ''home''" by simp
  moreover have "root_place e'" if "used_place (disk f2) e'" for e' using that by (simp add: used_place_def)
  ultimately have "new_name f2 (cs ''home'')" using good(3) unused2 unfolding new_name_def by metis
  moreover have "root_room f2" unfolding root_room_def using unused2 places by metis
  moreover have "g_sb f2 = formatted_sb" using f2(1) by (simp add: fs_ok_def)
  ultimately obtain e' where e': "root_place e'" and mk3: "innofs_mkdir f2 (slash # cs ''home'') 0 0 =
      Some (f2\<lparr>disk := put_entry (disk f2) e' (cs ''home'') 0 (0 OR 1)\<rparr>, 0)"
    using mkdir_in_root [of f2 "cs ''home''" 0] f2(2) by blast
  let ?f3 = "f2\<lparr>disk := put_entry (disk f2) e' (cs ''home'') 0 (0 OR 1)\<rparr>"
  have "fst e \<noteq> 0" "fst e' \<noteq> 0" using e(1) e' by (auto simp: root_place_def word_le_nat_alt)
  then have "disk ?f3 0 = put_u32 (disk ?f0 0) 0 s" using f2(3) by (simp add: put_entry_def)
  then have d0: "disk ?f3 0 = put_u32 (sector_of_sb formatted_sb) 0 s" by (simp add: mkfs_layout_disk)
  have paths: "cs ''/root'' = slash # cs ''root''" "cs ''/home'' = slash # cs ''home''"
    "cs ''/root/global'' = slash # cs ''root'' @ slash # cs ''global''" by (simp_all add: slash_def)
  have "innofs_mkfs fs = Some (?f3, 0)" unfolding innofs_mkfs_def paths mk1
    by (simp only: mk2 mk3 option.case prod.case)
  with s d0 f2(2) show ?thesis by (intro exI [of _ ?f3] exI [of _ s]) simp
qed

text \<open>C25. Formatting ends with a superblock that is not one: creating \<open>/root/global\<close> links its
  sector from sector 0 and so overwrites the start of the magic string. The next
  \<open>innofs_init\<close> on that disk does not mount it but formats it again.\<close>

theorem mkfs_overwrites_superblock:
  "\<exists>fs' s. innofs_mkfs fs = Some (fs', 0) \<and> g_innofs_mounted fs' \<and> 19 \<le> s \<and> s < 8192
    \<and> get_u32 (disk fs' 0) 0 = s \<and> take 12 (sb_magic (sb_of_sector (disk fs' 0))) \<noteq> INNOFS_MAGIC
    \<and> map_option snd (innofs_init fs') = Some 1"
proof -
  obtain fs' s where 1: "innofs_mkfs fs = Some (fs', 0)" "g_innofs_mounted fs'" "19 \<le> s" "s < 8192"
    "disk fs' 0 = put_u32 (sector_of_sb formatted_sb) 0 s" using mkfs_sector0 by blast
  have g: "get_u32 (disk fs' 0) 0 = s" by (simp add: 1(5) get_put_u32)
  have bad: "take 12 (sb_magic (sb_of_sector (disk fs' 0))) \<noteq> INNOFS_MAGIC"
  proof
    assume "take 12 (sb_magic (sb_of_sector (disk fs' 0))) = INNOFS_MAGIC"
    then have "take 12 (bytes_at (disk fs' 0) 0 16) ! 3 = INNOFS_MAGIC ! 3" by (simp add: sb_of_sector_def)
    then have "disk fs' 0 3 = of_char CHR ''o''" by (simp add: INNOFS_MAGIC_def)
    moreover have "disk fs' 0 3 = ucast (drop_bit 24 s)"
      by (simp add: 1(5) put_u32_def blit_def bytes_u32_def numeral_3_eq_3)
    moreover have "drop_bit 24 s = 0"
    proof -
      have "unat s div 2 ^ 24 = 0" using 1(4) by (simp add: word_less_nat_alt)
      then have "unat (drop_bit 24 s) = 0" by (simp add: drop_bit_eq_div unat_div)
      then show ?thesis by (metis unat_eq_zero)
    qed
    ultimately show False by simp
  qed
  obtain fs'' where "innofs_mkfs (fs'\<lparr>g_sb := sb_of_sector (disk fs' 0)\<rparr>) = Some (fs'', 0)"
    using mkfs_sector0 by blast
  then have "map_option snd (innofs_init fs') = Some 1" using bad by (simp add: innofs_init_def Let_def)
  with 1 g bad show ?thesis by blast
qed

end
