(* ===== verification/Vfs.thy ===== *)
theory Vfs
  imports Innofs_Dir
begin

text \<open>
  kernel/src/fs/vfs.c: path resolution against the current directory, and the entry points that
  pass resolved paths on to InnoFS. Strings are NUL-free byte lists; the buffers of 256 bytes are
  lists too, so that a path of 256 bytes or more, which the code cuts or lets overflow its
  buffers, is outside the model (\<open>fits\<close> in the lemmas). The abstraction of a path is its
  list of components.
\<close>

section \<open>State and path resolution\<close>

record vfs =
  v_fs :: innofs
  g_cwd :: "u8 list"

definition PATH_MAX :: nat where
  "PATH_MAX = 256"

definition dot :: u8 where
  "dot = of_char CHR ''.''"

text \<open>\<open>k_strncpy\<close> and \<open>k_strncat\<close> on strings.\<close>

definition strncpy_s :: "u8 list \<Rightarrow> nat \<Rightarrow> u8 list" where
  "strncpy_s s n = take n s"

definition strncat_s :: "u8 list \<Rightarrow> u8 list \<Rightarrow> nat \<Rightarrow> u8 list" where
  "strncat_s d s n = d @ take n s"

definition join_cwd :: "u8 list \<Rightarrow> u8 list \<Rightarrow> u8 list" where
  "join_cwd cwd name =
    (if name \<noteq> [] \<and> hd name = slash then strncpy_s name PATH_MAX
     else
       (let temp = strncpy_s cwd PATH_MAX;
            temp1 = (if temp \<noteq> [] \<and> last temp \<noteq> slash then strncat_s temp [slash] PATH_MAX else temp)
        in strncat_s temp1 name PATH_MAX))"

text \<open>The component at the start of a path that does not start with a slash, and the rest after
  the slash that ends it.\<close>

definition component :: "u8 list \<Rightarrow> u8 list \<times> u8 list" where
  "component p = (takeWhile (\<lambda>c. c \<noteq> slash) p, drop 1 (dropWhile (\<lambda>c. c \<noteq> slash) p))"

lemma component_shorter: "p \<noteq> [] \<Longrightarrow> hd p \<noteq> slash \<Longrightarrow> length (snd (component p)) < length p"
  using length_dropWhile_le [of "\<lambda>c. c \<noteq> slash" p]
  by (cases p) (auto simp: component_def le_imp_less_Suc dest: le_trans [rotated])

text \<open>One component against the stack of at most 32 components, kept with its top last.\<close>

definition push_component :: "u8 list list \<Rightarrow> u8 list \<Rightarrow> u8 list list" where
  "push_component stack c =
    (if c = [dot] then stack
     else if c = [dot, dot] then (if stack \<noteq> [] then butlast stack else stack)
     else if length stack < 32 then stack @ [c] else stack)"

function resolve_loop :: "u8 list \<Rightarrow> u8 list list \<Rightarrow> u8 list list" where
  "resolve_loop p stack =
    (let q = dropWhile (\<lambda>c. c = slash) p
     in if q = [] then stack
        else resolve_loop (snd (component q)) (push_component stack (fst (component q))))"
  by auto
termination
proof (relation "measure (\<lambda>(p, stack). length p)", goal_cases)
  case (2 p stack q)
  then have "hd q \<noteq> slash" using hd_dropWhile [of "\<lambda>c. c = slash" p] by auto
  with 2 have "length (snd (component q)) < length q" by (intro component_shorter) auto
  also have "length q \<le> length p" using 2 length_dropWhile_le by auto
  finally show ?case by simp
qed simp

declare resolve_loop.simps [simp del]

fun join_stack :: "u8 list \<Rightarrow> u8 list list \<Rightarrow> u8 list" where
  "join_stack abspath [] = abspath"
| "join_stack abspath (c # stack) = join_stack (strncat_s (strncat_s abspath [slash] PATH_MAX) c PATH_MAX) stack"

definition resolve_path :: "u8 list \<Rightarrow> u8 list \<Rightarrow> u8 list" where
  "resolve_path cwd name =
    (let stack = resolve_loop (join_cwd cwd name) []
     in if stack = [] then [slash] else join_stack [] stack)"

section \<open>Entry points\<close>

definition on_fs :: "vfs \<Rightarrow> (innofs \<times> 'a) option \<Rightarrow> (vfs \<times> 'a) option" where
  "on_fs v r = map_option (\<lambda>(fs, x). (v\<lparr>v_fs := fs\<rparr>, x)) r"

definition vfs_init :: "vfs \<Rightarrow> (vfs \<times> int) option" where
  "vfs_init v = on_fs v (innofs_init (v_fs v))"

definition vfs_mkfs :: "vfs \<Rightarrow> (vfs \<times> int) option" where
  "vfs_mkfs v = on_fs v (innofs_mkfs (v_fs v))"

definition vfs_open :: "vfs \<Rightarrow> u8 list \<Rightarrow> int \<Rightarrow> u16 \<Rightarrow> (vfs \<times> int) option" where
  "vfs_open v name mode uid = on_fs v (innofs_open (v_fs v) (resolve_path (g_cwd v) name) mode uid)"

definition vfs_read :: "vfs \<Rightarrow> int \<Rightarrow> u32 \<Rightarrow> vfs \<times> int \<times> u8 list" where
  "vfs_read v fd count = (case innofs_read (v_fs v) fd count of (fs, r) \<Rightarrow> (v\<lparr>v_fs := fs\<rparr>, r))"

definition vfs_write :: "vfs \<Rightarrow> int \<Rightarrow> u8 list \<Rightarrow> vfs \<times> int" where
  "vfs_write v fd xs = (case innofs_write (v_fs v) fd xs of (fs, r) \<Rightarrow> (v\<lparr>v_fs := fs\<rparr>, r))"

definition vfs_close :: "vfs \<Rightarrow> int \<Rightarrow> vfs" where
  "vfs_close v fd = v\<lparr>v_fs := innofs_close (v_fs v) fd\<rparr>"

definition vfs_rm :: "vfs \<Rightarrow> u32 \<times> nat \<Rightarrow> u8 list \<Rightarrow> u16 \<Rightarrow> (vfs \<times> int) option" where
  "vfs_rm v junk name uid = on_fs v (innofs_rm (v_fs v) junk (resolve_path (g_cwd v) name) uid)"

definition vfs_mkdir :: "vfs \<Rightarrow> u8 list \<Rightarrow> u16 \<Rightarrow> u8 \<Rightarrow> (vfs \<times> int) option" where
  "vfs_mkdir v name owner_uid flags =
    on_fs v (innofs_mkdir (v_fs v) (resolve_path (g_cwd v) name) owner_uid flags)"

text \<open>A null \<open>dir_path\<close> is \<open>None\<close>.\<close>

definition vfs_readdir :: "vfs \<Rightarrow> u8 list option \<Rightarrow> int \<Rightarrow> vfs_dirent option option" where
  "vfs_readdir v dir_path index =
    (let abspath = (case dir_path of
        None \<Rightarrow> strncpy_s (g_cwd v) PATH_MAX
      | Some p \<Rightarrow> if p = [] then strncpy_s (g_cwd v) PATH_MAX else resolve_path (g_cwd v) p)
     in innofs_readdir (v_fs v) abspath index)"

definition vfs_set_cwd :: "vfs \<Rightarrow> u8 list option \<Rightarrow> vfs" where
  "vfs_set_cwd v path =
    (case path of
      None \<Rightarrow> v
    | Some p \<Rightarrow>
        (let temp = resolve_path (g_cwd v) p;
             temp1 = (if 1 < length temp \<and> last temp = slash then butlast temp else temp)
         in v\<lparr>g_cwd := strncpy_s temp1 PATH_MAX\<rparr>))"

definition vfs_get_cwd :: "vfs \<Rightarrow> u8 list" where
  "vfs_get_cwd v = g_cwd v"

section \<open>Components\<close>

text \<open>The components of a path: the non-empty runs between slashes.\<close>

fun split_slash :: "u8 list \<Rightarrow> u8 list \<Rightarrow> u8 list list" where
  "split_slash acc [] = (if acc = [] then [] else [acc])"
| "split_slash acc (c # p) =
    (if c = slash then (if acc = [] then [] else [acc]) @ split_slash [] p else split_slash (acc @ [c]) p)"

definition components :: "u8 list \<Rightarrow> u8 list list" where
  "components p = split_slash [] p"

definition render :: "u8 list list \<Rightarrow> u8 list" where
  "render ks = (if ks = [] then [slash] else concat (map (\<lambda>c. slash # c) ks))"

definition plain :: "u8 list \<Rightarrow> bool" where
  "plain c \<longleftrightarrow> c \<noteq> [] \<and> slash \<notin> set c \<and> c \<noteq> [dot] \<and> c \<noteq> [dot, dot]"

definition normal :: "u8 list list \<Rightarrow> u8 list list" where
  "normal ks = fold (\<lambda>c st. push_component st c) ks []"

lemma components_Nil [simp]: "components [] = []"
  by (simp add: components_def)

lemma components_slash [simp]: "components (slash # p) = components p"
  by (simp add: components_def)

lemma split_slash_run:
  "slash \<notin> set c \<Longrightarrow> split_slash acc (c @ slash # p) = (if acc @ c = [] then [] else [acc @ c]) @ components p"
  by (induction c arbitrary: acc) (auto simp: components_def)

lemma split_slash_end: "slash \<notin> set c \<Longrightarrow> split_slash acc c = (if acc @ c = [] then [] else [acc @ c])"
  by (induction c arbitrary: acc) auto

lemma components_run: "slash \<notin> set c \<Longrightarrow> components (c @ slash # p) = (if c = [] then [] else [c]) @ components p"
  using split_slash_run [of c "[]" p] by (simp add: components_def)

lemma components_end: "slash \<notin> set c \<Longrightarrow> components c = (if c = [] then [] else [c])"
  using split_slash_end [of c "[]"] by (simp add: components_def)

lemma components_dropWhile: "components (dropWhile (\<lambda>c. c = slash) p) = components p"
  by (induction p) auto

lemma components_split:
  assumes "q \<noteq> []" and "hd q \<noteq> slash"
  shows "components q = fst (component q) # components (snd (component q))"
proof -
  let ?t = "takeWhile (\<lambda>c. c \<noteq> slash) q" and ?d = "dropWhile (\<lambda>c. c \<noteq> slash) q"
  have t: "slash \<notin> set ?t" by (auto dest: set_takeWhileD)
  have ne: "?t \<noteq> []" using assms by (cases q) auto
  have q: "q = ?t @ ?d" by simp
  show ?thesis
  proof (cases ?d)
    case Nil
    then have "components q = components ?t" using q by (metis append_Nil2)
    then have "components q = [?t]" using components_end [OF t] ne by (simp del: takeWhile_eq_Nil_iff)
    moreover have "snd (component q) = []" unfolding component_def snd_conv Nil by simp
    ultimately show ?thesis by (simp add: component_def)
  next
    case (Cons x d)
    then have "x = slash" using hd_dropWhile [of "\<lambda>c. c \<noteq> slash" q] by auto
    then have "components q = components (?t @ slash # d)" using q Cons by simp
    also have "\<dots> = ?t # components d" using components_run [OF t, of d] ne by simp
    finally show ?thesis using Cons by (simp add: component_def)
  qed
qed

lemma resolve_loop_fold: "resolve_loop p stack = fold (\<lambda>c st. push_component st c) (components p) stack"
proof (induction p stack rule: resolve_loop.induct)
  case (1 p stack)
  let ?q = "dropWhile (\<lambda>c. c = slash) p"
  show ?case
  proof (cases "?q = []")
    case True
    then have "components p = []" by (metis components_Nil components_dropWhile)
    with True show ?thesis by (subst resolve_loop.simps) simp
  next
    case False
    then have "hd ?q \<noteq> slash" using hd_dropWhile [of "\<lambda>c. c = slash" p] by auto
    from components_split [OF False this] components_dropWhile [of p]
    have "components p = fst (component ?q) # components (snd (component ?q))" by simp
    then show ?thesis
      unfolding resolve_loop.simps [of p stack] Let_def if_not_P [OF False] 1 [OF refl False] by simp
  qed
qed


section \<open>Normal forms\<close>

lemma push_plain: "(\<forall>k \<in> set st. plain k) \<Longrightarrow> c \<noteq> [] \<Longrightarrow> slash \<notin> set c \<Longrightarrow> \<forall>k \<in> set (push_component st c). plain k"
  by (auto simp: push_component_def plain_def dest: in_set_butlastD)

lemma push_length: "length st \<le> 32 \<Longrightarrow> length (push_component st c) \<le> 32"
  by (auto simp: push_component_def)

lemma split_slash_plain: "slash \<notin> set acc \<Longrightarrow> k \<in> set (split_slash acc p) \<Longrightarrow> k \<noteq> [] \<and> slash \<notin> set k"
  by (induction acc p rule: split_slash.induct) (auto split: if_splits)

lemma components_ok: "k \<in> set (components p) \<Longrightarrow> k \<noteq> [] \<and> slash \<notin> set k"
  using split_slash_plain [of "[]"] by (simp add: components_def)

lemma fold_push:
  assumes "\<forall>k \<in> set ks. k \<noteq> [] \<and> slash \<notin> set k" and "\<forall>k \<in> set st. plain k" and "length st \<le> 32"
  shows "(\<forall>k \<in> set (fold (\<lambda>c st. push_component st c) ks st). plain k)
    \<and> length (fold (\<lambda>c st. push_component st c) ks st) \<le> 32"
  using assms
proof (induction ks arbitrary: st)
  case (Cons k ks)
  have "\<forall>j \<in> set (push_component st k). plain j" using Cons.prems by (intro push_plain) auto
  with Cons.IH [of "push_component st k"] Cons.prems push_length show ?case by simp
qed simp

lemma normal_plain: "\<forall>k \<in> set (normal (components p)). plain k" "length (normal (components p)) \<le> 32"
  using fold_push [of "components p" "[]"] components_ok [of _ p] by (auto simp: normal_def)

lemma fold_push_plain:
  "\<forall>k \<in> set ks. plain k \<Longrightarrow> length st + length ks \<le> 32 \<Longrightarrow> fold (\<lambda>c st. push_component st c) ks st = st @ ks"
  by (induction ks arbitrary: st) (auto simp: push_component_def plain_def)

lemma normal_id: "\<forall>k \<in> set ks. plain k \<Longrightarrow> length ks \<le> 32 \<Longrightarrow> normal ks = ks"
  using fold_push_plain [of ks "[]"] by (simp add: normal_def)

lemma normal_append: "normal (ks @ js) = fold (\<lambda>c st. push_component st c) js (normal ks)"
  by (simp add: normal_def)

lemma components_slash_run:
  assumes "k \<noteq> []" and "slash \<notin> set k" and "p = [] \<or> hd p = slash"
  shows "components (slash # k @ p) = k # components p"
proof (cases p)
  case Nil
  with assms components_end [of k] show ?thesis by simp
next
  case (Cons x q)
  with assms components_run [of k q] show ?thesis by simp
qed

lemma render_head: "concat (map (\<lambda>c. slash # c) ks) = [] \<or> hd (concat (map (\<lambda>c. slash # c) ks)) = slash"
  by (cases ks) auto

lemma components_render: "\<forall>k \<in> set ks. plain k \<Longrightarrow> components (render ks) = ks"
proof -
  have "components (concat (map (\<lambda>c. slash # c) ks)) = ks" if "\<forall>k \<in> set ks. plain k"
    using that
  proof (induction ks)
    case (Cons k ks)
    then show ?case using components_slash_run [OF _ _ render_head [of ks], of k] by (simp add: plain_def)
  qed simp
  then show "\<forall>k \<in> set ks. plain k \<Longrightarrow> components (render ks) = ks" by (simp add: render_def)
qed

section \<open>Lengths\<close>

definition path_size :: "u8 list list \<Rightarrow> nat" where
  "path_size ks = sum_list (map (\<lambda>k. Suc (length k)) ks)"

lemma path_size_simps [simp]:
  "path_size [] = 0" "path_size (k # ks) = Suc (length k) + path_size ks"
  "path_size (ks @ js) = path_size ks + path_size js"
  by (simp_all add: path_size_def)

lemma length_render: "length (render ks) = max 1 (path_size ks)"
proof -
  have "length (concat (map (\<lambda>c. slash # c) ks)) = path_size ks" by (induction ks) auto
  then show ?thesis by (cases ks) (auto simp: render_def)
qed

lemma path_size_butlast: "path_size (butlast ks) \<le> path_size ks"
  by (induction ks) auto

lemma path_size_fold: "path_size (fold (\<lambda>c st. push_component st c) ks st) \<le> path_size st + path_size ks"
proof (induction ks arbitrary: st)
  case (Cons k ks)
  have "path_size (push_component st k) \<le> path_size st + Suc (length k)"
    using path_size_butlast [of st] by (auto simp: push_component_def)
  with Cons.IH [of "push_component st k"] show ?case by simp
qed simp

lemma path_size_split: "path_size (split_slash acc p) \<le> Suc (length acc + length p)"
  by (induction acc p rule: split_slash.induct) (auto split: if_splits)

lemma path_size_components: "path_size (components p) \<le> Suc (length p)"
  using path_size_split [of "[]" p] by (simp add: components_def)

lemma path_size_absolute: "p \<noteq> [] \<Longrightarrow> hd p = slash \<Longrightarrow> path_size (components p) \<le> length p"
  using path_size_components [of "tl p"] by (cases p) auto

lemma path_size_member: "k \<in> set ks \<Longrightarrow> length k < path_size ks"
  by (induction ks) auto

section \<open>Resolution\<close>

definition fits :: "u8 list \<Rightarrow> u8 list \<Rightarrow> bool" where
  "fits cwd name \<longleftrightarrow> length cwd + length name < 255"

definition canonical :: "u8 list \<Rightarrow> bool" where
  "canonical p \<longleftrightarrow> (\<exists>ks. p = render ks \<and> (\<forall>k \<in> set ks. plain k) \<and> length ks \<le> 32)"

lemma join_stack_concat:
  "\<forall>k \<in> set ks. length k \<le> 256 \<Longrightarrow> join_stack p ks = p @ concat (map (\<lambda>c. slash # c) ks)"
  by (induction ks arbitrary: p) (auto simp: strncat_s_def PATH_MAX_def)

lemma canonical_absolute: "canonical p \<Longrightarrow> p \<noteq> [] \<and> hd p = slash"
proof -
  assume "canonical p"
  then obtain ks where "p = render ks" unfolding canonical_def by blast
  then show ?thesis by (cases ks) (auto simp: render_def)
qed

lemma components_join:
  assumes "fits cwd name" and "canonical cwd"
  shows "components (join_cwd cwd name) =
      (if name \<noteq> [] \<and> hd name = slash then components name else components cwd @ components name)"
    and "join_cwd cwd name \<noteq> []" and "hd (join_cwd cwd name) = slash" and "length (join_cwd cwd name) < 256"
proof -
  obtain ks where ks: "cwd = render ks" "\<forall>k \<in> set ks. plain k" using assms(2) by (auto simp: canonical_def)
  have c: "cwd \<noteq> []" "hd cwd = slash" using canonical_absolute [OF assms(2)] by auto
  have len: "length cwd + length name < 255" using assms(1) by (simp add: fits_def)
  have join: "join_cwd cwd name = (if name \<noteq> [] \<and> hd name = slash then name
      else if last cwd \<noteq> slash then cwd @ slash # name else cwd @ name)"
    using len c by (auto simp: join_cwd_def strncpy_s_def strncat_s_def PATH_MAX_def Let_def)
  have run: "components (concat (map (\<lambda>c. slash # c) ks) @ slash # name) = ks @ components name"
    using ks(2)
  proof (induction ks)
    case (Cons k ks)
    have "concat (map (\<lambda>c. slash # c) ks) @ slash # name = [] \<or>
        hd (concat (map (\<lambda>c. slash # c) ks) @ slash # name) = slash"
      by (cases ks) auto
    with Cons show ?case
      using components_slash_run [of k "concat (map (\<lambda>c. slash # c) ks) @ slash # name"]
      by (simp add: plain_def)
  qed simp
  have lastp: "last cwd \<noteq> slash" if "ks \<noteq> []"
  proof -
    have "last ks \<in> set ks" using that by simp
    with ks(2) have l: "last ks \<noteq> []" "slash \<notin> set (last ks)" by (auto simp: plain_def)
    have "concat (map (\<lambda>c. slash # c) ks) = concat (map (\<lambda>c. slash # c) (butlast ks)) @ slash # last ks"
      using that by (metis (no_types, lifting) append_butlast_last_id concat.simps concat_append list.simps(8,9)
        map_append append_Nil2)
    then have "last cwd = last (last ks)" using that ks(1) l(1) by (simp add: render_def)
    with l show ?thesis by (metis last_in_set)
  qed
  show "components (join_cwd cwd name) =
      (if name \<noteq> [] \<and> hd name = slash then components name else components cwd @ components name)"
  proof (cases "ks = []")
    case True
    then show ?thesis using join ks(1) by (simp add: render_def)
  next
    case False
    then have cwd: "cwd = concat (map (\<lambda>c. slash # c) ks)" using ks(1) by (simp add: render_def)
    with lastp [OF False] components_render [OF ks(2)] run show ?thesis
      unfolding join by (cases "name = []") (simp_all add: ks(1) [symmetric])
  qed
  show "join_cwd cwd name \<noteq> []" "hd (join_cwd cwd name) = slash" "length (join_cwd cwd name) < 256"
    using join c len by auto
qed

lemma resolve_render:
  assumes "fits cwd name" and "canonical cwd"
  shows "resolve_path cwd name = render (normal (components (join_cwd cwd name)))"
    and "canonical (resolve_path cwd name)" and "length (resolve_path cwd name) < 256"
proof -
  let ?p = "join_cwd cwd name"
  note cj = components_join [OF assms]
  have size: "path_size (normal (components ?p)) < 256"
    using path_size_fold [of "components ?p" "[]"] path_size_absolute [OF cj(2,3)] cj(4)
    by (simp add: normal_def)
  have "length k \<le> 256" if "k \<in> set (normal (components ?p))" for k
    using path_size_member [OF that] size by simp
  then have js: "join_stack [] (normal (components ?p)) = concat (map (\<lambda>c. slash # c) (normal (components ?p)))"
    using join_stack_concat [of "normal (components ?p)" "[]"] by simp
  show r: "resolve_path cwd name = render (normal (components ?p))"
    unfolding resolve_path_def resolve_loop_fold normal_def [symmetric] Let_def render_def js ..
  show "canonical (resolve_path cwd name)" using r normal_plain [of ?p] unfolding canonical_def by blast
  show "length (resolve_path cwd name) < 256" using size by (simp add: r length_render)
qed

section \<open>Properties of path resolution\<close>



text \<open>Changing the current directory keeps it canonical, and it behaves as a move in the
  tree: the new directory's components are the normal form of the old ones followed by those
  of the name, or of the name alone when it is absolute.\<close>

theorem vfs_set_cwd_invariant:
  assumes cwd: "canonical (vfs_get_cwd v)" and fits: "fits (vfs_get_cwd v) name"
  shows "canonical (vfs_get_cwd (vfs_set_cwd v (Some name)))
    \<and> components (vfs_get_cwd (vfs_set_cwd v (Some name))) = normal
        (if name \<noteq> [] \<and> hd name = slash then components name
         else components (vfs_get_cwd v) @ components name)
    \<and> v_fs (vfs_set_cwd v (Some name)) = v_fs v"
proof -
  let ?p = "resolve_path (g_cwd v) name"
  from cwd fits have c: "canonical (g_cwd v)" and f: "fits (g_cwd v) name" by (simp_all add: vfs_get_cwd_def)
  let ?ks = "normal (components (join_cwd (g_cwd v) name))"
  note np = normal_plain [of "join_cwd (g_cwd v) name"]
  have r: "?p = render ?ks" "length ?p < 256" using resolve_render [OF f c] by simp_all
  have "last (render ks) \<noteq> slash" if "\<forall>k \<in> set ks. plain k" "ks \<noteq> []" for ks
  proof -
    have "render ks = concat (map (\<lambda>c. slash # c) (butlast ks)) @ slash # last ks"
      using that(2) by (metis (no_types, lifting) append_Nil2 append_butlast_last_id concat.simps concat_append
        list.simps(8,9) map_append render_def)
    moreover have "last ks \<noteq> []" "slash \<notin> set (last ks)" using that by (auto simp: plain_def)
    ultimately show ?thesis by (metis last_ConsR last_appendR last_in_set list.distinct(1))
  qed
  then have "1 < length ?p \<longrightarrow> last ?p \<noteq> slash" using np r(1) by (cases "?ks = []") (auto simp: render_def)
  then have set: "g_cwd (vfs_set_cwd v (Some name)) = ?p"
    using r(2) by (auto simp: vfs_set_cwd_def Let_def strncpy_s_def PATH_MAX_def)
  have "components ?p = ?ks" using components_render [OF np(1)] by (simp add: r(1))
  with set resolve_render(2) [OF f c] components_join(1) [OF f c] show ?thesis
    by (simp add: vfs_get_cwd_def) (simp add: vfs_set_cwd_def Let_def)
qed

theorem vfs_set_cwd_invariant_witness:
  "components (vfs_get_cwd (vfs_set_cwd \<lparr>v_fs = blank, g_cwd = [slash]\<rparr> (Some (cs ''home/..//tmp/'')))) = [cs ''tmp'']"
proof -
  let ?v = "\<lparr>v_fs = blank, g_cwd = [slash]\<rparr>"
  have "[slash] = render []" by (simp add: render_def)
  then have "canonical (vfs_get_cwd ?v)" unfolding canonical_def vfs_get_cwd_def
    by (intro exI [of _ "[]"]) simp
  from vfs_set_cwd_invariant [OF this, of "cs ''home/..//tmp/''"] show ?thesis
    by (simp add: vfs_get_cwd_def fits_def components_def slash_def normal_def push_component_def dot_def)
qed

end
