(* ===== verification/Users.thy ===== *)
theory Users
  imports Vfs "HOL-Library.Monad_Syntax"
begin

text \<open>
  userspace/src/user.c: the user table, its hash of passwords, and its copy on disk. The array
  \<open>g_users\<close> is the buffer of 16 * 56 bytes that the code reads and writes as one file: in a
  \<open>user_t\<close>, \<open>used\<close> is at 0, \<open>uid\<close> at 4, \<open>username\<close> at 8, \<open>password_hash\<close> at 40 and
  \<open>is_admin\<close> at 48. A pointer to a user is the index of its slot, and a null pointer is \<open>None\<close>
  . The outer option of the operations that reach the file system is that of the walks of
  \<open>Innofs\<close>.
\<close>

section \<open>State and layout\<close>

definition USER_MAX :: nat where
  "USER_MAX = 16"

definition USER_NAME_MAX :: nat where
  "USER_NAME_MAX = 32"

definition USER_SIZE :: nat where
  "USER_SIZE = 56"

record users =
  u_vfs :: vfs
  g_users :: buf
  g_user_count :: u32
  g_next_uid :: u32

definition user_used :: "buf \<Rightarrow> nat \<Rightarrow> bool" where
  "user_used b i \<longleftrightarrow> b (USER_SIZE * i) \<noteq> 0"

definition user_uid :: "buf \<Rightarrow> nat \<Rightarrow> u32" where
  "user_uid b i = get_u32 b (USER_SIZE * i + 4)"

definition user_name :: "buf \<Rightarrow> nat \<Rightarrow> u8 list" where
  "user_name b i = cstring (bytes_at b (USER_SIZE * i + 8) USER_NAME_MAX)"

definition user_hash :: "buf \<Rightarrow> nat \<Rightarrow> u64" where
  "user_hash b i = get_u64 b (USER_SIZE * i + 40)"

definition user_admin :: "buf \<Rightarrow> nat \<Rightarrow> bool" where
  "user_admin b i \<longleftrightarrow> b (USER_SIZE * i + 48) \<noteq> 0"

definition set_hash :: "buf \<Rightarrow> nat \<Rightarrow> u64 \<Rightarrow> buf" where
  "set_hash b i h = put_u64 b (USER_SIZE * i + 40) h"

definition set_admin :: "buf \<Rightarrow> nat \<Rightarrow> bool \<Rightarrow> buf" where
  "set_admin b i adm = b(USER_SIZE * i + 48 := of_bool adm)"

text \<open>The fields of a new user, in the order in which \<open>user_add\<close> assigns them.\<close>

definition fill_user :: "buf \<Rightarrow> nat \<Rightarrow> u32 \<Rightarrow> u8 list \<Rightarrow> u64 \<Rightarrow> bool \<Rightarrow> buf" where
  "fill_user b i uid name h adm =
    (let b1 = b(USER_SIZE * i := 1);
         b2 = put_u32 b1 (USER_SIZE * i + 4) uid;
         b3 = blit b2 (USER_SIZE * i + 8) (pad_to (USER_NAME_MAX - 1) name);
         b4 = b3(USER_SIZE * i + 8 + (USER_NAME_MAX - 1) := 0);
         b5 = set_hash b4 i h
     in set_admin b5 i adm)"

section \<open>Passwords\<close>

definition user_hash_password :: "u8 list \<Rightarrow> u64" where
  "user_hash_password password = foldl (\<lambda>hash c. (push_bit 5 hash + hash) + ucast c) 5381 password"

section \<open>The copy on disk\<close>

definition USERS_CFG :: "u8 list" where
  "USERS_CFG = cs ''/root/users.cfg''"

definition users_bytes :: "buf \<Rightarrow> u8 list" where
  "users_bytes b = bytes_at b 0 (USER_MAX * USER_SIZE)"

definition user_save_to_disk :: "users \<Rightarrow> users option" where
  "user_save_to_disk u =
    map_option (\<lambda>(v, fd).
      if 0 \<le> fd then
        (let v1 = fst (vfs_write v fd (bytes_u32 (g_user_count u)));
             v2 = fst (vfs_write v1 fd (bytes_u32 (g_next_uid u)));
             v3 = fst (vfs_write v2 fd (users_bytes (g_users u)))
         in u\<lparr>u_vfs := vfs_close v3 fd\<rparr>)
      else u\<lparr>u_vfs := v\<rparr>)
    (vfs_open (u_vfs u) USERS_CFG (VFS_MODE_WRITE + VFS_MODE_CREATE) 0)"

text \<open>A read into a \<open>u32\<close> overwrites as many of its bytes as were read.\<close>

definition read_into :: "u32 \<Rightarrow> u8 list \<Rightarrow> u32" where
  "read_into w xs = get_u32 (blit (put_u32 (\<lambda>_. 0) 0 w) 0 xs) 0"

definition user_load_from_disk :: "users \<Rightarrow> (users \<times> bool) option" where
  "user_load_from_disk u =
    map_option (\<lambda>(v, fd).
      if 0 \<le> fd then
        (case vfs_read v fd 4 of (v1, n1, xs1) \<Rightarrow>
          let u1 = u\<lparr>g_user_count := read_into (g_user_count u) xs1\<rparr> in
          if n1 \<le> 0 then (u1\<lparr>u_vfs := vfs_close v1 fd\<rparr>, False)
          else (case vfs_read v1 fd 4 of (v2, n2, xs2) \<Rightarrow>
            let u2 = u1\<lparr>g_next_uid := read_into (g_next_uid u1) xs2\<rparr> in
            if n2 \<le> 0 then (u2\<lparr>u_vfs := vfs_close v2 fd\<rparr>, False)
            else (case vfs_read v2 fd (of_nat (USER_MAX * USER_SIZE)) of (v3, n3, xs3) \<Rightarrow>
              let u3 = u2\<lparr>g_users := blit (g_users u2) 0 xs3\<rparr> in
              if n3 \<le> 0 then (u3\<lparr>u_vfs := vfs_close v3 fd\<rparr>, False)
              else (u3\<lparr>u_vfs := vfs_close v3 fd\<rparr>, True))))
      else (u\<lparr>u_vfs := v\<rparr>, False))
    (vfs_open (u_vfs u) USERS_CFG VFS_MODE_READ 0)"

section \<open>Operations\<close>

text \<open>The loops over the slots return from the first slot that satisfies the test.\<close>

function find_slot :: "(nat \<Rightarrow> bool) \<Rightarrow> nat \<Rightarrow> nat option" where
  "find_slot P i = (if i < USER_MAX then if P i then Some i else find_slot P (i + 1) else None)"
  by auto
termination by (relation "measure (\<lambda>(P, i). USER_MAX - i)") auto

declare find_slot.simps [simp del]

definition named :: "buf \<Rightarrow> u8 list \<Rightarrow> nat \<Rightarrow> bool" where
  "named b username i \<longleftrightarrow> user_used b i \<and> user_name b i = username"

definition user_authenticate :: "users \<Rightarrow> u8 list \<Rightarrow> u8 list \<Rightarrow> nat option" where
  "user_authenticate u username password =
    find_slot (\<lambda>i. named (g_users u) username i \<and> user_hash (g_users u) i = user_hash_password password) 0"

definition user_auto_login :: "users \<Rightarrow> nat option" where
  "user_auto_login u =
    (case find_slot (\<lambda>i. user_used (g_users u) i \<and> user_admin (g_users u) i) 0 of
      Some i \<Rightarrow> Some i
    | None \<Rightarrow> find_slot (user_used (g_users u)) 0)"

definition homedir_of :: "u8 list \<Rightarrow> u8 list" where
  "homedir_of username =
    (if username = cs ''root'' then cs ''/root'' else strncat_s (cs ''/home/'') username 64)"

definition welcome_msg :: "u8 list" where
  "welcome_msg = cs ''Welcome to InnovatiOS!'' @ [10] @ cs ''Enjoy your new account.'' @ [10]"

text \<open>The home directory and the welcome file of a new user.\<close>

definition make_home :: "vfs \<Rightarrow> u8 list \<Rightarrow> u16 \<Rightarrow> vfs option" where
  "make_home v username uid =
    do {
      v1 \<leftarrow> (if username = cs ''root'' then Some v
             else map_option fst (vfs_mkdir v (homedir_of username) uid 4));
      (v2, wfd) \<leftarrow> vfs_open v1 (strncat_s (homedir_of username) (cs ''/welcome.txt'') 128)
                     (VFS_MODE_WRITE + VFS_MODE_CREATE) uid;
      Some (if 0 \<le> wfd then vfs_close (fst (vfs_write v2 wfd welcome_msg)) wfd else v2)
    }"

definition user_add :: "users \<Rightarrow> u8 list \<Rightarrow> u8 list \<Rightarrow> bool \<Rightarrow> (users \<times> int) option" where
  "user_add u username password adm =
    (if of_nat USER_MAX \<le> g_user_count u then Some (u, - 1)
     else if find_slot (named (g_users u) username) 0 \<noteq> None then Some (u, - 2)
     else (case find_slot (\<lambda>i. \<not> user_used (g_users u) i) 0 of
       None \<Rightarrow> Some (u, - 1)
     | Some i \<Rightarrow>
         (let u1 = u\<lparr>g_users := fill_user (g_users u) i (g_next_uid u) username (user_hash_password password) adm,
                     g_next_uid := g_next_uid u + 1,
                     g_user_count := g_user_count u + 1\<rparr>
          in do {
            u2 \<leftarrow> user_save_to_disk u1;
            v \<leftarrow> make_home (u_vfs u2) username (ucast (user_uid (g_users u2) i));
            Some (u2\<lparr>u_vfs := v\<rparr>, 0)
          })))"

definition user_init :: "users \<Rightarrow> users option" where
  "user_init u =
    do {
      (u1, loaded) \<leftarrow> user_load_from_disk (u\<lparr>g_users := blit (g_users u) 0 (replicate (USER_MAX * USER_SIZE) 0),
                        g_user_count := 0, g_next_uid := 0\<rparr>);
      if loaded then Some u1
      else do {
        (u2, r) \<leftarrow> user_add u1 (cs ''root'') (cs ''innovatios'') True;
        (u3, r) \<leftarrow> user_add u2 (cs ''guest'') (cs ''guest'') False;
        Some u3
      }
    }"

definition user_get_by_index :: "users \<Rightarrow> u32 \<Rightarrow> nat option" where
  "user_get_by_index u index =
    (if of_nat USER_MAX \<le> index then None
     else if \<not> user_used (g_users u) (unat index) then None else Some (unat index))"

definition user_get_count :: "users \<Rightarrow> u32" where
  "user_get_count u = g_user_count u"

definition user_get_all :: "users \<Rightarrow> buf" where
  "user_get_all u = g_users u"

definition user_change_password :: "users \<Rightarrow> nat option \<Rightarrow> u8 list \<Rightarrow> (users \<times> int) option" where
  "user_change_password u user new_password =
    (case user of
      None \<Rightarrow> Some (u, - 1)
    | Some i \<Rightarrow>
        map_option (\<lambda>u1. (u1, 0))
          (user_save_to_disk (u\<lparr>g_users := set_hash (g_users u) i (user_hash_password new_password)\<rparr>)))"

definition user_set_admin :: "users \<Rightarrow> u8 list \<Rightarrow> bool \<Rightarrow> (users \<times> int) option" where
  "user_set_admin u username adm =
    (case find_slot (named (g_users u) username) 0 of
      None \<Rightarrow> Some (u, - 1)
    | Some i \<Rightarrow>
        map_option (\<lambda>u1. (u1, 0)) (user_save_to_disk (u\<lparr>g_users := set_admin (g_users u) i adm\<rparr>)))"

section \<open>Accounts\<close>

text \<open>The abstraction of the table: the list of its accounts, in the order of their slots.\<close>

record account =
  a_uid :: u32
  a_name :: "u8 list"
  a_hash :: u64
  a_admin :: bool

definition account_at :: "buf \<Rightarrow> nat \<Rightarrow> account" where
  "account_at b i = \<lparr>a_uid = user_uid b i, a_name = user_name b i, a_hash = user_hash b i, a_admin = user_admin b i\<rparr>"

definition accounts :: "users \<Rightarrow> account list" where
  "accounts u = map (account_at (g_users u)) [0..<unat (g_user_count u)]"

definition users_ok :: "users \<Rightarrow> bool" where
  "users_ok u \<longleftrightarrow> unat (g_user_count u) \<le> USER_MAX \<and> g_next_uid u = g_user_count u
    \<and> (\<forall>i < USER_MAX. user_used (g_users u) i \<longleftrightarrow> i < unat (g_user_count u))
    \<and> map a_uid (accounts u) = map of_nat [0..<unat (g_user_count u)]
    \<and> distinct (map a_name (accounts u))"

definition good_user :: "u8 list \<Rightarrow> bool" where
  "good_user n \<longleftrightarrow> 0 \<notin> set n \<and> length n < USER_NAME_MAX"

lemmas user_fields = user_used_def user_uid_def user_name_def user_hash_def user_admin_def

lemma slots_apart: "i \<noteq> j \<Longrightarrow> USER_SIZE * i + USER_SIZE \<le> USER_SIZE * j \<or> USER_SIZE * j + USER_SIZE \<le> USER_SIZE * i"
  unfolding USER_SIZE_def by presburger

lemma same_slot:
  assumes "\<And>k. USER_SIZE * i \<le> k \<Longrightarrow> k < USER_SIZE * i + USER_SIZE \<Longrightarrow> b k = c k"
  shows "user_used b i = user_used c i" "account_at b i = account_at c i"
proof -
  have "get_u32 b (USER_SIZE * i + 4) = get_u32 c (USER_SIZE * i + 4)"
    "get_u32 b (USER_SIZE * i + 40) = get_u32 c (USER_SIZE * i + 40)"
    "get_u32 b (USER_SIZE * i + 44) = get_u32 c (USER_SIZE * i + 44)"
    by (auto intro!: get_u32_cong assms simp: USER_SIZE_def)
  moreover have "bytes_at b (USER_SIZE * i + 8) USER_NAME_MAX = bytes_at c (USER_SIZE * i + 8) USER_NAME_MAX"
    by (auto intro!: bytes_at_cong assms simp: USER_SIZE_def USER_NAME_MAX_def)
  moreover have "b (USER_SIZE * i) = c (USER_SIZE * i)" "b (USER_SIZE * i + 48) = c (USER_SIZE * i + 48)"
    by (auto intro!: assms simp: USER_SIZE_def)
  ultimately show "user_used b i = user_used c i" "account_at b i = account_at c i"
    by (simp_all add: user_fields account_at_def get_u64_def add.assoc)
qed

lemma set_hash_other: "k < USER_SIZE * i + 40 \<or> USER_SIZE * i + 48 \<le> k \<Longrightarrow> set_hash b i h k = b k"
  by (auto simp: set_hash_def put_u64_other)

lemma set_hash_fields:
  "user_used (set_hash b i h) i = user_used b i"
  "account_at (set_hash b i h) i = (account_at b i)\<lparr>a_hash := h\<rparr>"
proof -
  have "get_u32 (set_hash b i h) (USER_SIZE * i + 4) = get_u32 b (USER_SIZE * i + 4)"
    by (rule get_u32_cong) (simp add: set_hash_other)
  moreover have "bytes_at (set_hash b i h) (USER_SIZE * i + 8) USER_NAME_MAX = bytes_at b (USER_SIZE * i + 8) USER_NAME_MAX"
    by (rule bytes_at_cong) (simp add: set_hash_other USER_NAME_MAX_def)
  moreover have "get_u64 (set_hash b i h) (USER_SIZE * i + 40) = h" by (simp add: set_hash_def get_put_u64)
  ultimately show "user_used (set_hash b i h) i = user_used b i"
    "account_at (set_hash b i h) i = (account_at b i)\<lparr>a_hash := h\<rparr>"
    by (simp_all add: user_fields account_at_def set_hash_other)
qed

lemma set_admin_fields:
  "user_used (set_admin b i adm) i = user_used b i"
  "account_at (set_admin b i adm) i = (account_at b i)\<lparr>a_admin := adm\<rparr>"
proof -
  have "get_u32 (set_admin b i adm) p = get_u32 b p" if "p + 4 \<le> USER_SIZE * i + 48" for p
    using that by (intro get_u32_cong) (simp add: set_admin_def)
  moreover have "bytes_at (set_admin b i adm) (USER_SIZE * i + 8) USER_NAME_MAX = bytes_at b (USER_SIZE * i + 8) USER_NAME_MAX"
    by (rule bytes_at_cong) (simp add: set_admin_def USER_NAME_MAX_def)
  ultimately show "user_used (set_admin b i adm) i = user_used b i"
    "account_at (set_admin b i adm) i = (account_at b i)\<lparr>a_admin := adm\<rparr>"
    by (simp_all add: user_fields account_at_def get_u64_def set_admin_def)
qed

lemma fill_user_other:
  "k < USER_SIZE * i \<or> USER_SIZE * i + USER_SIZE \<le> k \<Longrightarrow> fill_user b i uid name h adm k = b k"
  by (auto simp: fill_user_def Let_def set_admin_def set_hash_other put_u32_other blit_other
      USER_SIZE_def USER_NAME_MAX_def)

lemma fill_user_fields:
  assumes "good_user name"
  shows "user_used (fill_user b i uid name h adm) i"
    and "account_at (fill_user b i uid name h adm) i = \<lparr>a_uid = uid, a_name = name, a_hash = h, a_admin = adm\<rparr>"
proof -
  let ?o = "USER_SIZE * i"
  let ?n = "blit (put_u32 (b(?o := 1)) (?o + 4) uid) (?o + 8) (pad_to (USER_NAME_MAX - 1) name)"
  let ?m = "?n(?o + 8 + (USER_NAME_MAX - 1) := 0)"
  have "bytes_at ?m (?o + 8) (31 + 1) = bytes_at ?m (?o + 8) 31 @ bytes_at ?m (?o + 8 + 31) 1"
    by (rule bytes_at_add)
  also have "bytes_at ?m (?o + 8) 31 = bytes_at ?n (?o + 8) 31"
    by (rule bytes_at_cong) (simp add: USER_NAME_MAX_def)
  also have "\<dots> = pad_to 31 name" by (rule nth_equalityI) (auto simp: USER_NAME_MAX_def blit_def)
  also have "bytes_at ?m (?o + 8 + 31) 1 = [0]" by (simp add: bytes_at_Suc USER_NAME_MAX_def)
  also have "pad_to 31 name @ [0] = name @ 0 # replicate (31 - length name) 0"
    using assms by (simp add: pad_to_short good_user_def USER_NAME_MAX_def replicate_append_same)
  finally have e: "bytes_at ?m (?o + 8) (31 + 1) = name @ 0 # replicate (31 - length name) 0" .
  have u: "bytes_at ?m (?o + 8) USER_NAME_MAX = bytes_at ?m (?o + 8) (31 + 1)"
    by (rule arg_cong [of _ _ "bytes_at ?m (?o + 8)"]) (simp add: USER_NAME_MAX_def)
  have "cstring (bytes_at ?m (?o + 8) USER_NAME_MAX) = name"
    unfolding u e using assms by (intro cstring_append_nul) (simp add: good_user_def)
  moreover have "get_u32 ?m (?o + 4) = uid"
  proof -
    have "get_u32 ?m (?o + 4) = get_u32 (put_u32 (b(?o := 1)) (?o + 4) uid) (?o + 4)"
      by (rule get_u32_cong) (simp add: blit_other USER_NAME_MAX_def)
    then show ?thesis by (simp add: get_put_u32)
  qed
  moreover have "user_used ?m i" by (simp add: user_used_def blit_other put_u32_other USER_NAME_MAX_def)
  ultimately show "user_used (fill_user b i uid name h adm) i"
    "account_at (fill_user b i uid name h adm) i = \<lparr>a_uid = uid, a_name = name, a_hash = h, a_admin = adm\<rparr>"
    by (simp_all add: fill_user_def Let_def set_admin_fields set_hash_fields)
      (simp add: account_at_def user_uid_def user_name_def)
qed

lemma other_slot:
  "j \<noteq> i \<Longrightarrow> user_used (fill_user b i uid name h adm) j = user_used b j"
  "j \<noteq> i \<Longrightarrow> account_at (fill_user b i uid name h adm) j = account_at b j"
  "j \<noteq> i \<Longrightarrow> user_used (set_hash b i h) j = user_used b j"
  "j \<noteq> i \<Longrightarrow> account_at (set_hash b i h) j = account_at b j"
  "j \<noteq> i \<Longrightarrow> user_used (set_admin b i adm) j = user_used b j"
  "j \<noteq> i \<Longrightarrow> account_at (set_admin b i adm) j = account_at b j"
  using slots_apart [of i j]
  by (auto intro!: same_slot fill_user_other set_hash_other simp: set_admin_def) (auto simp: USER_SIZE_def)

section \<open>The operations on accounts\<close>

lemma find_slot_spec:
  "find_slot P i = None \<longleftrightarrow> (\<forall>k. i \<le> k \<longrightarrow> k < USER_MAX \<longrightarrow> \<not> P k)"
  "find_slot P i = Some j \<longleftrightarrow> i \<le> j \<and> j < USER_MAX \<and> P j \<and> (\<forall>k. i \<le> k \<longrightarrow> k < j \<longrightarrow> \<not> P k)"
proof (induction P i rule: find_slot.induct)
  case (1 P i)
  {
    case 1
    show ?case
    proof (cases "i < USER_MAX \<and> \<not> P i")
      case True
      then have "find_slot P i = find_slot P (i + 1)" by (subst find_slot.simps) simp
      moreover have "i \<le> k \<longleftrightarrow> k = i \<or> i + 1 \<le> k" for k by auto
      ultimately show ?thesis using "1.IH"(1) True by auto
    next
      case False
      then show ?thesis by (subst find_slot.simps) auto
    qed
  next
    case 2
    show ?case
    proof (cases "i < USER_MAX \<and> \<not> P i")
      case True
      then have "find_slot P i = find_slot P (i + 1)" by (subst find_slot.simps) simp
      moreover have "i \<le> k \<longleftrightarrow> k = i \<or> i + 1 \<le> k" for k by auto
      ultimately show ?thesis using "1.IH"(2) True by auto
    next
      case False
      then show ?thesis by (subst find_slot.simps) (auto simp: not_less dest: leD)
    qed
  }
qed

lemma find_slot_unique:
  assumes "\<And>i j. i < USER_MAX \<Longrightarrow> j < USER_MAX \<Longrightarrow> P i \<Longrightarrow> P j \<Longrightarrow> i = j"
  shows "find_slot P 0 = Some i \<longleftrightarrow> i < USER_MAX \<and> P i"
proof
  assume "i < USER_MAX \<and> P i"
  moreover from this have "\<not> P k" if "k < i" for k using assms [of k i] that by auto
  ultimately show "find_slot P 0 = Some i" by (simp add: find_slot_spec(2))
qed (simp add: find_slot_spec(2))

lemma user_save_table:
  "user_save_to_disk u = Some u' \<Longrightarrow>
    g_users u' = g_users u \<and> g_user_count u' = g_user_count u \<and> g_next_uid u' = g_next_uid u"
  by (auto simp: user_save_to_disk_def Let_def)

lemma length_accounts [simp]: "length (accounts u) = unat (g_user_count u)"
  by (simp add: accounts_def)

lemma nth_accounts: "i < unat (g_user_count u) \<Longrightarrow> accounts u ! i = account_at (g_users u) i"
  by (simp add: accounts_def)

lemma users_ok_used:
  "users_ok u \<Longrightarrow> i < USER_MAX \<Longrightarrow> user_used (g_users u) i \<longleftrightarrow> i < unat (g_user_count u)"
  by (simp add: users_ok_def)

lemma named_accounts:
  assumes "users_ok u" and "i < USER_MAX"
  shows "named (g_users u) n i \<longleftrightarrow> i < unat (g_user_count u) \<and> a_name (accounts u ! i) = n"
  using assms by (auto simp: named_def users_ok_used nth_accounts account_at_def)

lemma named_unique:
  assumes "users_ok u" "i < unat (g_user_count u)" "j < unat (g_user_count u)"
    "a_name (accounts u ! i) = a_name (accounts u ! j)"
  shows "i = j"
  using assms nth_eq_iff_index_eq [of "map a_name (accounts u)" i j] by (simp add: users_ok_def)

lemma find_named:
  assumes "users_ok u"
  shows "find_slot (named (g_users u) n) 0 = Some i \<longleftrightarrow> i < unat (g_user_count u) \<and> a_name (accounts u ! i) = n"
    and "find_slot (named (g_users u) n) 0 = None \<longleftrightarrow> n \<notin> a_name ` set (accounts u)"
proof -
  have max: "unat (g_user_count u) \<le> USER_MAX" using assms by (simp add: users_ok_def)
  have "find_slot (named (g_users u) n) 0 = Some i \<longleftrightarrow> i < USER_MAX \<and> named (g_users u) n i"
    by (rule find_slot_unique) (use named_accounts [OF assms] named_unique [OF assms] in auto)
  then show "find_slot (named (g_users u) n) 0 = Some i \<longleftrightarrow> i < unat (g_user_count u) \<and> a_name (accounts u ! i) = n"
    using max named_accounts [OF assms, of i n] by auto
  show "find_slot (named (g_users u) n) 0 = None \<longleftrightarrow> n \<notin> a_name ` set (accounts u)"
    unfolding find_slot_spec(1)
  proof (intro iffI allI impI)
    assume none: "\<forall>k. 0 \<le> k \<longrightarrow> k < USER_MAX \<longrightarrow> \<not> named (g_users u) n k"
    show "n \<notin> a_name ` set (accounts u)"
    proof
      assume "n \<in> a_name ` set (accounts u)"
      then obtain i where "i < unat (g_user_count u)" "a_name (accounts u ! i) = n"
        by (auto simp: in_set_conv_nth)
      with none max named_accounts [OF assms, of i n] show False by simp
    qed
  next
    fix k assume "n \<notin> a_name ` set (accounts u)" and "k < USER_MAX"
    then show "\<not> named (g_users u) n k" using named_accounts [OF assms, of k n] nth_mem [of k "accounts u"] by auto
  qed
qed

lemma authenticate_accounts:
  assumes "users_ok u"
  shows "user_authenticate u n p = Some i \<longleftrightarrow> i < unat (g_user_count u)
    \<and> a_name (accounts u ! i) = n \<and> a_hash (accounts u ! i) = user_hash_password p"
proof -
  have max: "unat (g_user_count u) \<le> USER_MAX" using assms by (simp add: users_ok_def)
  have hash: "j < unat (g_user_count u) \<Longrightarrow> user_hash (g_users u) j = a_hash (accounts u ! j)" for j
    by (simp add: nth_accounts account_at_def)
  have "user_authenticate u n p = Some i \<longleftrightarrow>
      i < USER_MAX \<and> named (g_users u) n i \<and> user_hash (g_users u) i = user_hash_password p"
    unfolding user_authenticate_def
    by (rule find_slot_unique) (use named_accounts [OF assms] named_unique [OF assms] in auto)
  then show ?thesis using max named_accounts [OF assms, of i n] hash [of i] by auto
qed

lemma find_free:
  assumes "users_ok u" and "\<not> of_nat USER_MAX \<le> g_user_count u"
  shows "find_slot (\<lambda>i. \<not> user_used (g_users u) i) 0 = Some (unat (g_user_count u))"
    and "unat (g_user_count u) < USER_MAX" and "unat (g_user_count u + 1) = Suc (unat (g_user_count u))"
proof -
  show "unat (g_user_count u) < USER_MAX" using assms(2) by (simp add: word_le_nat_alt USER_MAX_def)
  then show "find_slot (\<lambda>i. \<not> user_used (g_users u) i) 0 = Some (unat (g_user_count u))"
    using users_ok_used [OF assms(1)] unfolding find_slot_spec(2) by auto
  have "g_user_count u < of_nat USER_MAX" using assms(2) by simp
  then show "unat (g_user_count u + 1) = Suc (unat (g_user_count u))" using unat_plus_1 by fastforce
qed

text \<open>What \<open>user_add\<close> does to the table, before the file system is involved.\<close>

lemma add_account:
  fixes u name pw adm
  defines "u1 \<equiv> u\<lparr>g_users := fill_user (g_users u) (unat (g_user_count u)) (g_next_uid u) name (user_hash_password pw) adm,
      g_next_uid := g_next_uid u + 1, g_user_count := g_user_count u + 1\<rparr>"
  assumes ok: "users_ok u" and room: "\<not> of_nat USER_MAX \<le> g_user_count u" and good: "good_user name"
    and new: "name \<notin> a_name ` set (accounts u)"
  shows "accounts u1 = accounts u @ [\<lparr>a_uid = g_next_uid u, a_name = name, a_hash = user_hash_password pw, a_admin = adm\<rparr>]"
    and "users_ok u1"
proof -
  note free = find_free [OF ok room]
  have same: "map (account_at (g_users u1)) [0..<unat (g_user_count u)] = accounts u"
    by (simp add: accounts_def u1_def other_slot)
  show acc: "accounts u1 = accounts u @ [\<lparr>a_uid = g_next_uid u, a_name = name, a_hash = user_hash_password pw, a_admin = adm\<rparr>]"
    using same free(3) fill_user_fields(2) [OF good] by (simp add: accounts_def u1_def)
  have used: "user_used (g_users u1) i \<longleftrightarrow> i < unat (g_user_count u1)" if "i < USER_MAX" for i
    using users_ok_used [OF ok that] other_slot(1) fill_user_fields(1) [OF good] free(3)
    by (cases "i = unat (g_user_count u)") (auto simp: u1_def)
  have "unat (g_user_count u1) = Suc (unat (g_user_count u))" using free(3) by (simp add: u1_def)
  then show "users_ok u1" unfolding users_ok_def acc
    using ok used new free(2) by (simp add: users_ok_def) (simp add: u1_def)
qed

lemma users_ok_cong:
  assumes "g_users u' = g_users u" "g_user_count u' = g_user_count u" "g_next_uid u' = g_next_uid u"
  shows "users_ok u' \<longleftrightarrow> users_ok u" "accounts u' = accounts u"
  using assms by (simp_all add: users_ok_def accounts_def)

lemma user_add_cases:
  assumes ok: "users_ok u" and good: "good_user name" and add: "user_add u name pw adm = Some (u', r)"
  shows "users_ok u'" and "(accounts u', r) =
     (if USER_MAX \<le> length (accounts u) then (accounts u, - 1)
      else if name \<in> a_name ` set (accounts u) then (accounts u, - 2)
      else (accounts u @ [\<lparr>a_uid = g_next_uid u, a_name = name, a_hash = user_hash_password pw, a_admin = adm\<rparr>], 0))"
proof -
  have full: "of_nat USER_MAX \<le> g_user_count u \<longleftrightarrow> USER_MAX \<le> unat (g_user_count u)"
    by (simp add: word_le_nat_alt USER_MAX_def)
  consider "of_nat USER_MAX \<le> g_user_count u"
    | "\<not> of_nat USER_MAX \<le> g_user_count u" "name \<in> a_name ` set (accounts u)"
    | "\<not> of_nat USER_MAX \<le> g_user_count u" "name \<notin> a_name ` set (accounts u)" by blast
  then have "users_ok u' \<and> (accounts u', r) =
     (if USER_MAX \<le> length (accounts u) then (accounts u, - 1)
      else if name \<in> a_name ` set (accounts u) then (accounts u, - 2)
      else (accounts u @ [\<lparr>a_uid = g_next_uid u, a_name = name, a_hash = user_hash_password pw, a_admin = adm\<rparr>], 0))"
  proof cases
    case 1
    then show ?thesis using add ok full by (simp add: user_add_def)
  next
    case 2
    then have "find_slot (named (g_users u) name) 0 \<noteq> None" using find_named(2) [OF ok] by simp
    then show ?thesis using 2 add ok full by (simp add: user_add_def)
  next
    case 3
    then have "find_slot (named (g_users u) name) 0 = None" using find_named(2) [OF ok] by simp
    let ?u1 = "u\<lparr>g_users := fill_user (g_users u) (unat (g_user_count u)) (g_next_uid u) name
         (user_hash_password pw) adm, g_next_uid := g_next_uid u + 1, g_user_count := g_user_count u + 1\<rparr>"
    from 3 add find_free(1) [OF ok 3(1)] \<open>find_slot (named (g_users u) name) 0 = None\<close>
    obtain u2 v where u2: "user_save_to_disk ?u1 = Some u2" "u' = u2\<lparr>u_vfs := v\<rparr>" "r = 0"
      by (auto simp: user_add_def Let_def bind_eq_Some_conv)
    from user_save_table [OF u2(1)]
    have "users_ok u' = users_ok ?u1" "accounts u' = accounts ?u1"
      by (intro users_ok_cong; simp add: u2(2))+
    then show ?thesis using add_account [OF ok 3(1) good 3(2), of pw adm] 3 full u2(3) by simp
  qed
  then show "users_ok u'" "(accounts u', r) =
     (if USER_MAX \<le> length (accounts u) then (accounts u, - 1)
      else if name \<in> a_name ` set (accounts u) then (accounts u, - 2)
      else (accounts u @ [\<lparr>a_uid = g_next_uid u, a_name = name, a_hash = user_hash_password pw, a_admin = adm\<rparr>], 0))"
    by blast+
qed

section \<open>Properties\<close>

text \<open>C29. On a consistent table and with a name that fits its field, \<open>user_add\<close> implements the
  append of an account to the list: it answers -1 when the 16 slots are taken, -2 when the name
  is in use, and otherwise 0 with the new account, numbered by its position, at the end. No
  other account changes, and the table stays consistent.\<close>

theorem user_add_refines:
  assumes ok: "users_ok u" and good: "good_user name" and add: "user_add u name pw adm = Some (u', r)"
  shows "users_ok u' \<and> (accounts u', r) =
     (if USER_MAX \<le> length (accounts u) then (accounts u, - 1)
      else if name \<in> a_name ` set (accounts u) then (accounts u, - 2)
      else (accounts u @ [\<lparr>a_uid = of_nat (length (accounts u)), a_name = name,
              a_hash = user_hash_password pw, a_admin = adm\<rparr>], 0))"
proof -
  have "g_next_uid u = of_nat (length (accounts u))" using ok by (simp add: users_ok_def)
  then show ?thesis using user_add_cases [OF ok good add] by simp
qed

definition unmounted_users :: users where
  "unmounted_users = \<lparr>u_vfs = \<lparr>v_fs = blank\<lparr>g_innofs_mounted := False\<rparr>, g_cwd = [slash]\<rparr>,
     g_users = (\<lambda>_. 0), g_user_count = 0, g_next_uid = 0\<rparr>"

lemma unmounted_ok: "users_ok unmounted_users" "accounts unmounted_users = []"
  by (simp_all add: users_ok_def accounts_def unmounted_users_def user_used_def)

lemma vfs_unmounted:
  assumes "\<not> g_innofs_mounted (v_fs v)"
  shows "vfs_open v n m uid = Some (v, - 1)" "vfs_mkdir v n uid fl = Some (v, - 1)"
  using assms by (simp_all add: vfs_open_def vfs_mkdir_def on_fs_def innofs_open_def innofs_mkdir_def)

lemma save_unmounted:
  "\<not> g_innofs_mounted (v_fs (u_vfs u)) \<Longrightarrow> user_save_to_disk u = Some u"
  by (simp add: user_save_to_disk_def vfs_unmounted)

lemma home_unmounted: "\<not> g_innofs_mounted (v_fs v) \<Longrightarrow> make_home v n uid = Some v"
  by (simp add: make_home_def vfs_unmounted)

lemma add_unmounted:
  assumes "\<not> g_innofs_mounted (v_fs (u_vfs u))"
  shows "\<exists>u' r. user_add u n p adm = Some (u', r) \<and> u_vfs u' = u_vfs u"
  using assms by (auto simp: user_add_def Let_def save_unmounted home_unmounted split: option.splits)

lemma unmounted_mounted: "\<not> g_innofs_mounted (v_fs (u_vfs unmounted_users))"
  by (simp add: unmounted_users_def)

theorem user_add_refines_witness:
  "\<exists>u'. user_add unmounted_users (cs ''bob'') (cs ''pw'') False = Some (u', 0) \<and> length (accounts u') = 1"
proof -
  obtain u' r where add: "user_add unmounted_users (cs ''bob'') (cs ''pw'') False = Some (u', r)"
    using add_unmounted [OF unmounted_mounted] by blast
  have "good_user (cs ''bob'')" by (simp add: good_user_def USER_NAME_MAX_def)
  from user_add_refines [OF unmounted_ok(1) this add] add show ?thesis
    by (simp add: unmounted_ok(2) USER_MAX_def del: length_accounts)
qed

text \<open>C30. After a successful \<open>user_add\<close> the new name with the password given authenticates as the
  new slot, a password with another hash does not, and every other name authenticates as it did
  before.\<close>

theorem user_add_authenticate:
  assumes ok: "users_ok u" and good: "good_user name" and add: "user_add u name pw adm = Some (u', 0)"
  shows "user_authenticate u' name p =
      (if user_hash_password p = user_hash_password pw then Some (length (accounts u)) else None)
    \<and> (n \<noteq> name \<longrightarrow> user_authenticate u' n p = user_authenticate u n p)"
proof -
  let ?a = "\<lparr>a_uid = g_next_uid u, a_name = name, a_hash = user_hash_password pw, a_admin = adm\<rparr>"
  note cases = user_add_cases [OF ok good add]
  have acc: "accounts u' = accounts u @ [?a]" and new: "name \<notin> a_name ` set (accounts u)"
    using cases(2) by (auto split: if_splits)
  have count: "unat (g_user_count u') = Suc (unat (g_user_count u))"
    using arg_cong [OF acc, of length] by simp
  have old: "a_name (accounts u ! i) \<noteq> name" if "i < unat (g_user_count u)" for i
    using new nth_mem [of i "accounts u"] that by force
  note auth = authenticate_accounts [OF cases(1), unfolded acc count] authenticate_accounts [OF ok]
  have "user_authenticate u' name p = Some i \<longleftrightarrow>
      i = length (accounts u) \<and> user_hash_password p = user_hash_password pw" for i
    unfolding auth(1) using old [of i] by (auto simp: nth_append less_Suc_eq)
  moreover have "user_authenticate u' n p = Some i \<longleftrightarrow> user_authenticate u n p = Some i" if "n \<noteq> name" for i
    unfolding auth using that by (auto simp: nth_append less_Suc_eq)
  ultimately show ?thesis by (metis not_Some_eq)
qed

theorem user_add_authenticate_witness:
  "\<exists>u'. user_add unmounted_users (cs ''bob'') (cs ''pw'') False = Some (u', 0)
     \<and> user_authenticate u' (cs ''bob'') (cs ''pw'') = Some 0"
proof -
  obtain u' r where add: "user_add unmounted_users (cs ''bob'') (cs ''pw'') False = Some (u', r)"
    using add_unmounted [OF unmounted_mounted] by blast
  have good: "good_user (cs ''bob'')" by (simp add: good_user_def USER_NAME_MAX_def)
  have "r = 0" using user_add_cases(2) [OF unmounted_ok(1) good add] by (simp add: unmounted_ok(2) USER_MAX_def)
  with add have add0: "user_add unmounted_users (cs ''bob'') (cs ''pw'') False = Some (u', 0)" by simp
  from user_add_authenticate [OF unmounted_ok(1) good add0, of "cs ''pw''"] add0 show ?thesis
    by (simp add: unmounted_ok(2))
qed

text \<open>The two operations that change an account write its field and nothing else:
  \<open>user_set_admin\<close> the flag of the account with that name, or -1 when there is none, and
  \<open>user_change_password\<close> the hash of the account in that slot; the table stays consistent.\<close>

theorem user_update_refines:
  assumes ok: "users_ok u" and slot: "i < length (accounts u)"
    and adm: "user_set_admin u (a_name (accounts u ! i)) adm = Some (u1, r1)"
    and pw: "user_change_password u (Some i) p = Some (u2, r2)"
  shows "users_ok u1 \<and> r1 = 0 \<and> accounts u1 = (accounts u)[i := (accounts u ! i)\<lparr>a_admin := adm\<rparr>]
    \<and> users_ok u2 \<and> r2 = 0 \<and> accounts u2 = (accounts u)[i := (accounts u ! i)\<lparr>a_hash := user_hash_password p\<rparr>]
    \<and> (n \<notin> a_name ` set (accounts u) \<longrightarrow> user_set_admin u n adm = Some (u, - 1))"
proof -
  have max: "unat (g_user_count u) \<le> USER_MAX" using ok by (simp add: users_ok_def)
  have one: "users_ok u' \<and> accounts u' = (accounts u)[i := f (accounts u ! i)]"
    if table: "g_user_count u' = g_user_count u" "g_next_uid u' = g_next_uid u"
      and used: "\<And>j. user_used (g_users u') j = user_used (g_users u) j"
      and acc: "account_at (g_users u') i = f (account_at (g_users u) i)"
      and other: "\<And>j. j \<noteq> i \<Longrightarrow> account_at (g_users u') j = account_at (g_users u) j"
      and f: "\<And>a. a_uid (f a) = a_uid a \<and> a_name (f a) = a_name a" for u' f
  proof -
    have a: "accounts u' = (accounts u)[i := f (accounts u ! i)]"
      using slot table acc other by (intro nth_equalityI) (auto simp: accounts_def nth_list_update)
    have same: "map g (accounts u') = map g (accounts u)" if "\<And>a. g (f a) = g a" for g :: "account \<Rightarrow> 'x"
      using slot that by (simp add: a map_update list_update_same_conv)
    show ?thesis using ok a same [of a_uid] same [of a_name] f table used by (simp add: users_ok_def)
  qed
  have find: "find_slot (named (g_users u) (a_name (accounts u ! i))) 0 = Some i"
    using find_named(1) [OF ok] slot by simp
  from adm find have r1: "r1 = 0"
    and s1: "user_save_to_disk (u\<lparr>g_users := set_admin (g_users u) i adm\<rparr>) = Some u1"
    by (auto simp: user_set_admin_def)
  from pw have r2: "r2 = 0"
    and s2: "user_save_to_disk (u\<lparr>g_users := set_hash (g_users u) i (user_hash_password p)\<rparr>) = Some u2"
    by (auto simp: user_change_password_def)
  have "user_used (set_admin (g_users u) i adm) j = user_used (g_users u) j"
    "user_used (set_hash (g_users u) i h) j = user_used (g_users u) j" for j h
    by (cases "j = i"; simp add: set_admin_fields set_hash_fields other_slot)+
  then have "users_ok u1 \<and> accounts u1 = (accounts u)[i := (accounts u ! i)\<lparr>a_admin := adm\<rparr>]"
    "users_ok u2 \<and> accounts u2 = (accounts u)[i := (accounts u ! i)\<lparr>a_hash := user_hash_password p\<rparr>]"
    using user_save_table [OF s1] user_save_table [OF s2]
    by (intro one; simp add: set_admin_fields set_hash_fields other_slot)+
  moreover have "n \<notin> a_name ` set (accounts u) \<longrightarrow> user_set_admin u n adm = Some (u, - 1)"
    using find_named(2) [OF ok, of n] by (auto simp: user_set_admin_def)
  ultimately show ?thesis using r1 r2 by blast
qed


theorem user_update_refines_witness:
  "\<exists>u u1. users_ok u \<and> user_set_admin u (cs ''bob'') True = Some (u1, 0) \<and> a_admin (accounts u1 ! 0)"
proof -
  obtain u r where add: "user_add unmounted_users (cs ''bob'') (cs ''pw'') False = Some (u, r)"
    and v: "u_vfs u = u_vfs unmounted_users"
    using add_unmounted [OF unmounted_mounted] by blast
  have good: "good_user (cs ''bob'')" by (simp add: good_user_def USER_NAME_MAX_def)
  note cases = user_add_cases [OF unmounted_ok(1) good add]
  have bob: "0 < length (accounts u)" "a_name (accounts u ! 0) = cs ''bob''"
    using cases(2) by (auto simp: unmounted_ok(2) USER_MAX_def)
  have un: "\<not> g_innofs_mounted (v_fs (u_vfs u))" using v unmounted_mounted by simp
  have "find_slot (named (g_users u) (cs ''bob'')) 0 = Some 0"
    using find_named(1) [OF cases(1)] bob by simp
  then obtain u1 u2 where u: "user_set_admin u (cs ''bob'') True = Some (u1, 0)"
    "user_change_password u (Some 0) [] = Some (u2, 0)"
    using un by (simp add: user_set_admin_def user_change_password_def save_unmounted)
  from user_update_refines [OF cases(1) bob(1) u(1) [folded bob(2)] u(2)] u(1) cases(1) bob(1)
  show ?thesis by (intro exI [of _ u] exI [of _ u1]) simp
qed

text \<open>Without a usable file system \<open>user_init\<close> still returns, with the two built-in accounts:
  \<open>root\<close>, an administrator with number 0, and \<open>guest\<close>, with number 1. Root's password
  authenticates as slot 0, and the automatic login chooses root.\<close>

theorem user_init_defaults:
  assumes un: "\<not> g_innofs_mounted (v_fs (u_vfs u))"
  shows "\<exists>u'. user_init u = Some u' \<and> users_ok u'
    \<and> map (\<lambda>a. (a_uid a, a_name a, a_admin a)) (accounts u') = [(0, cs ''root'', True), (1, cs ''guest'', False)]
    \<and> user_authenticate u' (cs ''root'') (cs ''innovatios'') = Some 0
    \<and> user_auto_login u' = Some 0"
proof -
  let ?u0 = "u\<lparr>g_users := blit (g_users u) 0 (replicate (USER_MAX * USER_SIZE) 0), g_user_count := 0, g_next_uid := 0\<rparr>"
  have unused: "\<not> user_used (g_users ?u0) i" if "i < USER_MAX" for i
    using that by (simp add: user_used_def blit_def USER_SIZE_def USER_MAX_def)
  have ok0: "users_ok ?u0" "accounts ?u0 = []" using unused by (simp_all add: users_ok_def accounts_def)
  have load: "user_load_from_disk ?u0 = Some (?u0, False)"
    using un by (simp add: user_load_from_disk_def vfs_unmounted)
  have un0: "\<not> g_innofs_mounted (v_fs (u_vfs ?u0))" using un by simp
  obtain u2 r2 where add2: "user_add ?u0 (cs ''root'') (cs ''innovatios'') True = Some (u2, r2)"
    and v2: "u_vfs u2 = u_vfs ?u0" using add_unmounted [OF un0] by blast
  from v2 un0 have un2: "\<not> g_innofs_mounted (v_fs (u_vfs u2))" by simp
  obtain u3 r3 where add3: "user_add u2 (cs ''guest'') (cs ''guest'') False = Some (u3, r3)"
    using add_unmounted [OF un2] by blast
  have good: "good_user (cs ''root'')" "good_user (cs ''guest'')" by (simp_all add: good_user_def USER_NAME_MAX_def)
  note c2 = user_add_cases [OF ok0(1) good(1) add2]
  have acc2: "accounts u2 = [\<lparr>a_uid = 0, a_name = cs ''root'', a_hash = user_hash_password (cs ''innovatios''), a_admin = True\<rparr>]"
    using c2(2) by (simp only: ok0(2)) (simp add: USER_MAX_def)
  note c3 = user_add_cases [OF c2(1) good(2) add3]
  have "g_next_uid u2 = 1" using c2(1) arg_cong [OF acc2, of length]
    by (simp add: users_ok_def word_unat_eq_iff)
  then have acc3: "accounts u3 = accounts u2 @
      [\<lparr>a_uid = 1, a_name = cs ''guest'', a_hash = user_hash_password (cs ''guest''), a_admin = False\<rparr>]"
    using c3(2) by (simp add: acc2 USER_MAX_def)
  have count: "unat (g_user_count u3) = 2" using arg_cong [OF acc3, of length] by (simp add: acc2)
  have init: "user_init u = Some u3" by (simp add: user_init_def load add2 add3 del: cs_simps)
  have auth: "user_authenticate u3 (cs ''root'') (cs ''innovatios'') = Some 0"
    unfolding authenticate_accounts [OF c3(1)] by (simp add: acc3 acc2 count)
  have "user_used (g_users u3) 0 \<and> user_admin (g_users u3) 0"
    using users_ok_used [OF c3(1), of 0] nth_accounts [of 0 u3] count
    by (simp add: acc3 acc2 account_at_def USER_MAX_def)
  then have "user_auto_login u3 = Some 0"
    unfolding user_auto_login_def by (subst find_slot.simps) (simp add: USER_MAX_def)
  with init auth c3(1) show ?thesis by (simp add: acc3 acc2)
qed

theorem user_init_defaults_witness:
  "\<exists>u'. user_init unmounted_users = Some u' \<and> user_auto_login u' = Some 0"
  using user_init_defaults [OF unmounted_mounted] by blast

text \<open>Two passwords with the same hash: the second is accepted for the first.\<close>

lemma password_collision: "user_hash_password (cs ''ab'') = user_hash_password (cs ''bA'')"
  by (simp add: user_hash_password_def)

end
