(* ===== verification/Shell_Text.thy ===== *)
theory Shell_Text
  imports Klib
begin

text \<open>
  The text routines of userspace/src/shell.c and userspace/programs/helpers.c. A string is the
  list of its bytes before the NUL. A routine that fills a buffer of \<open>mx\<close> bytes (\<open>max\<close> in the code) returns the
  string it leaves there. An \<open>int\<close> is a word read by \<open>sint\<close>; where the code's arithmetic would
  overflow, the word wraps.
\<close>

type_synonym i32 = "32 word"

section \<open>Copying and comparing\<close>

definition SPACE :: u8 where
  "SPACE = 32"

text \<open>The loop shape of all these routines: bytes are copied while they satisfy a test and at
  most \<open>n\<close> have been copied; the rest of the input remains.\<close>

fun copy_while :: "(u8 \<Rightarrow> bool) \<Rightarrow> nat \<Rightarrow> u8 list \<Rightarrow> u8 list \<times> u8 list" where
  "copy_while P n [] = ([], [])"
| "copy_while P n (c # s) =
    (if P c \<and> 0 < n then (case copy_while P (n - 1) s of (a, r) \<Rightarrow> (c # a, r)) else ([], c # s))"

fun prog_skip_spaces :: "u8 list \<Rightarrow> u8 list" where
  "prog_skip_spaces [] = []"
| "prog_skip_spaces (c # s) = (if c = SPACE then prog_skip_spaces s else c # s)"

definition prog_next_word :: "u8 list \<Rightarrow> nat \<Rightarrow> u8 list \<times> u8 list" where
  "prog_next_word s maxlen = copy_while (\<lambda>c. c \<noteq> SPACE) (maxlen - 1) (prog_skip_spaces s)"

function u64_str_loop :: "u64 \<Rightarrow> int \<Rightarrow> u8 list \<Rightarrow> u8 list" where
  "u64_str_loop val i acc =
    (if 0 < val \<and> 0 \<le> i then u64_str_loop (val div 10) (i - 1) ((48 + ucast (val mod 10)) # acc) else acc)"
  by auto
termination by (relation "measure (\<lambda>(v, i, a). nat (i + 1))") auto

declare u64_str_loop.simps [simp del]

definition prog_u64_to_str :: "u64 \<Rightarrow> nat \<Rightarrow> u8 list" where
  "prog_u64_to_str val bufsz =
    (let i = int bufsz - 2 in if val = 0 then [48] else u64_str_loop val i [])"

fun sh_strlen :: "u8 list \<Rightarrow> nat" where
  "sh_strlen [] = 0"
| "sh_strlen (c # s) = Suc (sh_strlen s)"

definition sh_copy :: "u8 list \<Rightarrow> nat \<Rightarrow> u8 list" where
  "sh_copy src mx = fst (copy_while (\<lambda>_. True) (mx - 1) src)"

fun sh_streq :: "u8 list \<Rightarrow> u8 list \<Rightarrow> bool" where
  "sh_streq (x # a) (y # b) = (if x \<noteq> y then False else sh_streq a b)"
| "sh_streq a b = (a = [] \<and> b = [])"

fun starts :: "u8 list \<Rightarrow> u8 list \<Rightarrow> bool" where
  "starts hay [] = True"
| "starts [] (y # needle) = False"
| "starts (x # hay) (y # needle) = (x = y \<and> starts hay needle)"

fun contains_loop :: "u8 list \<Rightarrow> u8 list \<Rightarrow> bool" where
  "contains_loop [] needle = False"
| "contains_loop (c # hay) needle = (if starts (c # hay) needle then True else contains_loop hay needle)"

definition sh_contains :: "u8 list \<Rightarrow> u8 list \<Rightarrow> bool" where
  "sh_contains hay needle = (if sh_strlen needle = 0 then True else contains_loop hay needle)"

definition name_eq :: "u8 list \<Rightarrow> nat \<Rightarrow> u8 list \<Rightarrow> bool" where
  "name_eq name len lit = (if sh_strlen lit \<noteq> len then False else starts name lit)"

definition sh_first_word :: "u8 list \<Rightarrow> nat \<Rightarrow> u8 list" where
  "sh_first_word cmd mx = fst (copy_while (\<lambda>c. c \<noteq> SPACE) (mx - 1) cmd)"

definition split_two_words :: "u8 list \<Rightarrow> nat \<Rightarrow> nat \<Rightarrow> u8 list \<times> u8 list \<times> bool" where
  "split_two_words args amax bmax =
    (let (a, r) = copy_while (\<lambda>c. c \<noteq> SPACE) (amax - 1) (prog_skip_spaces args);
         (b, _) = copy_while (\<lambda>_. True) (bmax - 1) (prog_skip_spaces r)
     in (a, b, a \<noteq> []))"

definition EQUALS :: u8 where
  "EQUALS = 61"

definition split_kv :: "u8 list \<Rightarrow> nat \<Rightarrow> nat \<Rightarrow> (u8 list \<times> u8 list) option" where
  "split_kv args nmax vmax =
    (let (name, r) = copy_while (\<lambda>c. c \<noteq> EQUALS) (nmax - 1) args
     in if r = [] \<or> hd r \<noteq> EQUALS then None
        else Some (name, fst (copy_while (\<lambda>_. True) (vmax - 1) (tl r))))"

definition cmd_match :: "u8 list \<Rightarrow> u8 list \<Rightarrow> u8 list option" where
  "cmd_match cmd name =
    (if \<not> starts cmd name then None
     else
       (let rest = drop (sh_strlen name) cmd
        in if rest \<noteq> [] \<and> hd rest \<noteq> SPACE then None else Some (prog_skip_spaces rest)))"

section \<open>Numbers\<close>

function uint_str_loop :: "u32 \<Rightarrow> int \<Rightarrow> u8 list \<Rightarrow> u8 list" where
  "uint_str_loop n i acc =
    (if 0 < n \<and> 0 \<le> i then uint_str_loop (n div 10) (i - 1) ((48 + ucast (n mod 10)) # acc) else acc)"
  by auto
termination by (relation "measure (\<lambda>(n, i, a). nat (i + 1))") auto

declare uint_str_loop.simps [simp del]

definition sh_uint_to_str :: "u32 \<Rightarrow> nat \<Rightarrow> u8 list" where
  "sh_uint_to_str n mx = sh_copy (if n = 0 then [48] else uint_str_loop n 10 []) mx"

definition sh_int_to_str :: "i32 \<Rightarrow> nat \<Rightarrow> u8 list" where
  "sh_int_to_str n mx =
    (if sint n < 0 then 45 # (if 1 < mx then sh_uint_to_str (- n) (mx - 1) else [])
     else sh_uint_to_str n mx)"

fun atoi_loop :: "i32 \<Rightarrow> u8 list \<Rightarrow> i32" where
  "atoi_loop result [] = result"
| "atoi_loop result (c # s) =
    (if 48 \<le> c \<and> c \<le> 57 then atoi_loop (result * 10 + ucast (c - 48)) s else result)"

definition sh_atoi :: "u8 list \<Rightarrow> i32" where
  "sh_atoi s =
    (case s of
      [] \<Rightarrow> 0
    | c # r \<Rightarrow> if c = 45 then atoi_loop 0 r * (- 1) else if c = 43 then atoi_loop 0 r * 1 else atoi_loop 0 s * 1)"

section \<open>Edit distance\<close>

text \<open>The inner loop: the cells of \<open>curr\<close> after its first, from \<open>prev\<close> and the cell on the left.\<close>

fun edit_cells :: "u8 \<Rightarrow> u8 list \<Rightarrow> int list \<Rightarrow> int \<Rightarrow> int list" where
  "edit_cells ai (bj # b) (p0 # p1 # ps) left =
    (let cost = (if ai = bj then 0 else 1);
         del = p1 + 1;
         ins = left + 1;
         sub = p0 + cost;
         m = (if del < ins then del else ins);
         c = (if m < sub then m else sub)
     in c # edit_cells ai b (p1 # ps) c)"
| "edit_cells ai b prev left = []"

fun edit_rows :: "u8 list \<Rightarrow> u8 list \<Rightarrow> int \<Rightarrow> int list \<Rightarrow> int list" where
  "edit_rows [] b i prev = prev"
| "edit_rows (ai # a) b i prev = edit_rows a b (i + 1) (i # edit_cells ai b prev i)"

definition sh_edit_distance :: "u8 list \<Rightarrow> u8 list \<Rightarrow> int" where
  "sh_edit_distance a b =
    (let la = sh_strlen a; lb = sh_strlen b
     in if 16 \<le> la \<or> 16 \<le> lb then 99
        else edit_rows a b 1 (map int [0..<lb + 1]) ! lb)"

section \<open>Basic facts\<close>

lemma sh_strlen_length [simp]: "sh_strlen s = length s"
  by (induction s) auto

lemma copy_while_spec: "copy_while P n s = (take n (takeWhile P s), drop (length (take n (takeWhile P s))) s)"
proof (induction P n s rule: copy_while.induct)
  case (2 P n c s)
  then show ?case by (cases n) auto
qed simp

lemma prog_skip_spaces_dropWhile: "prog_skip_spaces s = dropWhile (\<lambda>c. c = SPACE) s"
  by (induction s) auto

lemma sh_copy_take: "sh_copy s mx = take (mx - 1) s"
  by (simp add: sh_copy_def copy_while_spec takeWhile_eq_all_conv [THEN iffD2])

lemma sh_streq_eq [simp]: "sh_streq a b \<longleftrightarrow> a = b"
  by (induction a b rule: sh_streq.induct) auto

lemma starts_take: "starts hay needle \<longleftrightarrow> take (length needle) hay = needle"
  by (induction hay needle rule: starts.induct) auto

section \<open>Edit distance and alignments\<close>

text \<open>\<open>edits n xs ys\<close>: \<open>n\<close> insertions, deletions and substitutions turn \<open>xs\<close> into \<open>ys\<close>.\<close>

inductive edits :: "nat \<Rightarrow> u8 list \<Rightarrow> u8 list \<Rightarrow> bool" where
  nil: "edits 0 [] []"
| keep: "edits n xs ys \<Longrightarrow> edits n (x # xs) (x # ys)"
| subst: "edits n xs ys \<Longrightarrow> edits (Suc n) (x # xs) (y # ys)"
| del: "edits n xs ys \<Longrightarrow> edits (Suc n) (x # xs) ys"
| ins: "edits n xs ys \<Longrightarrow> edits (Suc n) xs (y # ys)"

fun lev :: "u8 list \<Rightarrow> u8 list \<Rightarrow> nat" where
  "lev [] ys = length ys"
| "lev (x # xs) [] = Suc (length xs)"
| "lev (x # xs) (y # ys) =
    min (min (Suc (lev xs (y # ys))) (Suc (lev (x # xs) ys))) (lev xs ys + (if x = y then 0 else 1))"

lemma lev_Nil [simp]: "lev xs [] = length xs"
  by (cases xs) auto

lemma lev_steps:
  "lev (x # xs) (x # ys) \<le> lev xs ys" "lev (x # xs) (y # ys) \<le> Suc (lev xs ys)"
  "lev (x # xs) ys \<le> Suc (lev xs ys)" "lev xs (y # ys) \<le> Suc (lev xs ys)"
proof -
  show "lev (x # xs) (x # ys) \<le> lev xs ys" "lev (x # xs) (y # ys) \<le> Suc (lev xs ys)"
    by (simp_all add: min_le_iff_disj)
  show "lev (x # xs) ys \<le> Suc (lev xs ys)" by (cases ys) simp_all
  show "lev xs (y # ys) \<le> Suc (lev xs ys)" by (cases xs) simp_all
qed

lemma lev_least: "edits n xs ys \<Longrightarrow> lev xs ys \<le> n"
proof (induction rule: edits.induct)
  case (keep n xs ys x)
  then show ?case using lev_steps(1) [of x xs ys] by linarith
next
  case (subst n xs ys x y)
  then show ?case using lev_steps(2) [of x xs y ys] by linarith
next
  case (del n xs ys x)
  then show ?case using lev_steps(3) [of x xs ys] by linarith
next
  case (ins n xs ys y)
  then show ?case using lev_steps(4) [of xs y ys] by linarith
qed simp

lemma edits_ins: "edits (length ys) [] ys"
  by (induction ys) (auto intro: edits.intros)

lemma edits_del: "edits (length xs) xs []"
  by (induction xs) (auto intro: edits.intros)

lemma edits_lev: "edits (lev xs ys) xs ys"
proof (induction xs ys rule: lev.induct)
  case (3 x xs y ys)
  have "edits (Suc (lev xs (y # ys))) (x # xs) (y # ys)" "edits (Suc (lev (x # xs) ys)) (x # xs) (y # ys)"
    "edits (lev xs ys + (if x = y then 0 else 1)) (x # xs) (y # ys)"
    using 3 by (auto intro: edits.intros)
  then show ?case unfolding lev.simps(3) min_def by presburger
qed (use edits_ins edits_del [of "_ # _"] in auto)

lemma edits_snoc_ins: "edits n xs ys \<Longrightarrow> edits (Suc n) xs (ys @ [y])"
  by (induction rule: edits.induct) (auto intro: edits.intros)

lemma edits_snoc_del: "edits n xs ys \<Longrightarrow> edits (Suc n) (xs @ [x]) ys"
  by (induction rule: edits.induct) (auto intro: edits.intros)

lemma edits_snoc_keep: "edits n xs ys \<Longrightarrow> edits n (xs @ [x]) (ys @ [x])"
  by (induction rule: edits.induct) (auto intro: edits.intros)

lemma edits_snoc_subst: "edits n xs ys \<Longrightarrow> edits (Suc n) (xs @ [x]) (ys @ [y])"
  by (induction rule: edits.induct) (auto intro: edits.intros)

lemma edits_rev: "edits n xs ys \<Longrightarrow> edits n (rev xs) (rev ys)"
  by (induction rule: edits.induct)
    (auto intro: edits.nil edits_snoc_ins edits_snoc_del edits_snoc_keep edits_snoc_subst)

lemma lev_rev: "lev (rev xs) (rev ys) = lev xs ys"
proof (rule antisym)
  show "lev (rev xs) (rev ys) \<le> lev xs ys" by (rule lev_least) (rule edits_rev [OF edits_lev])
  show "lev xs ys \<le> lev (rev xs) (rev ys)"
    using lev_least [OF edits_rev [OF edits_lev [of "rev xs" "rev ys"]]] by simp
qed

text \<open>The row of the table for a prefix \<open>xs\<close> of the first string.\<close>

definition lev_row :: "u8 list \<Rightarrow> u8 list \<Rightarrow> int list" where
  "lev_row xs b = map (\<lambda>j. int (lev xs (take j b))) [0..<length b + 1]"

lemma lev_snoc:
  "lev (xs @ [x]) (ys @ [y]) =
    min (min (Suc (lev xs (ys @ [y]))) (Suc (lev (xs @ [x]) ys))) (lev xs ys + (if x = y then 0 else 1))"
proof -
  have "lev (xs @ [x]) (ys @ [y]) = lev (x # rev xs) (y # rev ys)" using lev_rev [of "xs @ [x]" "ys @ [y]"] by simp
  also have "\<dots> = min (min (Suc (lev (rev xs) (y # rev ys))) (Suc (lev (x # rev xs) (rev ys))))
      (lev (rev xs) (rev ys) + (if x = y then 0 else 1))" by simp
  finally show ?thesis using lev_rev [of xs "ys @ [y]"] lev_rev [of "xs @ [x]" ys] lev_rev [of xs ys] by simp
qed

lemma edit_cells_spec:
  "edit_cells x b (map (\<lambda>j. int (lev xs (pre @ take j b))) [0..<length b + 1]) (int (lev (xs @ [x]) pre))
    = map (\<lambda>j. int (lev (xs @ [x]) (pre @ take j b))) [1..<length b + 1]"
proof (induction b arbitrary: pre)
  case (Cons y b)
  let ?f = "\<lambda>zs j. int (lev zs (pre @ take j (y # b)))" and ?g = "\<lambda>zs j. int (lev zs ((pre @ [y]) @ take j b))"
  have shift: "[1..<length (y # b) + 1] = map Suc [0..<length b + 1]" by (simp add: map_Suc_upt del: upt_Suc)
  have r1: "map (?f zs) [1..<length (y # b) + 1] = map (?g zs) [0..<length b + 1]" for zs
    unfolding shift by (simp add: comp_def del: upt_Suc)
  have r0: "map (?f zs) [0..<length (y # b) + 1] = int (lev zs pre) # map (?g zs) [0..<length b + 1]" for zs
    using r1 [of zs] by (simp add: upt_conv_Cons del: upt_Suc)
  have g: "map (?g zs) [0..<length b + 1] = int (lev zs (pre @ [y])) # map (?g zs) [1..<length b + 1]" for zs
    by (simp add: upt_conv_Cons del: upt_Suc)
  have c: "(let cost = (if x = y then 0 else 1); del = int (lev xs (pre @ [y])) + 1;
        ins = int (lev (xs @ [x]) pre) + 1; sub = int (lev xs pre) + cost; m = (if del < ins then del else ins)
      in (if m < sub then m else sub)) = int (lev (xs @ [x]) (pre @ [y]))"
    unfolding lev_snoc by (auto simp: Let_def min_def)
  have step: "edit_cells x (y # b) (int (lev xs pre) # int (lev xs (pre @ [y])) # rest) (int (lev (xs @ [x]) pre))
      = int (lev (xs @ [x]) (pre @ [y])) # edit_cells x b (int (lev xs (pre @ [y])) # rest) (int (lev (xs @ [x]) (pre @ [y])))" for rest
    using c by (simp add: Let_def)
  show ?case unfolding r0 r1 unfolding g step by (rule arg_cong) (rule Cons.IH [of "pre @ [y]", unfolded g])
qed simp

lemma edit_rows_spec: "edit_rows a b (int (Suc (length xs))) (lev_row xs b) = lev_row (xs @ a) b"
proof (induction a arbitrary: xs)
  case (Cons x a)
  have "lev_row (xs @ [x]) b = int (Suc (length xs)) # map (\<lambda>j. int (lev (xs @ [x]) (take j b))) [1..<length b + 1]"
    by (simp add: lev_row_def upt_conv_Cons del: upt_Suc)
  also have "\<dots> = int (Suc (length xs)) # edit_cells x b (lev_row xs b) (int (Suc (length xs)))"
    using edit_cells_spec [of x b xs "[]"] by (simp add: lev_row_def del: upt_Suc)
  finally show ?case using Cons.IH [of "xs @ [x]"] by (simp add: add.commute)
qed simp

section \<open>Numbers and their texts\<close>

text \<open>The decimal digits of a number, as \<open>uint_str_loop\<close> lays them out.\<close>

definition is_digit :: "u8 \<Rightarrow> bool" where
  "is_digit c \<longleftrightarrow> 48 \<le> c \<and> c \<le> 57"

lemma unat_ucast_u8: "unat (w :: u32) < 256 \<Longrightarrow> unat (ucast w :: u8) = unat w"
  unfolding unsigned_ucast_eq by (subst take_bit_nat_eq_self) simp_all

lemma unat_ucast_u32: "unat (ucast (w :: u8) :: u32) = unat w"
  using unat_bound [of w] unfolding unsigned_ucast_eq by (subst take_bit_nat_eq_self) simp_all

lemma digit_byte:
  fixes n :: u32
  shows "is_digit (48 + ucast (n mod 10))" and "ucast ((48 + ucast (n mod 10) :: u8) - 48) = n mod 10"
proof -
  have m: "unat (n mod 10) < 10" by (simp add: unat_mod)
  then have u: "unat (ucast (n mod 10) :: u8) = unat (n mod 10)" by (intro unat_ucast_u8) simp
  have "unat (48 + ucast (n mod 10) :: u8) = 48 + unat (n mod 10)"
    using m u by (subst unat_add_no_wrap) simp_all
  then show "is_digit (48 + ucast (n mod 10))" using m by (simp add: is_digit_def word_le_nat_alt)
  have "unat (ucast (ucast (n mod 10) :: u8) :: u32) = unat (n mod 10)" using u by (simp add: unat_ucast_u32)
  then show "ucast ((48 + ucast (n mod 10) :: u8) - 48) = n mod 10" by (simp add: word_unat_eq_iff)
qed

lemma atoi_append:
  "\<forall>c \<in> set ds. is_digit c \<Longrightarrow> atoi_loop r (ds @ s) = atoi_loop (atoi_loop r ds) s"
  by (induction ds arbitrary: r) (auto simp: is_digit_def)

text \<open>A number of at most \<open>k\<close> digits fits whatever room there is from \<open>k\<close> places on.\<close>

lemma uint_str_spec:
  assumes "unat n < 10 ^ k" and "int k \<le> i + 1"
  shows "\<exists>ds. uint_str_loop n i acc = ds @ acc \<and> (\<forall>c \<in> set ds. is_digit c)
    \<and> atoi_loop 0 ds = n \<and> length ds \<le> k \<and> (n \<noteq> 0 \<longrightarrow> ds \<noteq> [])"
  using assms
proof (induction k arbitrary: n i acc)
  case 0
  then show ?case by (simp add: uint_str_loop.simps unat_eq_zero)
next
  case (Suc k)
  show ?case
  proof (cases "n = 0")
    case True
    then show ?thesis by (simp add: uint_str_loop.simps)
  next
    case False
    let ?d = "48 + ucast (n mod 10) :: u8"
    have "unat (n div 10) < 10 ^ k" using Suc.prems(1) by (simp add: unat_div less_mult_imp_div_less mult.commute)
    from Suc.IH [OF this, of "i - 1" "?d # acc"] Suc.prems(2) obtain ds where
      ds: "uint_str_loop (n div 10) (i - 1) (?d # acc) = ds @ ?d # acc" "\<forall>c \<in> set ds. is_digit c"
        "atoi_loop 0 ds = n div 10" "length ds \<le> k" by auto
    have "uint_str_loop n i acc = uint_str_loop (n div 10) (i - 1) (?d # acc)"
      using False Suc.prems(2) by (subst uint_str_loop.simps) (simp add: word_neq_0_conv)
    moreover have "atoi_loop 0 (ds @ [?d]) = n"
      using atoi_append [OF ds(2), of 0 "[?d]"] ds(3) digit_byte [of n] div_mult_mod_eq [of n 10]
      by (simp add: is_digit_def)
    ultimately show ?thesis using ds digit_byte(1) [of n] by (intro exI [of _ "ds @ [?d]"]) auto
  qed
qed

lemma uint_to_str_spec:
  assumes "11 \<le> mx"
  shows "(\<forall>c \<in> set (sh_uint_to_str n mx). is_digit c) \<and> atoi_loop 0 (sh_uint_to_str n mx) = n
    \<and> sh_uint_to_str n mx \<noteq> [] \<and> length (sh_uint_to_str n mx) \<le> 10"
proof (cases "n = 0")
  case True
  then show ?thesis using assms by (simp add: sh_uint_to_str_def sh_copy_take is_digit_def)
next
  case False
  have "unat n < 10 ^ 10" using unat_bound [of n] by simp
  from uint_str_spec [OF this, of 10 "[]"] obtain ds where
    "uint_str_loop n 10 [] = ds" "\<forall>c \<in> set ds. is_digit c" "atoi_loop 0 ds = n" "length ds \<le> 10" "ds \<noteq> []"
    using False by auto
  then show ?thesis using assms False by (simp add: sh_uint_to_str_def sh_copy_take)
qed

section \<open>Properties\<close>

text \<open>C36. On strings of fewer than 16 bytes \<open>sh_edit_distance\<close> is the Levenshtein distance: that
  many insertions, deletions and substitutions turn one string into the other, and no smaller
  number does. Longer strings are given the distance 99.\<close>

theorem edit_distance_least:
  "sh_edit_distance a b =
    (if length a < 16 \<and> length b < 16 then int (LEAST n. edits n a b) else 99)"
proof (cases "length a < 16 \<and> length b < 16")
  case True
  have least: "(LEAST n. edits n a b) = lev a b"
    by (rule Least_equality) (auto simp: edits_lev lev_least)
  have "map int [0..<length b + 1] = lev_row [] b" by (simp add: lev_row_def del: upt_Suc)
  then have "edit_rows a b 1 (map int [0..<length b + 1]) = lev_row a b"
    using edit_rows_spec [of a b "[]"] by simp
  moreover have "lev_row a b ! length b = int (lev a b)" by (simp add: lev_row_def del: upt_Suc)
  ultimately show ?thesis using True least by (simp add: sh_edit_distance_def Let_def)
qed (auto simp: sh_edit_distance_def Let_def)

text \<open>C37. Every \<open>int\<close> survives being printed by \<open>sh_int_to_str\<close> into a buffer of at least 12 bytes
  and read back by \<open>sh_atoi\<close>; the text has at most 11 bytes. (For the smallest \<open>int\<close> the code
  negates it, which wraps to the same word here.)\<close>

theorem int_str_roundtrip:
  assumes "12 \<le> mx"
  shows "sh_atoi (sh_int_to_str n mx) = n \<and> length (sh_int_to_str n mx) \<le> 11"
proof (cases "sint n < 0")
  case True
  have "11 \<le> mx - 1" using assms by simp
  from uint_to_str_spec [OF this, of "- n"] True assms show ?thesis
    by (simp add: sh_int_to_str_def sh_atoi_def)
next
  case False
  have "11 \<le> mx" using assms by simp
  note s = uint_to_str_spec [OF this, of n]
  then obtain c ds where c: "sh_uint_to_str n mx = c # ds" by (cases "sh_uint_to_str n mx") auto
  with s have "is_digit c" by simp
  then have "c \<noteq> 45" "c \<noteq> 43" by (auto simp: is_digit_def)
  with s False c show ?thesis by (simp add: sh_int_to_str_def sh_atoi_def)
qed

theorem int_str_roundtrip_witness: "sh_atoi (sh_int_to_str (- 2026) 16) = - 2026"
  using int_str_roundtrip [of 16 "- 2026"] by simp

end
