(* ===== verification/Shell.thy ===== *)
theory Shell
  imports Users Pmm Io Shell_Text
begin

text \<open>
  userspace/src/shell.c and the programs of userspace/programs that are built into it, in the
  default configuration. The state holds the shell's static variables, the user table (with the
  file system) and what the programs read of the kernel: the page allocator, the tick
  counter and the ports. A user is the index of its slot. The console is the list of what was put on it, with
  the colour where the code gives one, and a list of lines still to be typed. The outer option is
  \<open>None\<close> where a walk of the file system, a wait for a line, or an expansion of aliases does not
  end. The bytes that \<open>innofs_rm\<close> reads
  uninitialised for the root directory are the field \<open>stack_junk\<close>. A machine that has been reset executes nothing more; every loop stops on it.
\<close>

section \<open>State\<close>

definition CMD_BUF_MAX :: nat where "CMD_BUF_MAX = 256"
definition SHELL_HISTORY_SIZE :: u32 where "SHELL_HISTORY_SIZE = 16"
definition NAME_MAX :: nat where "NAME_MAX = 16"
definition VALUE_MAX :: nat where "VALUE_MAX = 64"
definition MAX_ALIASES :: nat where "MAX_ALIASES = 8"
definition MAX_VARS :: nat where "MAX_VARS = 8"
definition MAX_THEMES :: nat where "MAX_THEMES = 12"
definition ALIAS_MAX_DEPTH :: nat where "ALIAS_MAX_DEPTH = 4"

definition CON_COLOR_WHITE :: u32 where "CON_COLOR_WHITE = 0x00E0E0E0"
definition CON_COLOR_GREEN :: u32 where "CON_COLOR_GREEN = 0x0000FF88"
definition CON_COLOR_RED :: u32 where "CON_COLOR_RED = 0x00FF4444"
definition CON_COLOR_YELLOW :: u32 where "CON_COLOR_YELLOW = 0x00FFD866"
definition CON_COLOR_CYAN :: u32 where "CON_COLOR_CYAN = 0x0066D9EF"
definition CON_COLOR_GREY :: u32 where "CON_COLOR_GREY = 0x00888888"

record shell_settings =
  show_counter :: u32
  show_suggestions :: u32
  prompt_style :: u32

text \<open>An alias or a variable, with the 16 and 64 bytes of its arrays.\<close>

record kv =
  kv_name :: "u8 list"
  kv_value :: "u8 list"
  kv_used :: u32

record theme =
  th_name :: "u8 list"
  th_user_color :: u32
  th_at_color :: u32
  th_symbol_color :: u32
  th_symbol :: u8
  th_used :: u32
  th_builtin :: u32

record shell =
  sh_users :: users
  sh_pmm :: pmm
  sh_ticks :: u64
  sh_io :: io
  g_shell_exit :: bool
  g_cmd_number :: u32
  history_buf :: "u8 list list"
  history_count :: u32
  g_settings :: shell_settings
  g_aliases :: "kv list"
  g_vars :: "kv list"
  g_themes :: "theme list"
  g_active_theme :: u32
  g_themes_ready :: bool
  g_custom_motd :: "u8 list"
  g_custom_motd_set :: u32
  g_motd_index :: u32
  con :: "(u32 option \<times> u8 list) list"
  typed_lines :: "u8 list list"
  machine_reset :: bool
  stack_junk :: "u32 \<times> nat"

definition stopped :: "shell \<Rightarrow> bool" where
  "stopped sh \<longleftrightarrow> g_shell_exit sh \<or> machine_reset sh"

definition puts :: "shell \<Rightarrow> u8 list \<Rightarrow> shell" where
  "puts sh s = sh\<lparr>con := con sh @ [(None, s)]\<rparr>"

definition puts_color :: "shell \<Rightarrow> u8 list \<Rightarrow> u32 \<Rightarrow> shell" where
  "puts_color sh s color = sh\<lparr>con := con sh @ [(Some color, s)]\<rparr>"

definition newline :: "u8 list" where
  "newline = [10]"

definition put_line :: "shell \<Rightarrow> string \<Rightarrow> shell" where
  "put_line sh s = puts sh (cs s @ newline)"

definition put_error :: "shell \<Rightarrow> string \<Rightarrow> shell" where
  "put_error sh s = puts_color sh (cs s @ newline) CON_COLOR_RED"

definition sh_vfs :: "shell \<Rightarrow> vfs" where
  "sh_vfs sh = u_vfs (sh_users sh)"

definition set_vfs :: "shell \<Rightarrow> vfs \<Rightarrow> shell" where
  "set_vfs sh v = sh\<lparr>sh_users := (sh_users sh)\<lparr>u_vfs := v\<rparr>\<rparr>"

definition is_admin :: "shell \<Rightarrow> nat \<Rightarrow> bool" where
  "is_admin sh user \<longleftrightarrow> user_admin (g_users (sh_users sh)) user"

definition username :: "shell \<Rightarrow> nat \<Rightarrow> u8 list" where
  "username sh user = user_name (g_users (sh_users sh)) user"

definition uid16 :: "shell \<Rightarrow> nat \<Rightarrow> u16" where
  "uid16 sh user = ucast (user_uid (g_users (sh_users sh)) user)"

definition readline :: "shell \<Rightarrow> nat \<Rightarrow> (shell \<times> u8 list) option" where
  "readline sh len =
    (case typed_lines sh of
      [] \<Rightarrow> None
    | l # ls \<Rightarrow> Some (sh\<lparr>typed_lines := ls\<rparr>, take (len - 1) l))"

section \<open>The saved state\<close>

text \<open>\<open>sh_copy\<close> into an array: the string, its NUL, and the old bytes behind it.\<close>

definition copy_into :: "u8 list \<Rightarrow> u8 list \<Rightarrow> nat \<Rightarrow> u8 list" where
  "copy_into arr src mx = (let s = sh_copy src mx in s @ 0 # drop (length s + 1) arr)"

definition kv_str_name :: "kv \<Rightarrow> u8 list" where
  "kv_str_name kv = cstring (kv_name kv)"

definition kv_str_value :: "kv \<Rightarrow> u8 list" where
  "kv_str_value kv = cstring (kv_value kv)"

definition kv_bytes :: "kv \<Rightarrow> u8 list" where
  "kv_bytes kv = kv_name kv @ kv_value kv @ bytes_u32 (kv_used kv)"

definition kv_of_bytes :: "buf \<Rightarrow> nat \<Rightarrow> kv" where
  "kv_of_bytes b off = \<lparr>kv_name = bytes_at b off 16, kv_value = bytes_at b (off + 16) 64, kv_used = get_u32 b (off + 80)\<rparr>"

definition theme_bytes :: "theme \<Rightarrow> u8 list" where
  "theme_bytes t = th_name t @ bytes_u32 (th_user_color t) @ bytes_u32 (th_at_color t)
     @ bytes_u32 (th_symbol_color t) @ [th_symbol t, 0, 0, 0] @ bytes_u32 (th_used t) @ bytes_u32 (th_builtin t)"

definition theme_of_bytes :: "buf \<Rightarrow> nat \<Rightarrow> theme" where
  "theme_of_bytes b off = \<lparr>th_name = bytes_at b off 16, th_user_color = get_u32 b (off + 16),
     th_at_color = get_u32 b (off + 20), th_symbol_color = get_u32 b (off + 24), th_symbol = b (off + 28),
     th_used = get_u32 b (off + 32), th_builtin = get_u32 b (off + 36)\<rparr>"

definition SHELL_STATE_SIZE :: nat where
  "SHELL_STATE_SIZE = 1976"

definition SHELL_MAGIC :: u32 where
  "SHELL_MAGIC = 0x53484C4C"

text \<open>The structure \<open>shell_state_t\<close>: the magic number, the settings at 4, the aliases at 16, the
  variables at 688, the themes at 1360, the active theme at 1840, the message at 1844 and its
  flag at 1972.\<close>

definition shell_state_bytes :: "shell \<Rightarrow> u8 list" where
  "shell_state_bytes sh = bytes_u32 SHELL_MAGIC
     @ bytes_u32 (show_counter (g_settings sh)) @ bytes_u32 (show_suggestions (g_settings sh))
     @ bytes_u32 (prompt_style (g_settings sh))
     @ concat (map kv_bytes (g_aliases sh)) @ concat (map kv_bytes (g_vars sh))
     @ concat (map theme_bytes (g_themes sh)) @ bytes_u32 (g_active_theme sh)
     @ pad_to 128 (cstring (g_custom_motd sh)) @ bytes_u32 (g_custom_motd_set sh)"

definition restore_state :: "shell \<Rightarrow> buf \<Rightarrow> shell" where
  "restore_state sh b = sh\<lparr>
     g_settings := \<lparr>show_counter = get_u32 b 4, show_suggestions = get_u32 b 8, prompt_style = get_u32 b 12\<rparr>,
     g_aliases := map (\<lambda>i. kv_of_bytes b (16 + 84 * i)) [0..<MAX_ALIASES],
     g_vars := map (\<lambda>i. kv_of_bytes b (688 + 84 * i)) [0..<MAX_VARS],
     g_themes := map (\<lambda>i. theme_of_bytes b (1360 + 40 * i)) [0..<MAX_THEMES],
     g_active_theme := get_u32 b 1840,
     g_custom_motd := (let s = cstring (bytes_at b 1844 128) in s @ 0 # drop (length s + 1) (g_custom_motd sh)),
     g_custom_motd_set := get_u32 b 1972\<rparr>"

definition shellrc_path :: "shell \<Rightarrow> nat \<Rightarrow> u8 list" where
  "shellrc_path sh user =
    (if username sh user = cs ''root'' then cs ''/root/.shellrc''
     else strncat_s (strncat_s (cs ''/home/'') (username sh user) 64) (cs ''/.shellrc'') 128)"

definition shell_save_state :: "shell \<Rightarrow> nat \<Rightarrow> shell option" where
  "shell_save_state sh user =
    map_option (\<lambda>(v, fd).
      if 0 \<le> fd then set_vfs sh (vfs_close (fst (vfs_write v fd (shell_state_bytes sh))) fd)
      else set_vfs sh v)
    (vfs_open (sh_vfs sh) (shellrc_path sh user) (VFS_MODE_WRITE + VFS_MODE_CREATE) (uid16 sh user))"

definition shell_load_state :: "shell \<Rightarrow> nat \<Rightarrow> shell option" where
  "shell_load_state sh user =
    map_option (\<lambda>(v, fd).
      if 0 \<le> fd then
        (case vfs_read v fd (of_nat SHELL_STATE_SIZE) of (v1, n, xs) \<Rightarrow>
           let b = blit (\<lambda>_. 0) 0 xs;
               sh1 = (if n = int SHELL_STATE_SIZE \<and> get_u32 b 0 = SHELL_MAGIC then restore_state sh b else sh)
           in set_vfs sh1 (vfs_close v1 fd))
      else set_vfs sh v)
    (vfs_open (sh_vfs sh) (shellrc_path sh user) VFS_MODE_READ (uid16 sh user))"

section \<open>History and variables\<close>

definition history_add :: "shell \<Rightarrow> u8 list \<Rightarrow> shell" where
  "history_add sh cmd =
    sh\<lparr>history_buf := (history_buf sh)[unat (history_count sh mod SHELL_HISTORY_SIZE) := sh_copy cmd CMD_BUF_MAX],
       history_count := history_count sh + 1\<rparr>"

fun kv_find :: "kv list \<Rightarrow> u8 list \<Rightarrow> nat \<Rightarrow> nat option" where
  "kv_find [] name i = None"
| "kv_find (kv # kvs) name i =
    (if kv_used kv \<noteq> 0 \<and> sh_streq (kv_str_name kv) name then Some i else kv_find kvs name (i + 1))"

fun kv_free :: "kv list \<Rightarrow> nat \<Rightarrow> nat option" where
  "kv_free [] i = None"
| "kv_free (kv # kvs) i = (if kv_used kv = 0 then Some i else kv_free kvs (i + 1))"

definition var_lookup :: "shell \<Rightarrow> nat \<Rightarrow> u8 list \<Rightarrow> nat \<Rightarrow> u8 list option" where
  "var_lookup sh user name len =
    (if name_eq name len (cs ''USER'') then Some (username sh user)
     else if name_eq name len (cs ''ADMIN'') then Some (if is_admin sh user then cs ''1'' else cs ''0'')
     else if name_eq name len (cs ''CMDNUM'') then Some (sh_uint_to_str (g_cmd_number sh) 12)
     else map_option (\<lambda>i. kv_str_value (g_vars sh ! i)) (kv_find (g_vars sh) (take len name) 0))"

definition is_name_start :: "u8 \<Rightarrow> bool" where
  "is_name_start c \<longleftrightarrow> c = 95 \<or> 65 \<le> c \<and> c \<le> 90 \<or> 97 \<le> c \<and> c \<le> 122"

definition is_name_char :: "u8 \<Rightarrow> bool" where
  "is_name_char c \<longleftrightarrow> is_name_start c \<or> 48 \<le> c \<and> c \<le> 57"

definition DOLLAR :: u8 where
  "DOLLAR = 36"

function expand_loop :: "shell \<Rightarrow> nat \<Rightarrow> nat \<Rightarrow> u8 list \<Rightarrow> u8 list \<Rightarrow> u8 list" where
  "expand_loop sh user mx inp out =
    (case inp of
      [] \<Rightarrow> out
    | c # rest \<Rightarrow>
        if \<not> length out + 1 < mx then out
        else if c = DOLLAR \<and> rest \<noteq> [] \<and> is_name_start (hd rest) then
          (let len = length (takeWhile is_name_char rest);
               out1 = (case var_lookup sh user rest len of
                  None \<Rightarrow> out
                | Some val \<Rightarrow> out @ take (mx - 1 - length out) val)
           in expand_loop sh user mx (drop len rest) out1)
        else expand_loop sh user mx rest (out @ [c]))"
  by auto
termination by (relation "measure (\<lambda>(sh, u, m, inp, out). length inp)") auto

declare expand_loop.simps [simp del]

definition sh_expand_vars :: "shell \<Rightarrow> nat \<Rightarrow> u8 list \<Rightarrow> nat \<Rightarrow> u8 list" where
  "sh_expand_vars sh user inp mx = expand_loop sh user mx inp []"

section \<open>Themes\<close>

fun theme_find_loop :: "theme list \<Rightarrow> u8 list \<Rightarrow> nat \<Rightarrow> nat option" where
  "theme_find_loop [] name i = None"
| "theme_find_loop (t # ts) name i =
    (if th_used t \<noteq> 0 \<and> sh_streq (cstring (th_name t)) name then Some i else theme_find_loop ts name (i + 1))"

definition theme_find :: "shell \<Rightarrow> u8 list \<Rightarrow> nat option" where
  "theme_find sh name = theme_find_loop (g_themes sh) name 0"

fun theme_free :: "theme list \<Rightarrow> nat \<Rightarrow> nat option" where
  "theme_free [] i = None"
| "theme_free (t # ts) i = (if th_used t = 0 then Some i else theme_free ts (i + 1))"

definition theme_register ::
  "shell \<Rightarrow> u8 list \<Rightarrow> u32 \<Rightarrow> u32 \<Rightarrow> u32 \<Rightarrow> u8 \<Rightarrow> u32 \<Rightarrow> shell \<times> nat option" where
  "theme_register sh name uc ac sc symb builtin =
    (case (case theme_find sh name of Some i \<Rightarrow> Some i | None \<Rightarrow> theme_free (g_themes sh) 0) of
      None \<Rightarrow> (sh, None)
    | Some i \<Rightarrow>
        (sh\<lparr>g_themes := (g_themes sh)[i := \<lparr>th_name = copy_into (th_name (g_themes sh ! i)) name NAME_MAX,
            th_user_color = uc, th_at_color = ac, th_symbol_color = sc, th_symbol = symb,
            th_used = 1, th_builtin = builtin\<rparr>]\<rparr>, Some i))"

definition NO_COLOR :: u32 where
  "NO_COLOR = - 1"

text \<open>The built-in themes: name, colours and symbol.\<close>

definition builtin_themes :: "(string \<times> u32 \<times> u32 \<times> u32 \<times> u8) list" where
  "builtin_themes = [
    (''default'', NO_COLOR, CON_COLOR_WHITE, NO_COLOR, 0),
    (''red'', CON_COLOR_RED, CON_COLOR_WHITE, CON_COLOR_RED, 0),
    (''green'', CON_COLOR_GREEN, CON_COLOR_WHITE, CON_COLOR_GREEN, 0),
    (''cyan'', CON_COLOR_CYAN, CON_COLOR_WHITE, CON_COLOR_CYAN, 0),
    (''white'', CON_COLOR_WHITE, CON_COLOR_WHITE, CON_COLOR_WHITE, 0),
    (''matrix'', CON_COLOR_GREEN, CON_COLOR_GREEN, CON_COLOR_GREEN, 62),
    (''fire'', CON_COLOR_RED, CON_COLOR_RED, CON_COLOR_WHITE, 62),
    (''ice'', CON_COLOR_CYAN, CON_COLOR_CYAN, CON_COLOR_WHITE, 62),
    (''ghost'', CON_COLOR_WHITE, CON_COLOR_WHITE, CON_COLOR_WHITE, 126),
    (''royal'', CON_COLOR_CYAN, CON_COLOR_RED, CON_COLOR_WHITE, 35),
    (''candy'', CON_COLOR_WHITE, CON_COLOR_RED, CON_COLOR_CYAN, 42)]"

definition shell_init_themes :: "shell \<Rightarrow> shell" where
  "shell_init_themes sh =
    (if g_themes_ready sh then sh
     else foldl (\<lambda>sh (name, uc, ac, sc, symb). fst (theme_register sh (cs name) uc ac sc symb 1))
            (sh\<lparr>g_themes_ready := True\<rparr>) builtin_themes)"

definition color_from_name :: "u8 list \<Rightarrow> u32 option" where
  "color_from_name s =
    (if sh_streq s (cs ''red'') then Some CON_COLOR_RED
     else if sh_streq s (cs ''green'') then Some CON_COLOR_GREEN
     else if sh_streq s (cs ''cyan'') then Some CON_COLOR_CYAN
     else if sh_streq s (cs ''white'') then Some CON_COLOR_WHITE
     else None)"

section \<open>Commands without effects outside the shell\<close>

definition cmd_clear :: "shell \<Rightarrow> nat \<Rightarrow> u8 list \<Rightarrow> shell option" where
  "cmd_clear sh user args = Some (sh\<lparr>con := []\<rparr>)"

definition cmd_logout :: "shell \<Rightarrow> nat \<Rightarrow> u8 list \<Rightarrow> shell option" where
  "cmd_logout sh user args = Some ((put_line sh ''Logging out...'')\<lparr>g_shell_exit := True\<rparr>)"

definition cmd_version :: "shell \<Rightarrow> nat \<Rightarrow> u8 list \<Rightarrow> shell option" where
  "cmd_version sh user args = Some (puts (puts_color sh (cs ''InnovatiOS Shell v5.0'') CON_COLOR_CYAN) newline)"

definition print_banner :: "shell \<Rightarrow> shell" where
  "print_banner sh =
    (let rule = cs ''+--------------------------------------+'' @ newline;
         sh1 = puts_color (puts sh newline) rule CON_COLOR_CYAN;
         sh2 = puts_color sh1 (cs ''|           InnovatiOS Shell            |'' @ newline) CON_COLOR_CYAN
     in puts_color sh2 rule CON_COLOR_CYAN)"

definition motd_tips :: "string list" where
  "motd_tips = [
    ''Tip: type 'help' to see all available commands.'',
    ''Tip: use '!!' to instantly repeat your last command.'',
    ''Tip: 'history' shows everything you've typed this session.'',
    ''Tip: only admins can run privileged commands like 'reboot'.'',
    ''Tip: 'set counter off' hides the [n] counter in your prompt.'',
    ''Tip: chain commands with ';', e.g. 'clear; whoami'.'',
    ''Tip: unique prefixes work too - 'wh' can run 'whoami'.'',
    ''Tip: 'theme list' shows every prompt theme you can use.'',
    ''Tip: aliases can hold multiple commands: alias fresh=clear;whoami'',
    ''Tip: 'theme save mytheme cyan *' makes your own theme.'',
    ''Tip: 'history find <term>' searches what you've typed.'',
    ''Tip: 'repeat 3 whoami' runs a command several times.'',
    ''Tip: 'calc 6 * 7' does quick arithmetic for you.'']"

definition print_motd :: "shell \<Rightarrow> shell" where
  "print_motd sh =
    (if g_custom_motd_set sh \<noteq> 0 then
       puts (puts_color sh (cstring (g_custom_motd sh)) CON_COLOR_WHITE) newline
     else
       (let tip = motd_tips ! (unat (g_motd_index sh) mod length motd_tips)
        in (puts (puts_color sh (cs tip) CON_COLOR_WHITE) newline)\<lparr>g_motd_index := g_motd_index sh + 1\<rparr>))"

definition cmd_banner :: "shell \<Rightarrow> nat \<Rightarrow> u8 list \<Rightarrow> shell option" where
  "cmd_banner sh user args = Some (print_motd (print_banner sh))"

definition cmd_colors :: "shell \<Rightarrow> nat \<Rightarrow> u8 list \<Rightarrow> shell option" where
  "cmd_colors sh user args =
    (let sh1 = put_line sh ''Available console colors used by this shell:'';
         sh2 = puts_color sh1 (cs ''  RED'' @ newline) CON_COLOR_RED;
         sh3 = puts_color sh2 (cs ''  GREEN'' @ newline) CON_COLOR_GREEN;
         sh4 = puts_color sh3 (cs ''  CYAN'' @ newline) CON_COLOR_CYAN
     in Some (puts_color sh4 (cs ''  WHITE'' @ newline) CON_COLOR_WHITE))"

text \<open>The lines shown, from the oldest one kept: their numbers and texts.\<close>

definition history_lines :: "shell \<Rightarrow> (u32 \<times> u8 list) list" where
  "history_lines sh =
    (let count = history_count sh;
         start = (if SHELL_HISTORY_SIZE < count then count - SHELL_HISTORY_SIZE else 0)
     in map (\<lambda>i. (of_nat i + 1, history_buf sh ! unat (of_nat i mod SHELL_HISTORY_SIZE))) [unat start..<unat count])"

definition show_line :: "shell \<Rightarrow> u32 \<times> u8 list \<Rightarrow> shell" where
  "show_line sh l =
    puts (puts (puts (puts (puts_color sh (cs ''  '') CON_COLOR_WHITE) (sh_uint_to_str (fst l) 12)) (cs ''  ''))
      (snd l)) newline"

definition cmd_history :: "shell \<Rightarrow> nat \<Rightarrow> u8 list \<Rightarrow> shell option" where
  "cmd_history sh user args =
    (if sh_streq args (cs ''clear'') then Some (put_line (sh\<lparr>history_count := 0\<rparr>) ''History cleared.'')
     else
       (let (sub, trm, _) = split_two_words args NAME_MAX VALUE_MAX;
            filt = sh_streq sub (cs ''find'')
        in if filt \<and> trm = [] then Some (put_error sh ''Usage: history find <term>'')
           else if history_count sh = 0 then Some (put_line sh ''No commands in history yet.'')
           else
             (let shown = filter (\<lambda>l. \<not> (filt \<and> \<not> sh_contains (snd l) trm)) (history_lines sh);
                  sh1 = foldl show_line sh shown
              in Some (if filt \<and> shown = [] then put_line sh1 ''No matches.'' else sh1))))"

definition cmd_calc :: "shell \<Rightarrow> nat \<Rightarrow> u8 list \<Rightarrow> shell option" where
  "cmd_calc sh user args =
    (let (a, r1) = copy_while (\<lambda>c. c \<noteq> SPACE) (VALUE_MAX - 1) (prog_skip_spaces args);
         (oper, r2) = copy_while (\<lambda>c. c \<noteq> SPACE) (NAME_MAX - 1) (prog_skip_spaces r1);
         (b, _) = copy_while (\<lambda>_. True) (VALUE_MAX - 1) (prog_skip_spaces r2);
         x = sh_atoi a;
         y = sh_atoi b;
         answer = (\<lambda>r. Some (puts (puts sh (sh_int_to_str r 16)) newline))
     in if a = [] \<or> oper = [] \<or> b = [] then Some (put_error sh ''Usage: calc <num> <+|-|*|/> <num>'')
        else if sh_streq oper (cs ''+'') then answer (x + y)
        else if sh_streq oper (cs ''-'') then answer (x - y)
        else if sh_streq oper (cs ''*'') then answer (x * y)
        else if sh_streq oper (cs ''/'') then
          (if y = 0 then Some (put_error sh ''Division by zero.'')
           else answer (word_of_int (sgn (sint x) * sgn (sint y) * (\<bar>sint x\<bar> div \<bar>sint y\<bar>))))
        else Some (put_error sh ''Unknown operator. Use + - * /''))"

section \<open>Settings, themes and messages\<close>

definition ok_saved :: "shell \<Rightarrow> nat \<Rightarrow> shell option" where
  "ok_saved sh user = shell_save_state (put_line sh ''OK.'') user"

definition on_off :: "u32 \<Rightarrow> string" where
  "on_off v = (if v \<noteq> 0 then ''on'' else ''off'')"

definition show_settings :: "shell \<Rightarrow> shell" where
  "show_settings sh =
    (let st = g_settings sh;
         sh1 = put_line (puts sh (cs ''counter     : '')) (on_off (show_counter st));
         sh2 = put_line (puts sh1 (cs ''suggestions : '')) (on_off (show_suggestions st));
         sh3 = put_line (puts sh2 (cs ''prompt      : ''))
           (if prompt_style st = 0 then ''bracket'' else if prompt_style st = 1 then ''arrow'' else ''minimal'');
         sh4 = puts sh3 (newline @ cs ''Usage: set <counter|suggestions> <on|off>'' @ newline)
     in put_line sh4 ''       set prompt <bracket|arrow|minimal>'')"

definition cmd_set :: "shell \<Rightarrow> nat \<Rightarrow> u8 list \<Rightarrow> shell option" where
  "cmd_set sh user args =
    (if args = [] then Some (show_settings sh)
     else
       (let (key, val, _) = split_two_words args NAME_MAX VALUE_MAX in
        if sh_streq key (cs ''prompt'') then
          (if sh_streq val (cs ''bracket'') then ok_saved (sh\<lparr>g_settings := (g_settings sh)\<lparr>prompt_style := 0\<rparr>\<rparr>) user
           else if sh_streq val (cs ''arrow'') then ok_saved (sh\<lparr>g_settings := (g_settings sh)\<lparr>prompt_style := 1\<rparr>\<rparr>) user
           else if sh_streq val (cs ''minimal'') then ok_saved (sh\<lparr>g_settings := (g_settings sh)\<lparr>prompt_style := 2\<rparr>\<rparr>) user
           else Some (put_error sh ''Usage: set prompt <bracket|arrow|minimal>''))
        else if \<not> sh_streq val (cs ''on'') \<and> \<not> sh_streq val (cs ''off'') then
          Some (put_error sh ''Usage: set <counter|suggestions> <on|off>'')
        else
          (let want_on = (if sh_streq val (cs ''on'') then 1 else 0) in
           if sh_streq key (cs ''counter'') then ok_saved (sh\<lparr>g_settings := (g_settings sh)\<lparr>show_counter := want_on\<rparr>\<rparr>) user
           else if sh_streq key (cs ''suggestions'') then
             ok_saved (sh\<lparr>g_settings := (g_settings sh)\<lparr>show_suggestions := want_on\<rparr>\<rparr>) user
           else Some (puts (puts (puts_color sh (cs ''Unknown setting: '') CON_COLOR_RED) key) newline))))"

definition theme_status :: "shell \<Rightarrow> shell" where
  "theme_status sh =
    (let sh1 = puts sh (cs ''Active theme: '');
         sh2 = puts_color sh1
           (if g_active_theme sh = NO_COLOR then cs ''default''
            else cstring (th_name (g_themes sh ! unat (g_active_theme sh)))) CON_COLOR_CYAN;
         sh3 = put_line (puts sh2 newline) ''Usage: theme <name> | theme list | theme save <name> <color> [symbol]''
     in put_line sh3 ''       theme delete <name> | theme reset'')"

definition theme_list_line :: "shell \<Rightarrow> theme \<Rightarrow> shell" where
  "theme_list_line sh t =
    (if th_used t = 0 then sh
     else
       (let sh1 = puts sh (cs ''  '');
            sh2 = puts_color sh1 (cstring (th_name t))
              (if th_symbol_color t = NO_COLOR then CON_COLOR_WHITE else th_symbol_color t)
        in put_line sh2 (if th_builtin t \<noteq> 0 then ''  (builtin)'' else ''  (custom)'')))"

definition theme_save :: "shell \<Rightarrow> nat \<Rightarrow> u8 list \<Rightarrow> shell option" where
  "theme_save sh user rest =
    (let (name, color_and_sym, _) = split_two_words rest NAME_MAX VALUE_MAX;
         (color_str, symbol_str, _) = split_two_words color_and_sym NAME_MAX NAME_MAX
     in if name = [] \<or> color_from_name color_str = None then
          Some (put_error sh ''Usage: theme save <name> <red|green|cyan|white> [symbol]'')
        else if (case theme_find sh name of None \<Rightarrow> False | Some e \<Rightarrow> th_builtin (g_themes sh ! e) \<noteq> 0) then
          Some (put_error sh ''Cannot overwrite a builtin theme name.'')
        else
          (let color = the (color_from_name color_str);
               symb = (if symbol_str = [] then 0 else hd symbol_str)
           in case theme_register sh name color color color symb 0 of (sh1, r) \<Rightarrow>
                if r = None then Some (put_error sh1 ''Theme table full.'') else ok_saved sh1 user))"

definition cmd_theme :: "shell \<Rightarrow> nat \<Rightarrow> u8 list \<Rightarrow> shell option" where
  "cmd_theme sh0 user args =
    (let sh = shell_init_themes sh0 in
     if args = [] \<or> sh_streq args (cs ''status'') then Some (theme_status sh)
     else
       (let (sub, rest, _) = split_two_words args NAME_MAX VALUE_MAX in
        if sh_streq sub (cs ''list'') then
          Some (foldl theme_list_line (puts_color sh (cs ''Available themes:'' @ newline) CON_COLOR_CYAN) (g_themes sh))
        else if sh_streq sub (cs ''reset'') then ok_saved (sh\<lparr>g_active_theme := NO_COLOR\<rparr>) user
        else if sh_streq sub (cs ''delete'') then
          (case theme_find sh rest of
            None \<Rightarrow> Some (put_error sh ''No such theme.'')
          | Some i \<Rightarrow>
              if th_builtin (g_themes sh ! i) \<noteq> 0 then Some (put_error sh ''Cannot delete a builtin theme.'')
              else ok_saved (sh\<lparr>g_themes := (g_themes sh)[i := (g_themes sh ! i)\<lparr>th_used := 0\<rparr>],
                     g_active_theme := (if g_active_theme sh = of_nat i then NO_COLOR else g_active_theme sh)\<rparr>) user)
        else if sh_streq sub (cs ''save'') then theme_save sh user rest
        else (case theme_find sh sub of
            None \<Rightarrow> Some (puts (puts (puts_color sh (cs ''Unknown theme: '') CON_COLOR_RED) sub) newline)
          | Some i \<Rightarrow> ok_saved (sh\<lparr>g_active_theme := of_nat i\<rparr>) user)))"

definition cmd_motd :: "shell \<Rightarrow> nat \<Rightarrow> u8 list \<Rightarrow> shell option" where
  "cmd_motd sh user args =
    (if args = [] then Some (print_motd sh)
     else
       (let (sub, rest, _) = split_two_words args NAME_MAX VALUE_MAX in
        if sh_streq sub (cs ''reset'') then
          ok_saved (sh\<lparr>g_custom_motd_set := 0, g_custom_motd := (g_custom_motd sh)[0 := 0]\<rparr>) user
        else if sh_streq sub (cs ''set'') then
          (if rest = [] then Some (put_error sh ''Usage: motd set <text>'')
           else ok_saved (sh\<lparr>g_custom_motd := copy_into (g_custom_motd sh) rest (VALUE_MAX * 2), g_custom_motd_set := 1\<rparr>) user)
        else Some (put_error sh ''Usage: motd | motd set <text> | motd reset'')))"

section \<open>Variables and aliases\<close>

text \<open>Both tables are filled and emptied the same way: an entry with the name is changed, else
  the first free one is taken; \<open>None\<close> is a full table.\<close>

definition kv_put :: "kv list \<Rightarrow> u8 list \<Rightarrow> u8 list \<Rightarrow> kv list option" where
  "kv_put kvs name value =
    (case kv_find kvs name 0 of
      Some i \<Rightarrow> Some (kvs[i := (kvs ! i)\<lparr>kv_value := copy_into (kv_value (kvs ! i)) value VALUE_MAX\<rparr>])
    | None \<Rightarrow>
        (case kv_free kvs 0 of
          Some i \<Rightarrow> Some (kvs[i := \<lparr>kv_name = copy_into (kv_name (kvs ! i)) name NAME_MAX,
                       kv_value = copy_into (kv_value (kvs ! i)) value VALUE_MAX, kv_used = 1\<rparr>])
        | None \<Rightarrow> None))"

definition cmd_export :: "shell \<Rightarrow> nat \<Rightarrow> u8 list \<Rightarrow> shell option" where
  "cmd_export sh user args =
    (case split_kv args NAME_MAX VALUE_MAX of
      None \<Rightarrow> Some (put_error sh ''Usage: export NAME=value'')
    | Some (name, value) \<Rightarrow>
        if name = [] then Some (put_error sh ''Usage: export NAME=value'')
        else (case kv_put (g_vars sh) name value of
          None \<Rightarrow> Some (put_error sh ''Variable table full.'')
        | Some kvs \<Rightarrow> ok_saved (sh\<lparr>g_vars := kvs\<rparr>) user))"

definition cmd_unset :: "shell \<Rightarrow> nat \<Rightarrow> u8 list \<Rightarrow> shell option" where
  "cmd_unset sh user args =
    (case kv_find (g_vars sh) args 0 of
      None \<Rightarrow> Some (put_error sh ''No such variable.'')
    | Some i \<Rightarrow> ok_saved (sh\<lparr>g_vars := (g_vars sh)[i := (g_vars sh ! i)\<lparr>kv_used := 0\<rparr>]\<rparr>) user)"

definition kv_line :: "u8 list \<Rightarrow> shell \<Rightarrow> kv \<Rightarrow> shell" where
  "kv_line sep sh kv =
    (if kv_used kv = 0 then sh
     else puts (puts (puts (puts_color sh (kv_str_name kv) CON_COLOR_GREEN) sep) (kv_str_value kv)) newline)"

definition any_used :: "kv list \<Rightarrow> bool" where
  "any_used kvs \<longleftrightarrow> list_ex (\<lambda>kv. kv_used kv \<noteq> 0) kvs"

definition cmd_env :: "shell \<Rightarrow> nat \<Rightarrow> u8 list \<Rightarrow> shell option" where
  "cmd_env sh user args =
    (let sh1 = puts (puts_color sh (cs ''USER'') CON_COLOR_GREEN) (cs ''='');
         sh2 = put_line (puts sh1 (username sh user)) ''  (built-in)'';
         sh3 = puts (puts_color sh2 (cs ''ADMIN'') CON_COLOR_GREEN) (cs ''='');
         sh4 = put_line (puts sh3 (if is_admin sh user then cs ''1'' else cs ''0'')) ''  (built-in)'';
         sh5 = foldl (kv_line (cs ''='')) sh4 (g_vars sh)
     in Some (if any_used (g_vars sh) then sh5
              else put_line sh5 ''(no custom variables set - try 'export NAME=value')''))"

definition cmd_alias :: "shell \<Rightarrow> nat \<Rightarrow> u8 list \<Rightarrow> shell option" where
  "cmd_alias sh user args =
    (if args = [] then
       (let sh1 = foldl (kv_line (cs '' = '')) sh (g_aliases sh)
        in Some (if any_used (g_aliases sh) then sh1 else put_line sh1 ''No aliases set.''))
     else (case split_kv args NAME_MAX VALUE_MAX of
       None \<Rightarrow> Some (put_error sh ''Usage: alias name=command'')
     | Some (name, value) \<Rightarrow>
         if name = [] then Some (put_error sh ''Usage: alias name=command'')
         else (case kv_put (g_aliases sh) name value of
           None \<Rightarrow> Some (put_error sh ''Alias table full.'')
         | Some kvs \<Rightarrow> ok_saved (sh\<lparr>g_aliases := kvs\<rparr>) user)))"

definition cmd_unalias :: "shell \<Rightarrow> nat \<Rightarrow> u8 list \<Rightarrow> shell option" where
  "cmd_unalias sh user args =
    (case kv_find (g_aliases sh) args 0 of
      None \<Rightarrow> Some (put_error sh ''No such alias.'')
    | Some i \<Rightarrow> ok_saved (sh\<lparr>g_aliases := (g_aliases sh)[i := (g_aliases sh ! i)\<lparr>kv_used := 0\<rparr>]\<rparr>) user)"

section \<open>Files\<close>

definition cmd_echo :: "shell \<Rightarrow> nat \<Rightarrow> u8 list \<Rightarrow> shell option" where
  "cmd_echo sh user args =
    (let text = takeWhile (\<lambda>c. c \<noteq> 62) args; redir = dropWhile (\<lambda>c. c \<noteq> 62) args in
     if redir \<noteq> [] then
       (let filename = take 31 (prog_skip_spaces (tl redir)) in
        map_option (\<lambda>(v, fd).
          if 0 \<le> fd then
            set_vfs sh (vfs_close (fst (vfs_write (fst (vfs_write v fd text)) fd newline)) fd)
          else put_error (set_vfs sh v) ''Failed to open file for writing'')
        (vfs_open (sh_vfs sh) filename (VFS_MODE_WRITE + VFS_MODE_CREATE) (uid16 sh user)))
     else Some (puts (puts sh args) newline))"

definition cmd_mkfs :: "shell \<Rightarrow> nat \<Rightarrow> u8 list \<Rightarrow> shell option" where
  "cmd_mkfs sh user args = map_option (\<lambda>(v, r). set_vfs sh v) (vfs_mkfs (sh_vfs sh))"

definition ls_entry :: "shell \<Rightarrow> vfs_dirent \<Rightarrow> shell" where
  "ls_entry sh d =
    (if v_flags d AND VFS_FLAG_DIRECTORY \<noteq> 0 then
       puts (puts_color sh (v_name d) CON_COLOR_CYAN) (cs ''/  '')
     else puts (puts (puts (puts sh (v_name d)) (cs ''  '')) (sh_uint_to_str (v_size d) 16)) (cs '' bytes  ''))"

partial_function (option) ls_loop :: "u8 list option \<Rightarrow> int \<Rightarrow> shell \<Rightarrow> shell option" where
  "ls_loop dir index sh =
    (case vfs_readdir (sh_vfs sh) dir index of
      None \<Rightarrow> None
    | Some entry \<Rightarrow>
        (case entry of None \<Rightarrow> Some sh | Some d \<Rightarrow> ls_loop dir (index + 1) (ls_entry sh d)))"

definition cmd_ls :: "shell \<Rightarrow> nat \<Rightarrow> u8 list \<Rightarrow> shell option" where
  "cmd_ls sh user args =
    (let target_dir = sh_first_word args 64
     in map_option (\<lambda>sh1. puts sh1 newline) (ls_loop (if target_dir = [] then None else Some target_dir) 0 sh))"

partial_function (option) cat_loop :: "int \<Rightarrow> shell \<Rightarrow> shell option" where
  "cat_loop fd sh =
    (case vfs_read (sh_vfs sh) fd 64 of (v, bytes, xs) \<Rightarrow>
       if 0 < bytes then cat_loop fd (puts (set_vfs sh v) (cstring xs)) else Some (set_vfs sh v))"

definition cmd_cat :: "shell \<Rightarrow> nat \<Rightarrow> u8 list \<Rightarrow> shell option" where
  "cmd_cat sh user args =
    (let filename = sh_first_word args 32 in
     if filename = [] then Some (put_error sh ''Usage: cat <filename>'')
     else do {
       (v, fd) \<leftarrow> vfs_open (sh_vfs sh) filename VFS_MODE_READ (uid16 sh user);
       if 0 \<le> fd then
         map_option (\<lambda>sh1. puts (set_vfs sh1 (vfs_close (sh_vfs sh1) fd)) newline) (cat_loop fd (set_vfs sh v))
       else Some (put_error (set_vfs sh v) ''File not found'')
     })"

definition cmd_touch :: "shell \<Rightarrow> nat \<Rightarrow> u8 list \<Rightarrow> shell option" where
  "cmd_touch sh user args =
    (let filename = sh_first_word args 32 in
     if filename = [] then Some (put_error sh ''Usage: touch <filename>'')
     else map_option (\<lambda>(v, fd). set_vfs sh (if 0 \<le> fd then vfs_close v fd else v))
       (vfs_open (sh_vfs sh) filename (VFS_MODE_WRITE + VFS_MODE_CREATE) (uid16 sh user)))"

definition cmd_rm :: "shell \<Rightarrow> nat \<Rightarrow> u8 list \<Rightarrow> shell option" where
  "cmd_rm sh user args =
    (let filename = sh_first_word args 32 in
     if filename = [] then Some (put_error sh ''Usage: rm <filename>'')
     else map_option (\<lambda>(v, r). if r < 0 then put_error (set_vfs sh v) ''File not found'' else set_vfs sh v)
       (vfs_rm (sh_vfs sh) (stack_junk sh) filename (uid16 sh user)))"

definition user_home :: "shell \<Rightarrow> nat \<Rightarrow> u8 list" where
  "user_home sh user = homedir_of (username sh user)"

definition cmd_cd :: "shell \<Rightarrow> nat \<Rightarrow> u8 list \<Rightarrow> shell option" where
  "cmd_cd sh user args =
    (let path = sh_first_word args 128
     in Some (set_vfs sh (vfs_set_cwd (sh_vfs sh) (Some (if path = [] then user_home sh user else path)))))"

definition cmd_pwd :: "shell \<Rightarrow> nat \<Rightarrow> u8 list \<Rightarrow> shell option" where
  "cmd_pwd sh user args = Some (puts (puts sh (vfs_get_cwd (sh_vfs sh))) newline)"

definition cmd_mkdir :: "shell \<Rightarrow> nat \<Rightarrow> u8 list \<Rightarrow> shell option" where
  "cmd_mkdir sh user args =
    (let dirname = sh_first_word args 64 in
     if dirname = [] then Some (put_error sh ''Usage: mkdir <name>'')
     else map_option (\<lambda>(v, r). if r < 0 then put_error (set_vfs sh v) ''Failed to create directory'' else set_vfs sh v)
       (vfs_mkdir (sh_vfs sh) dirname (uid16 sh user) 0))"

section \<open>Users\<close>

definition set_role :: "bool \<Rightarrow> string \<Rightarrow> shell \<Rightarrow> nat \<Rightarrow> u8 list \<Rightarrow> shell option" where
  "set_role adm msg sh user args =
    (if \<not> is_admin sh user then Some (put_error sh ''Access denied.'')
     else
       (let target = sh_first_word args 32 in
        if target = [] then Some sh
        else map_option (\<lambda>(u, r). put_line (sh\<lparr>sh_users := u\<rparr>) (if r = 0 then msg else ''User not found.''))
          (user_set_admin (sh_users sh) target adm)))"

definition cmd_promote :: "shell \<Rightarrow> nat \<Rightarrow> u8 list \<Rightarrow> shell option" where
  "cmd_promote = set_role True ''User promoted.''"

definition cmd_downgrade :: "shell \<Rightarrow> nat \<Rightarrow> u8 list \<Rightarrow> shell option" where
  "cmd_downgrade = set_role False ''User downgraded.''"

definition cmd_passwd :: "shell \<Rightarrow> nat \<Rightarrow> u8 list \<Rightarrow> shell option" where
  "cmd_passwd sh user args =
    (let newpass = sh_first_word args 32 in
     if newpass = [] then Some (put_error sh ''Usage: passwd <new_password>'')
     else map_option (\<lambda>(u, r). put_line (sh\<lparr>sh_users := u\<rparr>) ''Password updated.'')
       (user_change_password (sh_users sh) (Some user) newpass))"

definition prog_whoami :: "shell \<Rightarrow> nat \<Rightarrow> u8 list \<Rightarrow> shell option" where
  "prog_whoami sh user args =
    (let sh1 = puts sh (username sh user)
     in Some (puts (if is_admin sh user then puts_color sh1 (cs '' (admin)'') CON_COLOR_YELLOW else sh1) newline))"

definition spaces :: "nat \<Rightarrow> u8 list" where
  "spaces n = replicate n SPACE"

definition user_line :: "shell \<Rightarrow> nat \<Rightarrow> shell" where
  "user_line sh i =
    (case user_get_by_index (sh_users sh) (of_nat i) of
      None \<Rightarrow> sh
    | Some u \<Rightarrow>
        (let uid_str = prog_u64_to_str (ucast (user_uid (g_users (sh_users sh)) u)) 21;
             sh1 = puts (puts sh uid_str) (spaces (5 - length uid_str));
             sh2 = puts (puts sh1 (username sh u)) (spaces (17 - length (username sh u)))
         in if is_admin sh u then puts_color sh2 (cs ''admin'' @ newline) CON_COLOR_YELLOW else put_line sh2 ''user''))"

definition prog_users :: "shell \<Rightarrow> nat \<Rightarrow> u8 list \<Rightarrow> shell option" where
  "prog_users sh user args =
    (if \<not> is_admin sh user then Some (put_error sh ''Permission denied.'')
     else
       (let sh1 = puts_color sh (cs ''UID  USERNAME         ROLE'' @ newline) CON_COLOR_CYAN;
            sh2 = puts_color sh1 (cs ''---  ---------------  -----'' @ newline) CON_COLOR_GREY
        in Some (foldl user_line sh2 [0..<USER_MAX])))"

definition prog_adduser :: "shell \<Rightarrow> nat \<Rightarrow> u8 list \<Rightarrow> shell option" where
  "prog_adduser sh user args =
    (if \<not> is_admin sh user then Some (put_error sh ''Permission denied.'')
     else
       (let (name, args1) = prog_next_word args USER_NAME_MAX;
            (pass, _) = prog_next_word args1 USER_NAME_MAX
        in if name = [] \<or> pass = [] then
             Some (puts_color sh (cs ''Usage: adduser <username> <password>'' @ newline) CON_COLOR_YELLOW)
           else map_option (\<lambda>(u, ret).
               (let sh1 = sh\<lparr>sh_users := u\<rparr> in
                if ret = 0 then
                  puts_color (puts_color (puts_color sh1 (cs ''User '' @ [39]) CON_COLOR_GREEN) name CON_COLOR_GREEN)
                    ([39] @ cs '' created.'' @ newline) CON_COLOR_GREEN
                else if ret = - 2 then put_error sh1 ''User already exists.''
                else put_error sh1 ''Failed to create user (table full).''))
             (user_add (sh_users sh) name pass False)))"

section \<open>System programs\<close>

definition prog_uname :: "shell \<Rightarrow> nat \<Rightarrow> u8 list \<Rightarrow> shell option" where
  "prog_uname sh user args = Some (put_line (puts_color sh (cs ''InnovatiOS'') CON_COLOR_CYAN) '' v0.1 (x86_64)'')"

definition prog_uptime :: "shell \<Rightarrow> nat \<Rightarrow> u8 list \<Rightarrow> shell option" where
  "prog_uptime sh user args =
    (let ticks = sh_ticks sh; seconds = ticks div 100; minutes = seconds div 60; secs = seconds mod 60;
         sh1 = puts (puts (puts sh (cs ''Up '')) (prog_u64_to_str minutes 21)) (cs ''m '');
         sh2 = puts (puts sh1 (prog_u64_to_str secs 21)) (cs ''s ('')
     in Some (put_line (puts sh2 (prog_u64_to_str ticks 21)) '' ticks)''))"

definition prog_meminfo :: "shell \<Rightarrow> nat \<Rightarrow> u8 list \<Rightarrow> shell option" where
  "prog_meminfo sh user args =
    (let total = pmm_total_pages (sh_pmm sh); free_pg = pmm_free_pages_count (sh_pmm sh); used = total - free_pg;
         sh1 = puts_color sh (cs ''Memory Information:'' @ newline) CON_COLOR_CYAN;
         sh2 = puts (puts (puts sh1 (cs ''  Total pages:  '')) (prog_u64_to_str total 21)) (cs '' ('');
         sh3 = put_line (puts sh2 (prog_u64_to_str (total * 4096 div 1024 div 1024) 21)) '' MB)'';
         sh4 = puts (puts_color (puts sh3 (cs ''  Used pages:   '')) (prog_u64_to_str used 21) CON_COLOR_YELLOW) newline;
         sh5 = puts_color (puts sh4 (cs ''  Free pages:   '')) (prog_u64_to_str free_pg 21) CON_COLOR_GREEN
     in Some (puts sh5 newline))"

definition cmd_sysinfo :: "shell \<Rightarrow> nat \<Rightarrow> u8 list \<Rightarrow> shell option" where
  "cmd_sysinfo sh user args =
    do {
      sh1 \<leftarrow> prog_uname (puts_color sh (cs ''=== System Information ==='' @ newline) CON_COLOR_CYAN) user [];
      sh2 \<leftarrow> prog_uptime sh1 user [];
      prog_meminfo sh2 user []
    }"

text \<open>The machine is asked to reset through port CF9, then through the keyboard controller once its
  input buffer is empty or the wait has lasted long enough, and last by a triple fault: the
  function does not return. The idle loops between the accesses have no counterpart.\<close>

fun wait_input_clear :: "nat \<Rightarrow> io \<Rightarrow> io" where
  "wait_input_clear 0 io = io"
| "wait_input_clear (Suc n) io =
    (let (io1, status) = inb io 0x64 in if status AND 2 = 0 then io1 else wait_input_clear n io1)"

definition reset_sequence :: "io \<Rightarrow> io" where
  "reset_sequence io = outb (wait_input_clear 100000 (outb (outb io 0xCF9 2) 0xCF9 6)) 0x64 0xFE"

definition prog_reboot :: "shell \<Rightarrow> nat \<Rightarrow> u8 list \<Rightarrow> shell option" where
  "prog_reboot sh user args =
    (let sh1 = puts_color sh (cs ''Rebooting...'' @ newline) CON_COLOR_YELLOW
     in Some (sh1\<lparr>sh_io := reset_sequence (sh_io sh1), machine_reset := True\<rparr>))"

definition cmd_reboot_confirm :: "shell \<Rightarrow> nat \<Rightarrow> u8 list \<Rightarrow> shell option" where
  "cmd_reboot_confirm sh user args =
    do {
      (sh1, confirm) \<leftarrow> readline (puts_color sh (cs ''This will reboot the system. Continue? (yes/no) '') CON_COLOR_RED) 8;
      let c = prog_skip_spaces confirm;
      if sh_streq c (cs ''yes'') \<or> sh_streq c (cs ''y'') then prog_reboot sh1 user args
      else Some (put_line sh1 ''Reboot cancelled.'')
    }"

section \<open>The command table\<close>

datatype shell_handler =
    H_cd | H_pwd | H_mkdir | H_promote | H_downgrade | H_passwd | H_help | H_whoami | H_users
    | H_adduser | H_clear | H_uname | H_uptime | H_meminfo | H_reboot | H_mkfs | H_ls | H_cat
    | H_touch | H_rm | H_history | H_echo | H_colors | H_set | H_export | H_unset | H_env |
    H_alias | H_unalias | H_theme | H_motd | H_calc | H_repeat | H_sysinfo | H_banner |
    H_version | H_logout

definition commands :: "(string \<times> shell_handler \<times> string \<times> bool) list" where
  "commands = [
    (''cd'', H_cd, ''Change directory'', False),
    (''pwd'', H_pwd, ''Print working directory'', False),
    (''mkdir'', H_mkdir, ''Create a directory'', False),
    (''promote'', H_promote, ''Promote a user to admin'', True),
    (''downgrade'', H_downgrade, ''Downgrade a user from admin'', True),
    (''passwd'', H_passwd, ''Change your password'', False),
    (''help'', H_help, ''Show command list, or 'help <cmd>' for detail'', False),
    (''whoami'', H_whoami, ''Show current user info'', False),
    (''users'', H_users, ''List all users on the system'', False),
    (''adduser'', H_adduser, ''Add a new user'', True),
    (''clear'', H_clear, ''Clear the screen'', False),
    (''uname'', H_uname, ''Show system/kernel info'', False),
    (''uptime'', H_uptime, ''Show system uptime'', False),
    (''meminfo'', H_meminfo, ''Show memory usage info'', False),
    (''reboot'', H_reboot, ''Reboot the system (asks to confirm)'', True),
    (''mkfs'', H_mkfs, ''Format the persistent disk (InnoFS)'', True),
    (''ls'', H_ls, ''List files in the root directory'', False),
    (''cat'', H_cat, ''Read the contents of a file'', False),
    (''touch'', H_touch, ''Create an empty file'', False),
    (''rm'', H_rm, ''Delete a file'', False),
    (''history'', H_history, ''Show history, 'find <term>' or 'clear' it'', False),
    (''echo'', H_echo, ''Print text back to the console'', False),
    (''colors'', H_colors, ''Show the console colors this shell uses'', False),
    (''set'', H_set, ''View/change shell settings'', False),
    (''export'', H_export, ''Set an environment variable'', False),
    (''unset'', H_unset, ''Remove an environment variable'', False),
    (''env'', H_env, ''List environment variables'', False),
    (''alias'', H_alias, ''Create or list command aliases/macros'', False),
    (''unalias'', H_unalias, ''Remove a command alias'', False),
    (''theme'', H_theme, ''Manage prompt themes (try 'theme list')'', False),
    (''motd'', H_motd, ''Show/set the login tip message'', False),
    (''calc'', H_calc, ''Quick arithmetic: calc <n> <op> <n>'', False),
    (''repeat'', H_repeat, ''Run a command several times'', False),
    (''sysinfo'', H_sysinfo, ''Show uname/uptime/meminfo together'', False),
    (''banner'', H_banner, ''Reprint the welcome banner'', False),
    (''version'', H_version, ''Show shell version'', False),
    (''logout'', H_logout, ''Log out of the current session'', False)]"

definition c_name :: "string \<times> shell_handler \<times> string \<times> bool \<Rightarrow> u8 list" where
  "c_name c = cs (fst c)"

definition c_handler :: "string \<times> shell_handler \<times> string \<times> bool \<Rightarrow> shell_handler" where
  "c_handler c = fst (snd c)"

definition c_desc :: "string \<times> shell_handler \<times> string \<times> bool \<Rightarrow> u8 list" where
  "c_desc c = cs (fst (snd (snd c)))"

definition c_admin_only :: "string \<times> shell_handler \<times> string \<times> bool \<Rightarrow> bool" where
  "c_admin_only c = snd (snd (snd c))"

definition help_line :: "nat \<Rightarrow> shell \<Rightarrow> string \<times> shell_handler \<times> string \<times> bool \<Rightarrow> shell" where
  "help_line user sh c =
    (if c_admin_only c \<and> \<not> is_admin sh user then sh
     else
       (let sh1 = puts_color (puts sh (cs ''  '')) (c_name c) (if c_admin_only c then CON_COLOR_RED else CON_COLOR_GREEN)
        in puts (puts (puts (puts sh1 (spaces (10 - sh_strlen (c_name c)))) (cs '' - '')) (c_desc c)) newline))"

definition cmd_help :: "shell \<Rightarrow> nat \<Rightarrow> u8 list \<Rightarrow> shell option" where
  "cmd_help sh user args =
    (if args \<noteq> [] then
       (case find (\<lambda>c. sh_streq (c_name c) args) commands of
         None \<Rightarrow> Some (puts (puts (puts_color sh (cs ''No such command: '') CON_COLOR_RED) args) newline)
       | Some c \<Rightarrow>
           if c_admin_only c \<and> \<not> is_admin sh user then Some (put_error sh ''Permission denied.'')
           else
             (let sh1 = puts (puts (puts (puts_color sh (c_name c) CON_COLOR_GREEN) (cs '' - '')) (c_desc c)) newline
              in Some (if c_admin_only c then put_error sh1 ''(admin only)'' else sh1)))
     else
       (let sh1 = foldl (help_line user) (puts_color sh (cs ''Available commands:'' @ newline) CON_COLOR_CYAN) commands;
            sh2 = puts_color sh1 (newline @ cs ''Tip: '') CON_COLOR_WHITE;
            sh3 = put_line sh2 '''help <command>' for detail, ';' chains commands, '!!' repeats''
        in Some (put_line sh3 ''     the last one, and unique prefixes work as shortcuts.'')))"

section \<open>Command lines\<close>

text \<open>The bodies of the loops call \<open>process_segment\<close>, which is their argument \<open>rec\<close>.\<close>

fun repeat_loop ::
  "(shell \<Rightarrow> u8 list \<Rightarrow> nat \<Rightarrow> shell option) \<Rightarrow> nat \<Rightarrow> u8 list \<Rightarrow> shell \<Rightarrow> shell option" where
  "repeat_loop rec 0 rest sh = Some sh"
| "repeat_loop rec (Suc n) rest sh =
    do { sh1 \<leftarrow> rec sh rest 1; if stopped sh1 then Some sh1 else repeat_loop rec n rest sh1 }"

definition cmd_repeat ::
  "(shell \<Rightarrow> u8 list \<Rightarrow> nat \<Rightarrow> shell option) \<Rightarrow> shell \<Rightarrow> nat \<Rightarrow> u8 list \<Rightarrow> shell option" where
  "cmd_repeat rec sh user args =
    (let (count_str, r) = copy_while (\<lambda>c. c \<noteq> SPACE) (NAME_MAX - 1) (prog_skip_spaces args);
         rest = prog_skip_spaces r
     in if count_str = [] \<or> rest = [] then Some (put_error sh ''Usage: repeat <count> <command>'')
        else
          (let n = sint (sh_atoi count_str) in
           if n \<le> 0 \<or> 50 < n then Some (put_error sh ''Count must be between 1 and 50.'')
           else repeat_loop rec (nat n) rest sh))"

definition run_handler ::
  "(shell \<Rightarrow> u8 list \<Rightarrow> nat \<Rightarrow> shell option) \<Rightarrow> shell_handler \<Rightarrow> shell \<Rightarrow> nat \<Rightarrow> u8 list \<Rightarrow> shell option" where
  "run_handler rec h sh user args =
    (case h of
      H_cd \<Rightarrow> cmd_cd sh user args
    | H_pwd \<Rightarrow> cmd_pwd sh user args
    | H_mkdir \<Rightarrow> cmd_mkdir sh user args
    | H_promote \<Rightarrow> cmd_promote sh user args
    | H_downgrade \<Rightarrow> cmd_downgrade sh user args
    | H_passwd \<Rightarrow> cmd_passwd sh user args
    | H_help \<Rightarrow> cmd_help sh user args
    | H_whoami \<Rightarrow> prog_whoami sh user args
    | H_users \<Rightarrow> prog_users sh user args
    | H_adduser \<Rightarrow> prog_adduser sh user args
    | H_clear \<Rightarrow> cmd_clear sh user args
    | H_uname \<Rightarrow> prog_uname sh user args
    | H_uptime \<Rightarrow> prog_uptime sh user args
    | H_meminfo \<Rightarrow> prog_meminfo sh user args
    | H_reboot \<Rightarrow> cmd_reboot_confirm sh user args
    | H_mkfs \<Rightarrow> cmd_mkfs sh user args
    | H_ls \<Rightarrow> cmd_ls sh user args
    | H_cat \<Rightarrow> cmd_cat sh user args
    | H_touch \<Rightarrow> cmd_touch sh user args
    | H_rm \<Rightarrow> cmd_rm sh user args
    | H_history \<Rightarrow> cmd_history sh user args
    | H_echo \<Rightarrow> cmd_echo sh user args
    | H_colors \<Rightarrow> cmd_colors sh user args
    | H_set \<Rightarrow> cmd_set sh user args
    | H_export \<Rightarrow> cmd_export sh user args
    | H_unset \<Rightarrow> cmd_unset sh user args
    | H_env \<Rightarrow> cmd_env sh user args
    | H_alias \<Rightarrow> cmd_alias sh user args
    | H_unalias \<Rightarrow> cmd_unalias sh user args
    | H_theme \<Rightarrow> cmd_theme sh user args
    | H_motd \<Rightarrow> cmd_motd sh user args
    | H_calc \<Rightarrow> cmd_calc sh user args
    | H_repeat \<Rightarrow> cmd_repeat rec sh user args
    | H_sysinfo \<Rightarrow> cmd_sysinfo sh user args
    | H_banner \<Rightarrow> cmd_banner sh user args
    | H_version \<Rightarrow> cmd_version sh user args
    | H_logout \<Rightarrow> cmd_logout sh user args)"

definition SEMI :: u8 where
  "SEMI = 59"

text \<open>The pieces between semicolons, each cut to what the code's buffer holds.\<close>

fun split_semi :: "u8 list \<Rightarrow> u8 list \<Rightarrow> u8 list list" where
  "split_semi acc [] = [take (CMD_BUF_MAX - 1) acc]"
| "split_semi acc (c # s) =
    (if c = SEMI then take (CMD_BUF_MAX - 1) acc # split_semi [] s else split_semi (acc @ [c]) s)"

fun run_segments ::
  "(shell \<Rightarrow> u8 list \<Rightarrow> nat \<Rightarrow> shell option) \<Rightarrow> nat \<Rightarrow> u8 list list \<Rightarrow> shell \<Rightarrow> shell option" where
  "run_segments rec depth [] sh = Some sh"
| "run_segments rec depth (seg # segs) sh =
    (let trimmed = prog_skip_spaces seg in
     if trimmed = [] then run_segments rec depth segs sh
     else do { sh1 \<leftarrow> rec sh trimmed depth; if stopped sh1 then Some sh1 else run_segments rec depth segs sh1 })"

definition expand_alias :: "shell \<Rightarrow> u8 list \<Rightarrow> u8 list" where
  "expand_alias sh seg =
    (let word = sh_first_word seg NAME_MAX in
     case kv_find (g_aliases sh) word 0 of
       None \<Rightarrow> seg
     | Some i \<Rightarrow>
         (let rest = prog_skip_spaces (drop (sh_strlen word) seg);
              v = kv_str_value (g_aliases sh ! i)
          in take (CMD_BUF_MAX - 1) (v @ (if rest = [] then [] else [SPACE]) @ rest)))"

fun match_command ::
  "u8 list \<Rightarrow> (string \<times> shell_handler \<times> string \<times> bool) list \<Rightarrow>
    ((string \<times> shell_handler \<times> string \<times> bool) \<times> u8 list) option" where
  "match_command seg [] = None"
| "match_command seg (c # cmds) =
    (case cmd_match seg (c_name c) of Some a \<Rightarrow> Some (c, a) | None \<Rightarrow> match_command seg cmds)"

definition candidates :: "u8 list \<Rightarrow> (string \<times> shell_handler \<times> string \<times> bool) list" where
  "candidates word =
    (if word = [] then [] else filter (\<lambda>c. sh_strlen word < sh_strlen (c_name c) \<and> starts (c_name c) word) commands)"

fun put_names :: "shell \<Rightarrow> (string \<times> shell_handler \<times> string \<times> bool) list \<Rightarrow> shell" where
  "put_names sh [] = sh"
| "put_names sh [c] = puts sh (c_name c)"
| "put_names sh (c # d # cmds) = put_names (puts (puts sh (c_name c)) (cs '', '')) (d # cmds)"

fun best_match ::
  "u8 list \<Rightarrow> (string \<times> shell_handler \<times> string \<times> bool) list \<Rightarrow> int \<Rightarrow>
    (string \<times> shell_handler \<times> string \<times> bool) option \<Rightarrow> int \<times> (string \<times> shell_handler \<times> string \<times> bool) option" where
  "best_match word [] best_dist best = (best_dist, best)"
| "best_match word (c # cmds) best_dist best =
    (let d = sh_edit_distance word (c_name c)
     in if d < best_dist then best_match word cmds d (Some c) else best_match word cmds best_dist best)"

definition suggest :: "shell \<Rightarrow> u8 list \<Rightarrow> shell" where
  "suggest sh seg =
    (if show_suggestions (g_settings sh) = 0 then sh
     else
       (case best_match (sh_first_word seg 16) commands 99 None of
         (d, Some c) \<Rightarrow>
           if 0 < d \<and> d \<le> 2 then
             puts (puts_color (puts sh (cs ''Did you mean '' @ [39])) (c_name c) CON_COLOR_GREEN) ([39, 63] @ newline)
           else sh
       | (d, None) \<Rightarrow> sh))"

text \<open>A command found in the table: the check of the privilege, then the handler.\<close>

definition run_command ::
  "(shell \<Rightarrow> u8 list \<Rightarrow> nat \<Rightarrow> shell option) \<Rightarrow> shell \<Rightarrow> nat \<Rightarrow>
    (string \<times> shell_handler \<times> string \<times> bool) \<Rightarrow> u8 list \<Rightarrow> shell option" where
  "run_command rec sh user c args =
    (if c_admin_only c \<and> \<not> is_admin sh user then
       Some (put_line (puts (puts_color sh (cs ''Permission denied: '') CON_COLOR_RED) (c_name c))
         '' requires admin privileges.'')
     else run_handler rec (c_handler c) sh user args)"

primrec process_segment :: "nat \<Rightarrow> nat \<Rightarrow> shell \<Rightarrow> u8 list \<Rightarrow> nat \<Rightarrow> shell option" where
  "process_segment 0 user sh raw_seg depth = None"
| "process_segment (Suc fuel) user sh raw_seg depth =
    (if ALIAS_MAX_DEPTH < depth then
       Some (put_error sh ''Alias expands into itself too deeply, aborting.'')
     else
       (let seg = expand_alias sh raw_seg in
        if SEMI \<in> set seg then run_segments (process_segment fuel user) (depth + 1) (split_semi [] seg) sh
        else
          (let sh1 = sh\<lparr>g_cmd_number := g_cmd_number sh + 1\<rparr>;
               word = sh_first_word seg 16;
               cands = candidates word
           in case match_command seg commands of
                Some (c, args) \<Rightarrow> run_command (process_segment fuel user) sh1 user c args
              | None \<Rightarrow>
                  if length cands = 1 then
                    run_command (process_segment fuel user) sh1 user (hd cands)
                      (prog_skip_spaces (drop (sh_strlen word) seg))
                  else if 1 < length cands then
                    Some (puts (put_names (puts (puts (puts_color sh1 (cs ''Ambiguous command: '') CON_COLOR_RED) word)
                      (cs '' could mean: '')) cands) newline)
                  else
                    Some (suggest (puts (puts (puts_color sh1 (cs ''Unknown command: '') CON_COLOR_RED) seg) newline) seg))))"

section \<open>The shell's loop\<close>

definition print_prompt :: "shell \<Rightarrow> nat \<Rightarrow> shell" where
  "print_prompt sh user =
    (let st = g_settings sh;
         num = sh_uint_to_str (g_cmd_number sh) 12;
         sh1 = (if show_counter st = 0 then sh
                else if prompt_style st = 1 then puts_color (puts sh num) (cs '' > '') CON_COLOR_WHITE
                else puts_color (puts (puts_color sh (cs ''['') CON_COLOR_WHITE) num) (cs ''] '') CON_COLOR_WHITE);
         role_color = (if is_admin sh user then CON_COLOR_RED else CON_COLOR_GREEN);
         (name_color, at_color, symbol_color, symbol) =
           (if g_active_theme sh = NO_COLOR then (role_color, CON_COLOR_WHITE, role_color, 0)
            else
              (let t = g_themes sh ! unat (g_active_theme sh);
                   nc = (if th_user_color t = NO_COLOR then role_color else th_user_color t)
               in (nc, th_at_color t, if th_symbol_color t = NO_COLOR then nc else th_symbol_color t, th_symbol t)));
         sh2 = puts_color sh1 (username sh user) name_color;
         sh3 = (if prompt_style st \<noteq> 2 then puts_color sh2 (cs ''@innovatios'') at_color else sh2);
         sh4 = puts_color (puts_color sh3 (cs '' '') CON_COLOR_WHITE) (vfs_get_cwd (sh_vfs sh)) CON_COLOR_CYAN
     in if symbol \<noteq> 0 then puts (puts_color sh4 [symbol] symbol_color) (cs '' '')
        else puts_color sh4 (if is_admin sh user then cs ''# '' else cs ''$ '') symbol_color)"

text \<open>What the line means after \<open>!!\<close> has been replaced; \<open>None\<close> when there is nothing to run.\<close>

definition recall :: "shell \<Rightarrow> u8 list \<Rightarrow> shell \<times> u8 list option" where
  "recall sh cmd =
    (if cmd = cs ''!!'' then
       (if history_count sh = 0 then (put_error sh ''No previous command in history.'', None)
        else
          (let l = sh_copy (history_buf sh ! unat ((history_count sh - 1) mod SHELL_HISTORY_SIZE)) CMD_BUF_MAX;
               c = prog_skip_spaces l
           in (puts (puts_color sh c CON_COLOR_WHITE) newline, Some c)))
     else (sh, Some cmd))"

definition run_line :: "nat \<Rightarrow> nat \<Rightarrow> shell \<Rightarrow> u8 list \<Rightarrow> shell option" where
  "run_line fuel user sh line =
    (let cmd = prog_skip_spaces line in
     if cmd = [] then Some sh
     else
       (case recall sh cmd of
         (sh1, None) \<Rightarrow> Some sh1
       | (sh1, Some c) \<Rightarrow>
           (let expanded = sh_expand_vars sh1 user c CMD_BUF_MAX
            in run_segments (process_segment fuel user) 0 (split_semi [] expanded) (history_add sh1 expanded))))"

partial_function (option) shell_loop :: "nat \<Rightarrow> nat \<Rightarrow> shell \<Rightarrow> shell option" where
  "shell_loop fuel user sh =
    do {
      (sh1, line) \<leftarrow> readline (print_prompt sh user) CMD_BUF_MAX;
      sh2 \<leftarrow> run_line fuel user sh1 line;
      if stopped sh2 then Some sh2 else shell_loop fuel user sh2
    }"

definition shell_run :: "nat \<Rightarrow> shell \<Rightarrow> nat \<Rightarrow> shell option" where
  "shell_run fuel sh user =
    (let sh0 = sh\<lparr>g_shell_exit := False, g_cmd_number := 1\<rparr>;
         sh1 = set_vfs sh0 (vfs_set_cwd (sh_vfs sh0) (Some (user_home sh0 user)));
         sh2 = shell_init_themes sh1
     in do {
          sh3 \<leftarrow> shell_load_state sh2 user;
          let sh4 = put_line (print_banner sh3) ''Type 'help' for a list of commands.'';
          shell_loop fuel user (puts (print_motd sh4) newline)
        })"

end
