(* ===== verification/Shell_Props.thy ===== *)
theory Shell_Props
  imports Shell
begin

text \<open>
  Properties of userspace/src/shell.c over the definitions of \<open>Shell\<close>: the history ring, the
  variables, the privilege check, and the expansion of aliases.
\<close>

section \<open>History\<close>

lemma history_add_state:
  assumes "length (history_buf sh) = 16" and "history_count sh = of_nat n" and "n < 2 ^ 32"
  shows "history_buf (history_add sh c) = (history_buf sh)[n mod 16 := sh_copy c CMD_BUF_MAX]"
    and "history_count (history_add sh c) = of_nat (Suc n)"
proof -
  have "unat (history_count sh) = n" using assms by (simp add: unat_of_nat take_bit_nat_eq_self)
  then show "history_buf (history_add sh c) = (history_buf sh)[n mod 16 := sh_copy c CMD_BUF_MAX]"
    by (simp add: history_add_def unat_mod SHELL_HISTORY_SIZE_def)
  show "history_count (history_add sh c) = of_nat (Suc n)" using assms(2) by (simp add: history_add_def)
qed

text \<open>After the commands \<open>cmds\<close> the cell of every command of the last 16 holds it.\<close>

lemma history_fold:
  assumes "length (history_buf sh) = 16" and "history_count sh = 0" and "length cmds < 2 ^ 32"
  shows "length (history_buf (foldl history_add sh cmds)) = 16
    \<and> history_count (foldl history_add sh cmds) = of_nat (length cmds)
    \<and> (\<forall>i < length cmds. length cmds \<le> i + 16 \<longrightarrow>
        history_buf (foldl history_add sh cmds) ! (i mod 16) = sh_copy (cmds ! i) CMD_BUF_MAX)"
  using assms(3)
proof (induction cmds rule: rev_induct)
  case (snoc c cmds)
  let ?s = "foldl history_add sh cmds" and ?n = "length cmds"
  from snoc have s: "length (history_buf ?s) = 16" "history_count ?s = of_nat ?n" "?n < 2 ^ 32"
    and cells: "\<forall>i < ?n. ?n \<le> i + 16 \<longrightarrow> history_buf ?s ! (i mod 16) = sh_copy (cmds ! i) CMD_BUF_MAX" by auto
  note step = history_add_state [OF s, of c]
  have "history_buf (history_add ?s c) ! (i mod 16) = sh_copy ((cmds @ [c]) ! i) CMD_BUF_MAX"
    if "i < Suc ?n" "Suc ?n \<le> i + 16" for i
  proof (cases "i = ?n")
    case True
    then show ?thesis using s(1) by (simp add: step)
  next
    case False
    with that have "i < ?n" "?n < i + 16" by auto
    have "\<not> 16 dvd ?n - i" using \<open>i < ?n\<close> \<open>?n < i + 16\<close> by (intro nat_dvd_not_less) simp_all
    then have "i mod 16 \<noteq> ?n mod 16" using \<open>i < ?n\<close> mod_eq_dvd_iff_nat [of i ?n 16] by auto
    then show ?thesis using cells \<open>i < ?n\<close> that(2) by (simp add: step nth_append)
  qed
  then show ?case using s(1) by (simp add: step)
qed (use assms in auto)

text \<open>The history command sees exactly the last 16 commands, oldest first, under the numbers
  they were given when they were added, however many were added before.\<close>

theorem history_last_16:
  assumes "length (history_buf sh) = 16" and "history_count sh = 0" and "length cmds < 2 ^ 32 - 1"
  shows "history_lines (foldl history_add sh cmds) =
    map (\<lambda>i. (of_nat i + 1, sh_copy (cmds ! i) CMD_BUF_MAX)) [length cmds - 16..<length cmds]"
proof -
  let ?s = "foldl history_add sh cmds" and ?n = "length cmds"
  have n: "?n < 2 ^ 32" using assms(3) by simp
  note h = history_fold [OF assms(1,2) n]
  have cnt: "unat (history_count ?s) = ?n" using h n by (simp add: unat_of_nat take_bit_nat_eq_self)
  have start: "unat (if SHELL_HISTORY_SIZE < history_count ?s then history_count ?s - SHELL_HISTORY_SIZE else 0) = ?n - 16"
  proof (cases "16 < ?n")
    case True
    then have "SHELL_HISTORY_SIZE < history_count ?s" using cnt by (simp add: SHELL_HISTORY_SIZE_def word_less_nat_alt)
    then show ?thesis using cnt by (simp add: SHELL_HISTORY_SIZE_def unat_sub order_less_imp_le)
  next
    case False
    then have "\<not> SHELL_HISTORY_SIZE < history_count ?s" using cnt by (simp add: SHELL_HISTORY_SIZE_def word_less_nat_alt)
    then show ?thesis using False by simp
  qed
  have "unat (of_nat i mod SHELL_HISTORY_SIZE) = i mod 16" if "i < ?n" for i
    using that n by (simp add: SHELL_HISTORY_SIZE_def unat_mod unat_of_nat take_bit_nat_eq_self)
  then show ?thesis unfolding history_lines_def Let_def start cnt using h by auto
qed

definition blank_kv :: kv where
  "blank_kv = \<lparr>kv_name = replicate 16 0, kv_value = replicate 64 0, kv_used = 0\<rparr>"

definition blank_theme :: theme where
  "blank_theme = \<lparr>th_name = replicate 16 0, th_user_color = 0, th_at_color = 0, th_symbol_color = 0,
     th_symbol = 0, th_used = 0, th_builtin = 0\<rparr>"

text \<open>The shell's statics at boot, with a user table that has no disk behind it.\<close>

definition boot_shell :: shell where
  "boot_shell = \<lparr>sh_users = unmounted_users, sh_pmm = pool4, sh_ticks = 0, sh_io = \<lparr>io_in = (\<lambda>_ _. 0), io_clock = 0, io_out = []\<rparr>, g_shell_exit = False,
     g_cmd_number = 1, history_buf = replicate 16 [], history_count = 0,
     g_settings = \<lparr>show_counter = 1, show_suggestions = 1, prompt_style = 0\<rparr>,
     g_aliases = replicate 8 blank_kv, g_vars = replicate 8 blank_kv, g_themes = replicate 12 blank_theme,
     g_active_theme = NO_COLOR, g_themes_ready = False, g_custom_motd = replicate 128 0,
     g_custom_motd_set = 0, g_motd_index = 0, con = [], typed_lines = [], machine_reset = False, stack_junk = (0, 0)\<rparr>"

theorem history_last_16_witness:
  "map fst (history_lines (foldl history_add boot_shell (replicate 18 (cs ''ls'')))) = map of_nat [3..<19]"
proof -
  have "length (history_buf boot_shell) = 16" "history_count boot_shell = 0"
    "length (replicate 18 (cs ''ls'')) < 2 ^ 32 - 1" by (simp_all add: boot_shell_def)
  from history_last_16 [OF this] show ?thesis by (simp add: comp_def upt_rec [of _ 18] upt_rec [of _ 19])
qed

section \<open>Privileges\<close>

text \<open>What a session of \<open>user\<close> without privileges must not change: the accounts but for their passwords, the
  passwords of all others, the counters of the user table, and whether the machine runs.\<close>

definition role_at :: "buf \<Rightarrow> nat \<Rightarrow> bool \<times> u32 \<times> u8 list \<times> bool" where
  "role_at b i = (user_used b i, user_uid b i, user_name b i, user_admin b i)"

definition privileges :: "nat \<Rightarrow> shell \<Rightarrow>
    ((bool \<times> u32 \<times> u8 list \<times> bool) \<times> u64 option) list \<times> u32 \<times> u32 \<times> bool" where
  "privileges user sh =
    (let b = g_users (sh_users sh)
     in (map (\<lambda>i. (role_at b i, if i = user then None else Some (user_hash b i))) [0..<USER_MAX],
         g_user_count (sh_users sh), g_next_uid (sh_users sh), machine_reset sh))"

lemma privileges_admin:
  assumes "privileges w sh' = privileges w sh" and "user < USER_MAX"
  shows "is_admin sh' user = is_admin sh user"
proof -
  have "role_at (g_users (sh_users sh')) user = role_at (g_users (sh_users sh)) user"
    using assms by (simp add: privileges_def Let_def map_eq_conv)
  then show ?thesis by (simp add: role_at_def is_admin_def)
qed

named_theorems keeps

lemma privileges_puts [keeps]:
  "privileges w (puts sh s) = privileges w sh" "privileges w (puts_color sh s c) = privileges w sh"
  "privileges w (put_line sh m) = privileges w sh" "privileges w (put_error sh m) = privileges w sh"
  "privileges w (set_vfs sh v) = privileges w sh"
  by (simp_all add: privileges_def puts_def puts_color_def put_line_def put_error_def set_vfs_def)

lemma privileges_upd [keeps]:
  "privileges w (sh\<lparr>g_shell_exit := a1\<rparr>) = privileges w sh" "privileges w (sh\<lparr>g_cmd_number := a2\<rparr>) = privileges w sh"
  "privileges w (sh\<lparr>history_count := a3\<rparr>) = privileges w sh" "privileges w (sh\<lparr>history_buf := a4\<rparr>) = privileges w sh"
  "privileges w (sh\<lparr>g_settings := a5\<rparr>) = privileges w sh" "privileges w (sh\<lparr>g_aliases := a6\<rparr>) = privileges w sh"
  "privileges w (sh\<lparr>g_vars := a7\<rparr>) = privileges w sh" "privileges w (sh\<lparr>g_themes := a8\<rparr>) = privileges w sh"
  "privileges w (sh\<lparr>g_active_theme := a9\<rparr>) = privileges w sh" "privileges w (sh\<lparr>g_themes_ready := b1\<rparr>) = privileges w sh"
  "privileges w (sh\<lparr>g_custom_motd := b2\<rparr>) = privileges w sh" "privileges w (sh\<lparr>g_custom_motd_set := b3\<rparr>) = privileges w sh"
  "privileges w (sh\<lparr>g_motd_index := b4\<rparr>) = privileges w sh" "privileges w (sh\<lparr>con := b5\<rparr>) = privileges w sh"
  "privileges w (sh\<lparr>typed_lines := b6\<rparr>) = privileges w sh"
  by (simp_all add: privileges_def)

lemma privileges_foldl: "(\<And>s x. privileges w (f s x) = privileges w s) \<Longrightarrow> privileges w (foldl f sh xs) = privileges w sh"
  by (induction xs arbitrary: sh) simp_all

lemma keeps_save: "shell_save_state sh user = Some sh' \<Longrightarrow> privileges w sh' = privileges w sh"
  by (auto simp: shell_save_state_def keeps split: if_splits)

lemma keeps_ok: "ok_saved sh user = Some sh' \<Longrightarrow> privileges w sh' = privileges w sh"
  using keeps_save by (fastforce simp: ok_saved_def keeps)

lemma keeps_register [keeps]: "privileges w (fst (theme_register sh n a b c d e)) = privileges w sh"
  by (auto simp: theme_register_def keeps split: option.splits)

lemma keeps_themes [keeps]: "privileges w (shell_init_themes sh) = privileges w sh"
  unfolding shell_init_themes_def by (auto simp: keeps intro!: trans [OF privileges_foldl])

lemma keeps_motd [keeps]: "privileges w (print_motd sh) = privileges w sh" "privileges w (print_banner sh) = privileges w sh"
  by (simp_all add: print_motd_def print_banner_def Let_def keeps)

lemma keeps_lines [keeps]:
  "privileges w (show_line sh l) = privileges w sh" "privileges w (kv_line sep sh kv) = privileges w sh"
  "privileges w (theme_list_line sh t) = privileges w sh" "privileges w (ls_entry sh d) = privileges w sh"
  "privileges w (help_line user sh c) = privileges w sh" "privileges w (user_line sh i) = privileges w sh"
  "privileges w (show_settings sh) = privileges w sh" "privileges w (theme_status sh) = privileges w sh"
  by (simp_all add: show_line_def kv_line_def theme_list_line_def ls_entry_def help_line_def user_line_def
      show_settings_def theme_status_def Let_def keeps split: option.splits)

lemma keeps_foldl [keeps]:
  "privileges w (foldl show_line sh ls) = privileges w sh" "privileges w (foldl (kv_line sep) sh kvs) = privileges w sh"
  "privileges w (foldl theme_list_line sh ts) = privileges w sh" "privileges w (foldl (help_line user) sh cmds) = privileges w sh"
  "privileges w (foldl user_line sh js) = privileges w sh"
  by (simp_all add: privileges_foldl keeps)

lemma keeps_names [keeps]: "privileges w (put_names sh cmds) = privileges w sh"
  by (induction sh cmds rule: put_names.induct) (simp_all add: keeps)

lemma keeps_suggest [keeps]: "privileges w (suggest sh seg) = privileges w sh"
  by (simp add: suggest_def keeps split: prod.splits option.splits)

lemma keeps_text_commands:
  "cmd_clear sh user args = Some sh' \<Longrightarrow> privileges w sh' = privileges w sh"
  "cmd_logout sh user args = Some sh' \<Longrightarrow> privileges w sh' = privileges w sh"
  "cmd_version sh user args = Some sh' \<Longrightarrow> privileges w sh' = privileges w sh"
  "cmd_banner sh user args = Some sh' \<Longrightarrow> privileges w sh' = privileges w sh"
  "cmd_colors sh user args = Some sh' \<Longrightarrow> privileges w sh' = privileges w sh"
  "cmd_history sh user args = Some sh' \<Longrightarrow> privileges w sh' = privileges w sh"
  "cmd_calc sh user args = Some sh' \<Longrightarrow> privileges w sh' = privileges w sh"
  "cmd_env sh user args = Some sh' \<Longrightarrow> privileges w sh' = privileges w sh"
  "cmd_pwd sh user args = Some sh' \<Longrightarrow> privileges w sh' = privileges w sh"
  "cmd_help sh user args = Some sh' \<Longrightarrow> privileges w sh' = privileges w sh"
  "cmd_cd sh user args = Some sh' \<Longrightarrow> privileges w sh' = privileges w sh"
  by (auto simp: cmd_clear_def cmd_logout_def cmd_version_def cmd_banner_def cmd_colors_def cmd_history_def
      cmd_calc_def cmd_env_def cmd_pwd_def cmd_help_def cmd_cd_def Let_def keeps
      split: if_splits prod.splits option.splits)

lemma keeps_programs:
  "prog_whoami sh user args = Some sh' \<Longrightarrow> privileges w sh' = privileges w sh"
  "prog_users sh user args = Some sh' \<Longrightarrow> privileges w sh' = privileges w sh"
  "prog_uname sh user args = Some sh' \<Longrightarrow> privileges w sh' = privileges w sh"
  "prog_uptime sh user args = Some sh' \<Longrightarrow> privileges w sh' = privileges w sh"
  "prog_meminfo sh user args = Some sh' \<Longrightarrow> privileges w sh' = privileges w sh"
  by (auto simp: prog_whoami_def prog_users_def prog_uname_def prog_uptime_def prog_meminfo_def Let_def keeps
      split: if_splits)

lemma keeps_sysinfo: "cmd_sysinfo sh user args = Some sh' \<Longrightarrow> privileges w sh' = privileges w sh"
  by (auto simp: cmd_sysinfo_def keeps dest!: keeps_programs [where w = w] split: bind_splits)

lemma keeps_settings_commands:
  "cmd_set sh user args = Some sh' \<Longrightarrow> privileges w sh' = privileges w sh"
  "cmd_export sh user args = Some sh' \<Longrightarrow> privileges w sh' = privileges w sh"
  "cmd_unset sh user args = Some sh' \<Longrightarrow> privileges w sh' = privileges w sh"
  "cmd_alias sh user args = Some sh' \<Longrightarrow> privileges w sh' = privileges w sh"
  "cmd_unalias sh user args = Some sh' \<Longrightarrow> privileges w sh' = privileges w sh"
  "cmd_motd sh user args = Some sh' \<Longrightarrow> privileges w sh' = privileges w sh"
  by (auto simp: cmd_set_def cmd_export_def cmd_unset_def cmd_alias_def cmd_unalias_def cmd_motd_def Let_def keeps
      dest!: keeps_ok split: if_splits prod.splits option.splits)

lemma keeps_theme_save: "theme_save sh user rest = Some sh' \<Longrightarrow> privileges w sh' = privileges w sh"
proof -
  have "privileges w s = privileges w sh" if "theme_register sh n a b c d e = (s, r)" for s n a b c d e r
    using keeps_register [of w sh n a b c d e] that by simp
  then show "theme_save sh user rest = Some sh' \<Longrightarrow> privileges w sh' = privileges w sh"
    by (auto simp: theme_save_def Let_def keeps dest!: keeps_ok [where w = w] split: if_splits prod.splits)
qed

lemma keeps_theme: "cmd_theme sh user args = Some sh' \<Longrightarrow> privileges w sh' = privileges w sh"
  by (auto simp: cmd_theme_def Let_def keeps dest!: keeps_ok [where w = w] keeps_theme_save [where w = w]
      split: if_splits prod.splits option.splits)

lemma keeps_ls_loop: "ls_loop dir index sh = Some sh' \<Longrightarrow> privileges w sh' = privileges w sh"
proof -
  assume a: "ls_loop dir index sh = Some sh'"
  show ?thesis
  proof (rule ls_loop.raw_induct [where P = "\<lambda>dir index sh sh'. privileges w sh' = privileges w sh", OF _ a])
  qed (auto simp: keeps split: option.splits)
qed

lemma keeps_cat_loop: "cat_loop fd sh = Some sh' \<Longrightarrow> privileges w sh' = privileges w sh"
proof -
  assume a: "cat_loop fd sh = Some sh'"
  show ?thesis
  proof (rule cat_loop.raw_induct [where P = "\<lambda>fd sh sh'. privileges w sh' = privileges w sh", OF _ a])
  qed (auto simp: keeps split: prod.splits if_splits)
qed

lemma keeps_file_commands:
  "cmd_ls sh user args = Some sh' \<Longrightarrow> privileges w sh' = privileges w sh"
  "cmd_cat sh user args = Some sh' \<Longrightarrow> privileges w sh' = privileges w sh"
  "cmd_touch sh user args = Some sh' \<Longrightarrow> privileges w sh' = privileges w sh"
  "cmd_rm sh user args = Some sh' \<Longrightarrow> privileges w sh' = privileges w sh"
  "cmd_echo sh user args = Some sh' \<Longrightarrow> privileges w sh' = privileges w sh"
  "cmd_mkdir sh user args = Some sh' \<Longrightarrow> privileges w sh' = privileges w sh"
  by (auto simp: cmd_ls_def cmd_cat_def cmd_touch_def cmd_rm_def cmd_echo_def cmd_mkdir_def Let_def keeps
      dest!: keeps_ls_loop keeps_cat_loop split: if_splits prod.splits bind_splits)

lemma keeps_passwd: "cmd_passwd sh user args = Some sh' \<Longrightarrow> privileges user sh' = privileges user sh"
proof -
  have "role_at (set_hash b user h) i = role_at b i" for b h i
    using set_hash_fields [of b user h] other_slot(3,4) [of i user b h]
    by (cases "i = user") (simp_all add: role_at_def account_at_def)
  moreover have "user_hash (set_hash b user h) i = user_hash b i" if "i \<noteq> user" for b h i
    using arg_cong [OF other_slot(4) [OF that, of b h], of a_hash] by (simp add: account_at_def)
  ultimately show "cmd_passwd sh user args = Some sh' \<Longrightarrow> privileges user sh' = privileges user sh"
    by (auto simp: cmd_passwd_def Let_def keeps user_change_password_def split: if_splits dest!: user_save_table)
      (simp add: privileges_def Let_def)
qed

text \<open>Every handler but those that the table marks as for administrators.\<close>

text \<open>What every run of a segment keeps, the loops over segments keep.\<close>

lemma repeat_loop_keeps:
  assumes "\<And>s seg d s'. Q s \<Longrightarrow> rec s seg d = Some s' \<Longrightarrow> Q s'"
  shows "repeat_loop rec n rest sh = Some sh' \<Longrightarrow> Q sh \<Longrightarrow> Q sh'"
  by (induction n arbitrary: sh) (auto split: bind_splits if_splits dest: assms)

lemma run_segments_keeps:
  assumes "\<And>s seg d s'. Q s \<Longrightarrow> rec s seg d = Some s' \<Longrightarrow> Q s'"
  shows "run_segments rec depth segs sh = Some sh' \<Longrightarrow> Q sh \<Longrightarrow> Q sh'"
  by (induction segs arbitrary: sh) (auto simp: Let_def split: bind_splits if_splits dest: assms)

lemma keeps_repeat:
  assumes "\<And>s seg d s'. privileges user s = p \<Longrightarrow> rec s seg d = Some s' \<Longrightarrow> privileges user s' = p"
    and "cmd_repeat rec sh user args = Some sh'" and "privileges user sh = p"
  shows "privileges user sh' = p"
proof -
  have "repeat_loop rec n rest sh = Some sh' \<Longrightarrow> privileges user sh' = p" for n rest
    by (rule repeat_loop_keeps [where Q = "\<lambda>s. privileges user s = p" and rec = rec]) (use assms in auto)
  then show ?thesis using assms(2,3)
    by (auto simp: cmd_repeat_def Let_def keeps split: if_splits prod.splits)
qed

lemma keeps_handler:
  assumes "\<And>s seg d s'. privileges user s = privileges user sh \<Longrightarrow> rec s seg d = Some s' \<Longrightarrow> privileges user s' = privileges user sh"
    and "run_handler rec h sh user args = Some sh'"
    and "h \<notin> {H_promote, H_downgrade, H_adduser, H_reboot, H_mkfs}"
  shows "privileges user sh' = privileges user sh"
proof -
  have "cmd_repeat rec sh user args = Some sh' \<Longrightarrow> privileges user sh' = privileges user sh"
    using keeps_repeat [OF assms(1) _ refl] .
  note keeps_all = this keeps_text_commands keeps_programs keeps_sysinfo
    keeps_settings_commands keeps_theme keeps_file_commands keeps_passwd
  show ?thesis using assms(2,3)
    by (cases h) (simp_all only: run_handler_def shell_handler.case insert_iff simp_thms, auto elim: keeps_all)
qed

lemma table_admin_only:
  "list_all (\<lambda>c. c_handler c \<in> {H_promote, H_downgrade, H_adduser, H_reboot, H_mkfs} \<longrightarrow> c_admin_only c) commands"
  by code_simp

lemma match_command_table: "match_command seg cmds = Some (c, args) \<Longrightarrow> c \<in> set cmds"
  by (induction seg cmds rule: match_command.induct) (auto split: option.splits)

lemma candidates_table: "c \<in> set (candidates word) \<Longrightarrow> c \<in> set commands"
  by (auto simp: candidates_def split: if_splits)

lemma keeps_run_command:
  assumes "\<not> is_admin sh user" and "c \<in> set commands" and "run_command rec sh user c args = Some sh'"
    and "\<And>s seg d s'. privileges user s = privileges user sh \<Longrightarrow> rec s seg d = Some s' \<Longrightarrow> privileges user s' = privileges user sh"
  shows "privileges user sh' = privileges user sh"
proof (cases "c_admin_only c")
  case True
  then show ?thesis using assms(1,3) by (auto simp: run_command_def keeps)
next
  case False
  then have h: "c_handler c \<notin> {H_promote, H_downgrade, H_adduser, H_reboot, H_mkfs}"
    by (rule contrapos_nn) (rule mp [OF bspec [OF table_admin_only [unfolded list_all_iff] assms(2)]])
  have r: "run_handler rec (c_handler c) sh user args = Some sh'"
    using False assms(3) by (simp only: run_command_def simp_thms if_False)
  show ?thesis by (rule keeps_handler [OF assms(4) r h])
qed

lemma unprivileged_keeps:
  assumes "\<not> is_admin sh user" and "user < USER_MAX"
    and "process_segment fuel user sh seg depth = Some sh'"
  shows "privileges user sh' = privileges user sh"
proof -
  have "privileges user s' = p" if "privileges user s = p" "\<not> is_admin s user" "process_segment fuel user s seg d = Some s'"
    for p s seg d s'
    using that
  proof (induction fuel arbitrary: s seg d s')
    case (Suc fuel)
    have ih: "privileges user t' = p" if "privileges user t = p" "process_segment fuel user t sg e = Some t'" for t sg e t'
      using Suc.IH that Suc.prems(1,2) privileges_admin [OF _ assms(2)] by metis
    let ?s = "s\<lparr>g_cmd_number := g_cmd_number s + 1\<rparr>" and ?seg = "expand_alias s seg"
    have p: "privileges user ?s = p" and na: "\<not> is_admin ?s user"
      using Suc.prems(1,2) by (simp_all add: keeps is_admin_def)
    have run: "privileges user s' = p"
      if "c \<in> set commands" "run_command (process_segment fuel user) ?s user c args = Some s'" for c args
      using keeps_run_command [OF na that] ih p by simp
    note seg = Suc.prems(3) [unfolded process_segment.simps Let_def]
    show ?case
    proof (cases "ALIAS_MAX_DEPTH < d")
      case True
      then show ?thesis using seg Suc.prems(1) by (simp only: if_True option.inject) (auto simp only: keeps)
    next
      case depth: False
      show ?thesis
      proof (cases "SEMI \<in> set ?seg")
        case True
        with seg depth have "run_segments (process_segment fuel user) (d + 1) (split_semi [] ?seg) s = Some s'"
          by (simp only: if_True if_False)
        from run_segments_keeps [where Q = "\<lambda>t. privileges user t = p", OF ih this Suc.prems(1)] show ?thesis .
      next
        case False
        note seg = seg [unfolded if_not_P [OF depth] if_not_P [OF False]]
        show ?thesis
        proof (cases "match_command ?seg commands")
          case (Some ca)
          with seg have "run_command (process_segment fuel user) ?s user (fst ca) (snd ca) = Some s'"
            by (simp only: option.case split_def)
          with run Some show ?thesis using match_command_table [of ?seg commands "fst ca" "snd ca"] by simp
        next
          case None
          let ?w = "sh_first_word ?seg 16"
          note seg = seg [unfolded None option.case]
          show ?thesis
          proof (cases "length (candidates ?w) = 1")
            case True
            then have "hd (candidates ?w) \<in> set commands"
              by (intro candidates_table [of _ ?w]) (cases "candidates ?w", auto)
            from run [OF this seg [unfolded if_P [OF True]]] show ?thesis .
          next
            case False
            with seg p show ?thesis by (auto simp del: cs_simps simp: keeps split: if_splits)
          qed
        qed
      qed
    qed
  qed simp
  from this [OF refl assms(1,3)] show ?thesis .
qed


lemma kv_find_blank: "kv_find (replicate n blank_kv) name i = None"
  by (induction n arbitrary: i) (simp_all add: blank_kv_def)

lemma boot_not_admin: "\<not> is_admin boot_shell user"
  by (simp add: is_admin_def boot_shell_def user_admin_def unmounted_users_def)

lemma match_reboot: "match_command (cs ''reboot'') commands = Some ((''reboot'', H_reboot, ''Reboot the system (asks to confirm)'', True), [])"
  by code_simp


section \<open>Variables\<close>

text \<open>A table of variables or aliases as a function of names.\<close>

definition kv_get :: "kv list \<Rightarrow> u8 list \<Rightarrow> u8 list option" where
  "kv_get kvs name = map_option (\<lambda>i. kv_str_value (kvs ! i)) (kv_find kvs name 0)"

definition storable :: "nat \<Rightarrow> u8 list \<Rightarrow> bool" where
  "storable n s \<longleftrightarrow> 0 \<notin> set s \<and> length s < n"

lemma take_storable: "storable n s \<Longrightarrow> take (n - 1) s = s"
  by (rule take_all) (auto simp: storable_def)

lemma cstring_copy_into: "storable n s \<Longrightarrow> cstring (copy_into arr s n) = s"
  unfolding copy_into_def Let_def sh_copy_take by (simp only: take_storable) (simp add: storable_def cstring_append_nul)

lemma kv_find_Suc: "kv_find kvs name (Suc k) = map_option Suc (kv_find kvs name k)"
  by (induction kvs arbitrary: k) auto

lemma kv_free_Suc: "kv_free kvs (Suc k) = map_option Suc (kv_free kvs k)"
  by (induction kvs arbitrary: k) auto

lemma kv_get_simps [simp]:
  "kv_get [] name = None"
  "kv_get (kv # kvs) name =
    (if kv_used kv \<noteq> 0 \<and> kv_str_name kv = name then Some (kv_str_value kv) else kv_get kvs name)"
  using kv_find_Suc [of kvs name 0] by (simp_all add: kv_get_def option.map_comp comp_def)

lemma kv_get_changed:
  assumes "storable VALUE_MAX val"
  shows "kv_find kvs name 0 = Some i \<Longrightarrow>
    kv_get (kvs[i := (kvs ! i)\<lparr>kv_value := copy_into (kv_value (kvs ! i)) val VALUE_MAX\<rparr>]) n
      = (if n = name then Some val else kv_get kvs n)"
proof (induction kvs arbitrary: i)
  case (Cons kv kvs)
  show ?case
  proof (cases "kv_used kv \<noteq> 0 \<and> kv_str_name kv = name")
    case True
    then show ?thesis using Cons.prems cstring_copy_into [OF assms] by (auto simp: kv_str_name_def kv_str_value_def)
  next
    case False
    then obtain j where "kv_find kvs name 0 = Some j" "i = Suc j"
      using Cons.prems kv_find_Suc [of kvs name 0] by auto
    then show ?thesis using Cons.IH False by (auto simp: kv_str_name_def)
  qed
qed simp

lemma kv_get_fresh:
  assumes "storable VALUE_MAX val" and "storable NAME_MAX name"
  shows "kv_find kvs name 0 = None \<Longrightarrow> kv_free kvs 0 = Some i \<Longrightarrow>
    kv_get (kvs[i := \<lparr>kv_name = copy_into (kv_name (kvs ! i)) name NAME_MAX,
              kv_value = copy_into (kv_value (kvs ! i)) val VALUE_MAX, kv_used = 1\<rparr>]) n
      = (if n = name then Some val else kv_get kvs n)"
proof (induction kvs arbitrary: i)
  case (Cons kv kvs)
  show ?case
  proof (cases "kv_used kv = 0")
    case True
    then show ?thesis
      using Cons.prems cstring_copy_into [OF assms(1)] cstring_copy_into [OF assms(2)] kv_find_Suc [of kvs name 0]
      by (auto simp: kv_str_name_def kv_str_value_def)
  next
    case False
    then obtain j where "kv_free kvs 0 = Some j" "i = Suc j"
      using Cons.prems kv_free_Suc [of kvs 0] by auto
    then show ?thesis using Cons False kv_find_Suc [of kvs name 0] by (auto split: if_splits)
  qed
qed simp

lemma kv_get_put:
  assumes "storable VALUE_MAX val" and "storable NAME_MAX name" and "kv_put kvs name val = Some kvs'"
  shows "kv_get kvs' n = (if n = name then Some val else kv_get kvs n)"
  using assms(3) kv_get_changed [OF assms(1)] kv_get_fresh [OF assms(1,2)]
  by (auto simp: kv_put_def split: option.splits)

lemma kv_put_room: "list_ex (\<lambda>kv. kv_used kv = 0 \<or> kv_str_name kv = name) kvs \<Longrightarrow> kv_put kvs name val \<noteq> None"
proof -
  have "kv_find kvs name k \<noteq> None \<or> kv_free kvs k \<noteq> None"
    if "list_ex (\<lambda>kv. kv_used kv = 0 \<or> kv_str_name kv = name) kvs" for k
    using that by (induction kvs arbitrary: k) auto
  then show "list_ex (\<lambda>kv. kv_used kv = 0 \<or> kv_str_name kv = name) kvs \<Longrightarrow> kv_put kvs name val \<noteq> None"
    by (fastforce simp: kv_put_def split: option.splits)
qed

lemma expand_plain:
  "DOLLAR \<notin> set xs \<Longrightarrow> length out + length xs < mx \<Longrightarrow>
    expand_loop sh user mx (xs @ inp) out = expand_loop sh user mx inp (out @ xs)"
  by (induction xs arbitrary: out) (auto simp: expand_loop.simps [of sh user mx "_ # _"])

lemma save_keeps_variables:
  "shell_save_state sh user = Some sh' \<Longrightarrow> g_vars sh' = g_vars sh"
  by (auto simp: shell_save_state_def set_vfs_def split: if_splits)

lemma name_eq_name: "name_eq (name @ post) (length name) lit \<longleftrightarrow> name = lit"
  by (auto simp: name_eq_def starts_take)

definition var_name :: "u8 list \<Rightarrow> bool" where
  "var_name name \<longleftrightarrow> name \<noteq> [] \<and> is_name_start (hd name) \<and> list_all is_name_char name \<and> length name < NAME_MAX
     \<and> name \<notin> {cs ''USER'', cs ''ADMIN'', cs ''CMDNUM''}"

lemma var_name_storable:
  assumes "var_name name"
  shows "storable NAME_MAX name" and "EQUALS \<notin> set name" and "DOLLAR \<notin> set name"
  using assms by (auto simp: var_name_def storable_def list_all_iff is_name_char_def is_name_start_def EQUALS_def DOLLAR_def)

lemma takeWhile_name:
  "list_all P name \<Longrightarrow> post = [] \<or> \<not> P (hd post) \<Longrightarrow> takeWhile P (name @ post) = name"
  by (cases post) (auto simp: list_all_iff)

lemma var_lookup_get:
  assumes "var_name name"
  shows "var_lookup sh user (name @ post) (length name) = kv_get (g_vars sh) name"
  using assms by (simp add: var_lookup_def name_eq_name var_name_def kv_get_def del: cs_simps)

lemma split_kv_name:
  assumes "var_name name" and "storable VALUE_MAX val"
  shows "split_kv (name @ EQUALS # val) NAME_MAX VALUE_MAX = Some (name, val)"
proof -
  have "takeWhile (\<lambda>c. c \<noteq> EQUALS) (name @ EQUALS # val) = name"
    using var_name_storable(2) [OF assms(1)] by (subst takeWhile_append2) auto
  moreover have "take (NAME_MAX - 1) name = name" "take (VALUE_MAX - 1) val = val"
    using take_storable [OF var_name_storable(1) [OF assms(1)]] take_storable [OF assms(2)] .
  moreover have all: "takeWhile (\<lambda>_. True) val = val" by (simp add: takeWhile_eq_all_conv)
  ultimately show ?thesis unfolding split_kv_def copy_while_spec by (simp del: takeWhile_eq_filter One_nat_def add: all)
qed

text \<open>C34. After \<open>export NAME=value\<close> a command line that mentions \<open>$NAME\<close> is expanded to the line
  with the value in its place, and the other variables are what they were.\<close>

theorem export_expand:
  assumes "var_name name" and "storable VALUE_MAX val"
    and "list_ex (\<lambda>kv. kv_used kv = 0 \<or> kv_str_name kv = name) (g_vars sh)"
    and "cmd_export sh user (name @ EQUALS # val) = Some sh'"
    and "DOLLAR \<notin> set pre" and "DOLLAR \<notin> set post" and "post = [] \<or> \<not> is_name_char (hd post)"
    and "length (pre @ val @ post) < mx"
  shows "sh_expand_vars sh' user (pre @ DOLLAR # name @ post) mx = pre @ val @ post
    \<and> (\<forall>n. n \<noteq> name \<longrightarrow> kv_get (g_vars sh') n = kv_get (g_vars sh) n)"
proof -
  obtain kvs where kvs: "kv_put (g_vars sh) name val = Some kvs" using kv_put_room [OF assms(3)] by blast
  have "name \<noteq> []" using assms(1) by (simp add: var_name_def)
  then have "ok_saved (sh\<lparr>g_vars := kvs\<rparr>) user = Some sh'"
    using assms(4) by (simp add: cmd_export_def split_kv_name [OF assms(1,2)] kvs)
  then have vars: "g_vars sh' = kvs"
    using save_keeps_variables by (fastforce simp: ok_saved_def put_line_def puts_def)
  note get = kv_get_put [OF assms(2) var_name_storable(1) [OF assms(1)] kvs]
  let ?inp = "DOLLAR # name @ post"
  have len: "length (takeWhile is_name_char (name @ post)) = length name"
    using assms(1,7) by (simp add: takeWhile_name var_name_def)
  have start: "hd (name @ post) = hd name" "name @ post \<noteq> []" "is_name_start (hd name)"
    using assms(1) by (simp_all add: var_name_def)
  have "sh_expand_vars sh' user (pre @ ?inp) mx = expand_loop sh' user mx ?inp pre"
    using assms(5,8) by (simp add: sh_expand_vars_def expand_plain)
  also have "\<dots> = pre @ val @ post"
  proof (cases "length pre + 1 < mx")
    case True
    then have "expand_loop sh' user mx ?inp pre = expand_loop sh' user mx (post @ []) (pre @ val)"
      using start assms(8) by (subst expand_loop.simps)
        (simp add: Let_def len var_lookup_get [OF assms(1)] vars get take_all)
    also have "\<dots> = pre @ val @ post"
      using assms(6,8) by (subst expand_plain) (simp_all add: expand_loop.simps)
    finally show ?thesis .
  next
    case False
    then have "length val = 0" "length post = 0" using assms(8) by (simp_all only: length_append)
    with False show ?thesis by (simp add: expand_loop.simps)
  qed
  finally show ?thesis using get vars by simp
qed

theorem export_expand_witness:
  "\<exists>sh'. cmd_export boot_shell 0 (cs ''dir=/home/bob'') = Some sh'
    \<and> sh_expand_vars sh' 0 (cs ''ls $dir/x'') CMD_BUF_MAX = cs ''ls /home/bob/x''"
proof -
  have name: "var_name (cs ''dir'')" and val: "storable VALUE_MAX (cs ''/home/bob'')"
    and args: "cs ''dir=/home/bob'' = cs ''dir'' @ EQUALS # cs ''/home/bob''"
    and inp: "cs ''ls $dir/x'' = cs ''ls '' @ DOLLAR # cs ''dir'' @ cs ''/x''"
    and res: "cs ''ls /home/bob/x'' = cs ''ls '' @ cs ''/home/bob'' @ cs ''/x''" by code_simp+
  have room: "list_ex (\<lambda>kv. kv_used kv = 0 \<or> kv_str_name kv = cs ''dir'') (g_vars boot_shell)"
    by (simp add: boot_shell_def list_ex_iff blank_kv_def)
  obtain kvs where kvs: "kv_put (g_vars boot_shell) (cs ''dir'') (cs ''/home/bob'') = Some kvs"
    using kv_put_room [OF room] by blast
  have "\<not> g_innofs_mounted (v_fs (sh_vfs (put_line (boot_shell\<lparr>g_vars := kvs\<rparr>) ''OK.'')))"
    using unmounted_mounted by (simp add: put_line_def puts_def sh_vfs_def boot_shell_def)
  then obtain sh' where run: "cmd_export boot_shell 0 (cs ''dir'' @ EQUALS # cs ''/home/bob'') = Some sh'"
    by (simp add: cmd_export_def split_kv_name [OF name val] kvs ok_saved_def shell_save_state_def vfs_unmounted
        name [unfolded var_name_def] del: cs_simps)
  have side: "DOLLAR \<notin> set (cs ''ls '')" "DOLLAR \<notin> set (cs ''/x'')" "cs ''/x'' = [] \<or> \<not> is_name_char (hd (cs ''/x''))"
    "length (cs ''ls '' @ cs ''/home/bob'' @ cs ''/x'') < CMD_BUF_MAX" by code_simp+
  from export_expand [OF name val room run side] run show ?thesis unfolding args inp res by blast
qed

section \<open>Aliases\<close>

lemma alias_kv_find: "kv_get kvs n = Some v \<Longrightarrow> \<exists>i. kv_find kvs n 0 = Some i \<and> kv_str_value (kvs ! i) = v"
  by (auto simp: kv_get_def)

definition repeat_entry :: "string \<times> shell_handler \<times> string \<times> bool" where
  "repeat_entry = (''repeat'', H_repeat, ''Run a command several times'', False)"

lemma repeat_x:
  "sh_first_word (cs ''x'') NAME_MAX = cs ''x''"
  "prog_skip_spaces (drop (sh_strlen (cs ''x'')) (cs ''x'')) = []"
  "take (CMD_BUF_MAX - 1) (cs ''repeat 1 x'') = cs ''repeat 1 x''"
  "SEMI \<notin> set (cs ''repeat 1 x'')"
  "match_command (cs ''repeat 1 x'') commands = Some (repeat_entry, cs ''1 x'')"
  "copy_while (\<lambda>c. c \<noteq> SPACE) (NAME_MAX - 1) (prog_skip_spaces (cs ''1 x'')) = (cs ''1'', cs '' x'')"
  "prog_skip_spaces (cs '' x'') = cs ''x''"
  "cs ''1'' \<noteq> []" "cs ''x'' \<noteq> []" "sint (sh_atoi (cs ''1'')) = 1"
  by code_simp+

text \<open>C35. The bound on the depth of aliases does not see through \<open>repeat\<close>: with the alias
  \<open>x=repeat 1 x\<close> the command \<open>x\<close> never returns, at any allowed depth.\<close>

theorem alias_repeat_diverges:
  assumes "kv_get (g_aliases sh) (cs ''x'') = Some (cs ''repeat 1 x'')" and "depth \<le> ALIAS_MAX_DEPTH"
  shows "process_segment fuel user sh (cs ''x'') depth = None"
  using assms
proof (induction fuel arbitrary: sh depth)
  case (Suc fuel)
  obtain i where i: "kv_find (g_aliases sh) (cs ''x'') 0 = Some i"
    "kv_str_value (g_aliases sh ! i) = cs ''repeat 1 x''" using alias_kv_find [OF Suc.prems(1)] by blast
  have e: "expand_alias sh (cs ''x'') = cs ''repeat 1 x''"
    unfolding expand_alias_def Let_def repeat_x(1) i option.case repeat_x(2)
    by (simp only: simp_thms if_True append_Nil2 repeat_x(3))
  let ?sh = "sh\<lparr>g_cmd_number := g_cmd_number sh + 1\<rparr>"
  have ih: "process_segment fuel user ?sh (cs ''x'') 1 = None"
    by (rule Suc.IH) (use Suc.prems(1) in \<open>simp_all add: ALIAS_MAX_DEPTH_def del: cs_simps\<close>)
  have "cmd_repeat (process_segment fuel user) ?sh user (cs ''1 x'') = None"
    unfolding cmd_repeat_def Let_def repeat_x(6) prod.case repeat_x(7)
    by (simp add: repeat_x(8-10) ih [unfolded One_nat_def] del: cs_simps)
  then have "run_command (process_segment fuel user) ?sh user repeat_entry (cs ''1 x'') = None"
    by (simp add: run_command_def repeat_entry_def c_admin_only_def c_handler_def run_handler_def del: cs_simps)
  then show ?case using Suc.prems(2)
    by (simp add: e repeat_x(4,5) Let_def del: cs_simps)
qed simp

theorem alias_repeat_diverges_witness:
  "process_segment 1000 0 (boot_shell\<lparr>g_aliases := the (kv_put (replicate 8 blank_kv) (cs ''x'') (cs ''repeat 1 x''))\<rparr>)
    (cs ''x'') 0 = None"
proof (rule alias_repeat_diverges)
  have room: "list_ex (\<lambda>kv. kv_used kv = 0 \<or> kv_str_name kv = cs ''x'') (replicate 8 blank_kv)"
    by (simp add: list_ex_iff blank_kv_def)
  have "storable VALUE_MAX (cs ''repeat 1 x'')" "storable NAME_MAX (cs ''x'')" by code_simp+
  from kv_get_put [OF this, of "replicate 8 blank_kv"] kv_put_room [OF room]
  show "kv_get (g_aliases (boot_shell\<lparr>g_aliases :=
      the (kv_put (replicate 8 blank_kv) (cs ''x'') (cs ''repeat 1 x''))\<rparr>)) (cs ''x'') = Some (cs ''repeat 1 x'')"
    by (auto simp del: cs_simps)
qed simp

end
