(* ===== verification/Ata.thy ===== *)
theory Ata
  imports Innofs "HOL-Library.Monad_Syntax"
begin

text \<open>
  drivers/ata.c: sectors read and written by programmed input and output on the primary channel.
  The machine behind the ports is a parameter: a record of the four port operations on an
  arbitrary state. What the driver relies on, the protocol of an ATA drive in LBA mode, is the
  predicate \<open>ata_drive\<close> over a view of that state; how long the drive stays busy after a command
  and between two sectors is left open, below the 100000 polls for which the driver waits.
\<close>

section \<open>Model\<close>

record 'd bus =
  b_inb :: "'d \<Rightarrow> u16 \<Rightarrow> 'd \<times> u8"
  b_outb :: "'d \<Rightarrow> u16 \<Rightarrow> u8 \<Rightarrow> 'd"
  b_inw :: "'d \<Rightarrow> u16 \<Rightarrow> 'd \<times> u16"
  b_outw :: "'d \<Rightarrow> u16 \<Rightarrow> u16 \<Rightarrow> 'd"

definition ATA_PRIMARY_IO :: u16 where "ATA_PRIMARY_IO = 0x1F0"
definition ATA_REG_DATA :: u16 where "ATA_REG_DATA = 0"
definition ATA_REG_FEATURES :: u16 where "ATA_REG_FEATURES = 1"
definition ATA_REG_SECCOUNT0 :: u16 where "ATA_REG_SECCOUNT0 = 2"
definition ATA_REG_LBA0 :: u16 where "ATA_REG_LBA0 = 3"
definition ATA_REG_LBA1 :: u16 where "ATA_REG_LBA1 = 4"
definition ATA_REG_LBA2 :: u16 where "ATA_REG_LBA2 = 5"
definition ATA_REG_HDDEVSEL :: u16 where "ATA_REG_HDDEVSEL = 6"
definition ATA_REG_COMMAND :: u16 where "ATA_REG_COMMAND = 7"
definition ATA_REG_STATUS :: u16 where "ATA_REG_STATUS = 7"
definition ATA_CMD_READ_PIO :: u8 where "ATA_CMD_READ_PIO = 0x20"
definition ATA_CMD_WRITE_PIO :: u8 where "ATA_CMD_WRITE_PIO = 0x30"
definition ATA_CMD_CACHE_FLUSH :: u8 where "ATA_CMD_CACHE_FLUSH = 0xE7"
definition ATA_SR_BSY :: u8 where "ATA_SR_BSY = 0x80"
definition ATA_SR_DRQ :: u8 where "ATA_SR_DRQ = 0x08"
definition ATA_SR_ERR :: u8 where "ATA_SR_ERR = 0x01"

lemmas ata_ports = ATA_PRIMARY_IO_def ATA_REG_DATA_def ATA_REG_FEATURES_def ATA_REG_SECCOUNT0_def ATA_REG_LBA0_def
  ATA_REG_LBA1_def ATA_REG_LBA2_def ATA_REG_HDDEVSEL_def ATA_REG_COMMAND_def ATA_REG_STATUS_def

definition ata_io_wait :: "'d bus \<Rightarrow> 'd \<Rightarrow> 'd" where
  "ata_io_wait bus d = b_outb bus d 0x80 0"

text \<open>\<open>rep insw\<close> stores each word with its low byte first.\<close>

fun insw :: "'d bus \<Rightarrow> u16 \<Rightarrow> nat \<Rightarrow> 'd \<Rightarrow> 'd \<times> u8 list" where
  "insw bus port 0 d = (d, [])"
| "insw bus port (Suc n) d =
    (case b_inw bus d port of (d1, w) \<Rightarrow> (case insw bus port n d1 of (d2, bytes) \<Rightarrow> (d2, bytes_u16 w @ bytes)))"

fun outsw :: "'d bus \<Rightarrow> u16 \<Rightarrow> nat \<Rightarrow> buf \<Rightarrow> nat \<Rightarrow> 'd \<Rightarrow> 'd" where
  "outsw bus port 0 b off d = d"
| "outsw bus port (Suc n) b off d = outsw bus port n b (off + 2) (b_outw bus d port (get_u16 b off))"

fun bsy_loop :: "'d bus \<Rightarrow> nat \<Rightarrow> 'd \<Rightarrow> 'd \<times> int" where
  "bsy_loop bus 0 d = (d, - 1)"
| "bsy_loop bus (Suc n) d =
    (case b_inb bus d (ATA_PRIMARY_IO + ATA_REG_STATUS) of (d1, status) \<Rightarrow>
       if status = 0xFF then (d1, - 1)
       else if status AND ATA_SR_BSY = 0 then (d1, 0)
       else bsy_loop bus n (ata_io_wait bus d1))"

definition ata_wait_bsy :: "'d bus \<Rightarrow> 'd \<Rightarrow> 'd \<times> int" where
  "ata_wait_bsy bus d = bsy_loop bus 100000 d"

fun drq_loop :: "'d bus \<Rightarrow> nat \<Rightarrow> 'd \<Rightarrow> 'd \<times> int" where
  "drq_loop bus 0 d = (d, - 1)"
| "drq_loop bus (Suc n) d =
    (case b_inb bus d (ATA_PRIMARY_IO + ATA_REG_STATUS) of (d1, status) \<Rightarrow>
       if status = 0xFF then (d1, - 1)
       else if status AND ATA_SR_ERR \<noteq> 0 then (d1, - 1)
       else if status AND ATA_SR_DRQ \<noteq> 0 then (d1, 0)
       else drq_loop bus n (ata_io_wait bus d1))"

definition ata_wait_drq :: "'d bus \<Rightarrow> 'd \<Rightarrow> 'd \<times> int" where
  "ata_wait_drq bus d = drq_loop bus 100000 d"

text \<open>The seven register writes with which both transfers start.\<close>

definition ata_command :: "'d bus \<Rightarrow> 'd \<Rightarrow> u32 \<Rightarrow> u8 \<Rightarrow> u8 \<Rightarrow> 'd" where
  "ata_command bus d lba sector_count cmd =
    (let d1 = b_outb bus d (ATA_PRIMARY_IO + ATA_REG_HDDEVSEL) (ucast (0xE0 OR (drop_bit 24 lba AND 0x0F)));
         d2 = b_outb bus d1 (ATA_PRIMARY_IO + ATA_REG_FEATURES) 0;
         d3 = b_outb bus d2 (ATA_PRIMARY_IO + ATA_REG_SECCOUNT0) sector_count;
         d4 = b_outb bus d3 (ATA_PRIMARY_IO + ATA_REG_LBA0) (ucast lba);
         d5 = b_outb bus d4 (ATA_PRIMARY_IO + ATA_REG_LBA1) (ucast (drop_bit 8 lba));
         d6 = b_outb bus d5 (ATA_PRIMARY_IO + ATA_REG_LBA2) (ucast (drop_bit 16 lba))
     in b_outb bus d6 (ATA_PRIMARY_IO + ATA_REG_COMMAND) cmd)"

text \<open>The bytes that have been stored into the caller's buffer are the last component.\<close>

fun ata_read_loop :: "'d bus \<Rightarrow> nat \<Rightarrow> 'd \<Rightarrow> u8 list \<Rightarrow> 'd \<times> int \<times> u8 list" where
  "ata_read_loop bus 0 d got = (d, 0, got)"
| "ata_read_loop bus (Suc n) d got =
    (case ata_wait_bsy bus d of (d1, r1) \<Rightarrow>
       if r1 \<noteq> 0 then (d1, - 1, got)
       else (case ata_wait_drq bus d1 of (d2, r2) \<Rightarrow>
         if r2 \<noteq> 0 then (d2, - 1, got)
         else (case insw bus (ATA_PRIMARY_IO + ATA_REG_DATA) 256 d2 of (d3, bytes) \<Rightarrow> ata_read_loop bus n d3 (got @ bytes))))"

definition ata_read_sectors :: "'d bus \<Rightarrow> 'd \<Rightarrow> u32 \<Rightarrow> u8 \<Rightarrow> 'd \<times> int \<times> u8 list" where
  "ata_read_sectors bus d lba sector_count =
    (case ata_wait_bsy bus d of (d1, r) \<Rightarrow>
       if r \<noteq> 0 then (d1, - 1, [])
       else ata_read_loop bus (unat sector_count) (ata_command bus d1 lba sector_count ATA_CMD_READ_PIO) [])"

fun ata_write_loop :: "'d bus \<Rightarrow> nat \<Rightarrow> 'd \<Rightarrow> buf \<Rightarrow> nat \<Rightarrow> 'd \<times> int" where
  "ata_write_loop bus 0 d b off = (d, 0)"
| "ata_write_loop bus (Suc n) d b off =
    (case ata_wait_bsy bus d of (d1, r1) \<Rightarrow>
       if r1 \<noteq> 0 then (d1, - 1)
       else (case ata_wait_drq bus d1 of (d2, r2) \<Rightarrow>
         if r2 \<noteq> 0 then (d2, - 1)
         else ata_write_loop bus n (outsw bus (ATA_PRIMARY_IO + ATA_REG_DATA) 256 b off d2) b (off + 512)))"

text \<open>The result of the wait behind the flush is dropped.\<close>

definition ata_write_sectors :: "'d bus \<Rightarrow> 'd \<Rightarrow> u32 \<Rightarrow> u8 \<Rightarrow> buf \<Rightarrow> 'd \<times> int" where
  "ata_write_sectors bus d lba sector_count b =
    (case ata_wait_bsy bus d of (d1, r) \<Rightarrow>
       if r \<noteq> 0 then (d1, - 1)
       else (case ata_write_loop bus (unat sector_count) (ata_command bus d1 lba sector_count ATA_CMD_WRITE_PIO) b 0 of (d2, r2) \<Rightarrow>
         if r2 \<noteq> 0 then (d2, - 1)
         else (fst (ata_wait_bsy bus (b_outb bus d2 (ATA_PRIMARY_IO + ATA_REG_COMMAND) ATA_CMD_CACHE_FLUSH)), 0)))"

section \<open>The protocol of a drive\<close>

text \<open>In the phases of a transfer the drive sends the words that are left, or receives the sector
  with this number, with the sectors left including it and the words it has got of it.\<close>

datatype drive_phase = Ready | Sending "u16 list" | Receiving nat nat "u16 list"

record drive =
  delay :: nat
  regs :: "u16 \<Rightarrow> u8"
  phase :: drive_phase
  sectors :: "nat \<Rightarrow> u16 list"

text \<open>The sector number that the registers select, and the number of sectors of a command, where 0
  stands for 256.\<close>

definition reg_lba :: "(u16 \<Rightarrow> u8) \<Rightarrow> u32" where
  "reg_lba r = push_bit 24 (ucast (r 0x1F6 AND 0x0F)) OR push_bit 16 (ucast (r 0x1F5))
     OR push_bit 8 (ucast (r 0x1F4)) OR ucast (r 0x1F3)"

definition reg_count :: "(u16 \<Rightarrow> u8) \<Rightarrow> nat" where
  "reg_count r = (if r 0x1F2 = 0 then 256 else unat (r 0x1F2))"

definition lba_mode :: "(u16 \<Rightarrow> u8) \<Rightarrow> bool" where
  "lba_mode r \<longleftrightarrow> r 0x1F6 AND 0x50 = 0x40"

definition sector_run :: "drive \<Rightarrow> nat \<Rightarrow> nat \<Rightarrow> u16 list" where
  "sector_run v lba n = concat (map (sectors v) [lba..<lba + n])"

lemma sector_run_cong [simp]:
  "sector_run (v\<lparr>delay := k\<rparr>) = sector_run v" "sector_run (v\<lparr>regs := r\<rparr>) = sector_run v"
  by (simp_all add: sector_run_def fun_eq_iff)

definition drive_gets :: "drive \<Rightarrow> nat \<Rightarrow> nat \<Rightarrow> u16 list \<Rightarrow> u16 \<Rightarrow> drive" where
  "drive_gets v lba n ws w =
    (if length ws < 255 then v\<lparr>phase := Receiving lba n (ws @ [w])\<rparr>
     else v\<lparr>sectors := (sectors v)(lba := ws @ [w]), phase := (if n \<le> 1 then Ready else Receiving (lba + 1) (n - 1) [])\<rparr>)"

definition drive_sends :: "drive \<Rightarrow> u16 list \<Rightarrow> drive" where
  "drive_sends v ws = v\<lparr>phase := (if ws = [] then Ready else Sending ws)\<rparr>"

text \<open>The driver sends the flush right behind the last word of a write, when the drive may be busy with
  the sector: the protocol lets a host send a command only when the drive is not busy, and what the
  driver needs is a drive that drops such a command or takes it up later.\<close>

definition ata_drive :: "'d bus \<Rightarrow> ('d \<Rightarrow> drive) \<Rightarrow> bool" where
  "ata_drive bus view \<longleftrightarrow> (\<forall>d.
     (0 < delay (view d) \<longrightarrow> view (fst (b_inb bus d 0x1F7)) = view d\<lparr>delay := delay (view d) - 1\<rparr>
        \<and> snd (b_inb bus d 0x1F7) AND 0x80 \<noteq> 0 \<and> snd (b_inb bus d 0x1F7) \<noteq> 0xFF)
   \<and> (delay (view d) = 0 \<longrightarrow> view (fst (b_inb bus d 0x1F7)) = view d
        \<and> snd (b_inb bus d 0x1F7) AND 0x81 = 0 \<and> (snd (b_inb bus d 0x1F7) AND 0x08 \<noteq> 0 \<longleftrightarrow> phase (view d) \<noteq> Ready))
   \<and> (\<forall>x. view (b_outb bus d 0x80 x) = view d)
   \<and> (delay (view d) = 0 \<and> phase (view d) = Ready \<longrightarrow>
        (\<forall>p x. 0x1F1 \<le> p \<and> p \<le> 0x1F6 \<longrightarrow> view (b_outb bus d p x) = view d\<lparr>regs := (regs (view d))(p := x)\<rparr>)
      \<and> (lba_mode (regs (view d)) \<longrightarrow>
           (\<exists>k < 100000. view (b_outb bus d 0x1F7 0x20) = view d\<lparr>delay := k,
              phase := Sending (sector_run (view d) (unat (reg_lba (regs (view d)))) (reg_count (regs (view d))))\<rparr>)
         \<and> (\<exists>k < 100000. view (b_outb bus d 0x1F7 0x30) = view d\<lparr>delay := k,
              phase := Receiving (unat (reg_lba (regs (view d)))) (reg_count (regs (view d))) []\<rparr>)))
   \<and> (phase (view d) = Ready \<longrightarrow> (\<exists>k. view (b_outb bus d 0x1F7 0xE7) = view d\<lparr>delay := k\<rparr>))
   \<and> (\<forall>w ws. delay (view d) = 0 \<and> phase (view d) = Sending (w # ws) \<longrightarrow>
        snd (b_inw bus d 0x1F0) = w \<and> (\<exists>k < 100000. (length ws mod 256 \<noteq> 0 \<longrightarrow> k = 0)
          \<and> view (fst (b_inw bus d 0x1F0)) = (drive_sends (view d) ws)\<lparr>delay := k\<rparr>))
   \<and> (\<forall>lba n ws w. delay (view d) = 0 \<and> phase (view d) = Receiving lba n ws \<longrightarrow>
        (\<exists>k < 100000. (length ws < 255 \<longrightarrow> k = 0)
          \<and> view (b_outw bus d 0x1F0 w) = (drive_gets (view d) lba n ws w)\<lparr>delay := k\<rparr>)))"

section \<open>Waiting and commands\<close>

lemma drive_busy:
  assumes "ata_drive bus view" and "0 < delay (view d)"
  shows "view (fst (b_inb bus d 0x1F7)) = (view d)\<lparr>delay := delay (view d) - 1\<rparr>"
    "snd (b_inb bus d 0x1F7) AND 0x80 \<noteq> 0" "snd (b_inb bus d 0x1F7) \<noteq> 0xFF"
  using assms by (simp_all add: ata_drive_def)

lemma drive_free:
  assumes "ata_drive bus view" and "delay (view d) = 0"
  shows "view (fst (b_inb bus d 0x1F7)) = view d" "snd (b_inb bus d 0x1F7) AND 0x81 = 0"
    "snd (b_inb bus d 0x1F7) AND 0x08 \<noteq> 0 \<longleftrightarrow> phase (view d) \<noteq> Ready"
  using assms by (simp_all add: ata_drive_def)

lemma drive_io_wait: "ata_drive bus view \<Longrightarrow> view (ata_io_wait bus d) = view d"
  by (simp add: ata_drive_def ata_io_wait_def)

lemma status_free: "s AND 0x81 = (0 :: u8) \<Longrightarrow> s AND 0x80 = 0 \<and> s AND 0x01 = 0 \<and> s \<noteq> 0xFF"
proof -
  assume s: "s AND 0x81 = 0"
  have "s AND 0x80 = (s AND 0x81) AND 0x80" "s AND 0x01 = (s AND 0x81) AND 0x01" by (simp_all add: and.assoc)
  with s show ?thesis by auto
qed

lemma bsy_loop_ready:
  assumes "ata_drive bus view" and "delay (view d) < n"
  shows "\<exists>d'. bsy_loop bus n d = (d', 0) \<and> view d' = (view d)\<lparr>delay := 0\<rparr>"
  using assms(2)
proof (induction n arbitrary: d)
  case (Suc n)
  obtain d1 status where io: "b_inb bus d 0x1F7 = (d1, status)" by fastforce
  show ?case
  proof (cases "delay (view d) = 0")
    case True
    from drive_free [OF assms(1) this] io status_free [of status] show ?thesis
      by (auto simp: ata_ports ATA_SR_BSY_def True)
  next
    case False
    with drive_busy [OF assms(1), of d] io have busy: "view d1 = (view d)\<lparr>delay := delay (view d) - 1\<rparr>"
      "status AND 0x80 \<noteq> 0" "status \<noteq> 0xFF" by auto
    then show ?thesis using Suc.IH [of "ata_io_wait bus d1"] Suc.prems False
      by (simp add: ata_ports ATA_SR_BSY_def io drive_io_wait [OF assms(1)])
  qed
qed simp

lemma bsy_loop_view:
  assumes "ata_drive bus view"
  shows "view (fst (bsy_loop bus n d)) = (view d)\<lparr>delay := delay (view d) - n\<rparr>"
proof (induction n arbitrary: d)
  case 0
  show ?case by simp
next
  case (Suc n)
  obtain d1 status where io: "b_inb bus d 0x1F7 = (d1, status)" by fastforce
  show ?case
  proof (cases "delay (view d) = 0")
    case True
    have same: "view d = (view d)\<lparr>delay := 0\<rparr>" using True by simp
    from drive_free [OF assms True] io status_free [of status] show ?thesis
      by (simp add: ata_ports ATA_SR_BSY_def True same [symmetric])
  next
    case False
    with drive_busy [OF assms, of d] io have "view d1 = (view d)\<lparr>delay := delay (view d) - 1\<rparr>"
      "status AND 0x80 \<noteq> 0" "status \<noteq> 0xFF" by auto
    then show ?thesis using Suc.IH [of "ata_io_wait bus d1"]
      by (simp add: ata_ports ATA_SR_BSY_def io drive_io_wait [OF assms])
  qed
qed

lemma wait_bsy_ready:
  "ata_drive bus view \<Longrightarrow> delay (view d) < 100000 \<Longrightarrow>
    \<exists>d'. ata_wait_bsy bus d = (d', 0) \<and> view d' = (view d)\<lparr>delay := 0\<rparr>"
  unfolding ata_wait_bsy_def by (rule bsy_loop_ready)

lemma wait_drq_ready:
  assumes "ata_drive bus view" and "delay (view d) = 0" and "phase (view d) \<noteq> Ready"
  shows "\<exists>d'. ata_wait_drq bus d = (d', 0) \<and> view d' = view d"
proof -
  obtain d1 status where io: "b_inb bus d 0x1F7 = (d1, status)" by fastforce
  have "drq_loop bus (Suc n) d = (d1, 0) \<and> view d1 = view d" for n
    using drive_free [OF assms(1,2)] io assms(3) status_free [of status]
    by (auto simp: ata_ports ATA_SR_ERR_def ATA_SR_DRQ_def)
  from this [of 99999] show ?thesis by (auto simp: ata_wait_drq_def)
qed

lemma ata_lba_registers:
  assumes "r 0x1F6 = ucast (0xE0 OR (drop_bit 24 lba AND 0x0F))" and "r 0x1F5 = ucast (drop_bit 16 lba)"
    and "r 0x1F4 = ucast (drop_bit 8 lba)" and "r 0x1F3 = ucast (lba :: u32)"
  shows "reg_lba r = lba AND 0x0FFFFFFF \<and> lba_mode r"
proof
  have m: "(0x0FFFFFFF :: u32) = mask 28" "(0x0F :: u32) = mask 4" "(0x0F :: u8) = mask 4" "(0xE0 :: u32) = push_bit 5 (mask 3)"
    by (simp_all add: mask_eq_exp_minus_1)
  show "reg_lba r = lba AND 0x0FFFFFFF" unfolding reg_lba_def assms m
    by (rule bit_word_eqI, rename_tac n, case_tac "16 \<le> n") (auto simp: bit_simps not_less)
  have "r 0x1F6 = 0xE0 OR (ucast (drop_bit 24 lba) AND 0x0F)"
    by (simp add: assms(1) unsigned_or_eq unsigned_and_eq)
  then show "lba_mode r" by (simp add: lba_mode_def bit.conj_disj_distrib2 and.assoc)
qed

lemma drive_command:
  assumes drive: "ata_drive bus view" and free: "delay (view d) = 0" "phase (view d) = Ready"
    and count: "sector_count \<noteq> 0"
  shows "\<exists>r. \<exists>k < 100000. view (ata_command bus d lba sector_count ATA_CMD_READ_PIO) = (view d)\<lparr>delay := k, regs := r,
      phase := Sending (sector_run (view d) (unat (lba AND 0x0FFFFFFF)) (unat sector_count))\<rparr>"
    and "\<exists>r. \<exists>k < 100000. view (ata_command bus d lba sector_count ATA_CMD_WRITE_PIO) = (view d)\<lparr>delay := k, regs := r,
      phase := Receiving (unat (lba AND 0x0FFFFFFF)) (unat sector_count) []\<rparr>"
proof -
  let ?hd = "ucast (0xE0 OR (drop_bit 24 lba AND 0x0F)) :: u8"
  define d6 where "d6 = b_outb bus (b_outb bus (b_outb bus (b_outb bus (b_outb bus (b_outb bus d 0x1F6 ?hd) 0x1F1 0)
    0x1F2 sector_count) 0x1F3 (ucast lba)) 0x1F4 (ucast (drop_bit 8 lba))) 0x1F5 (ucast (drop_bit 16 lba))"
  have set: "view (b_outb bus e p x) = (view e)\<lparr>regs := (regs (view e))(p := x)\<rparr>"
    if "delay (view e) = 0" "phase (view e) = Ready" "0x1F1 \<le> p" "p \<le> 0x1F6" for e p x
    using drive that by (simp add: ata_drive_def)
  let ?r = "(regs (view d))(0x1F6 := ?hd, 0x1F1 := 0, 0x1F2 := sector_count, 0x1F3 := ucast lba,
    0x1F4 := ucast (drop_bit 8 lba), 0x1F5 := ucast (drop_bit 16 lba))"
  have v6: "view d6 = (view d)\<lparr>regs := ?r\<rparr>"
    unfolding d6_def using free by (simp add: set)
  have lba: "reg_lba ?r = lba AND 0x0FFFFFFF" "lba_mode ?r" using ata_lba_registers [of ?r lba] by simp_all
  have cnt: "reg_count ?r = unat sector_count" using count by (simp add: reg_count_def)
  have cmd: "ata_command bus d lba sector_count c = b_outb bus d6 0x1F7 c" for c
    by (simp add: ata_command_def d6_def ata_ports Let_def)
  have "delay (view d6) = 0 \<and> phase (view d6) = Ready \<and> lba_mode (regs (view d6))" using free lba by (simp add: v6)
  then have ex: "\<exists>k < 100000. view (b_outb bus d6 0x1F7 0x20) = (view d6)\<lparr>delay := k,
        phase := Sending (sector_run (view d6) (unat (reg_lba (regs (view d6)))) (reg_count (regs (view d6))))\<rparr>"
      "\<exists>k < 100000. view (b_outb bus d6 0x1F7 0x30) = (view d6)\<lparr>delay := k,
        phase := Receiving (unat (reg_lba (regs (view d6)))) (reg_count (regs (view d6))) []\<rparr>"
    using drive unfolding ata_drive_def by blast+
  have run: "sector_run (view d6) = sector_run (view d)" by (intro ext) (simp add: v6 sector_run_def)
  have r6: "regs (view d6) = ?r" by (simp add: v6)
  have upd: "v\<lparr>regs := r, delay := k, phase := ph\<rparr> = v\<lparr>delay := k, regs := r, phase := ph\<rparr>" for v r k ph by simp
  from ex(1) show "\<exists>r. \<exists>k < 100000. view (ata_command bus d lba sector_count ATA_CMD_READ_PIO) = (view d)\<lparr>delay := k, regs := r,
      phase := Sending (sector_run (view d) (unat (lba AND 0x0FFFFFFF)) (unat sector_count))\<rparr>"
    unfolding cmd ATA_CMD_READ_PIO_def run r6 unfolding lba cnt v6 upd by blast
  from ex(2) show "\<exists>r. \<exists>k < 100000. view (ata_command bus d lba sector_count ATA_CMD_WRITE_PIO) = (view d)\<lparr>delay := k, regs := r,
      phase := Receiving (unat (lba AND 0x0FFFFFFF)) (unat sector_count) []\<rparr>"
    unfolding cmd ATA_CMD_WRITE_PIO_def r6 unfolding lba cnt v6 upd by blast
qed


section \<open>Transfers\<close>

lemma drive_send:
  assumes "ata_drive bus view" and "delay (view d) = 0" and "phase (view d) = Sending (w # ws)"
  shows "snd (b_inw bus d 0x1F0) = w \<and> (\<exists>k < 100000. (length ws mod 256 \<noteq> 0 \<longrightarrow> k = 0)
      \<and> view (fst (b_inw bus d 0x1F0)) = (drive_sends (view d) ws)\<lparr>delay := k\<rparr>)"
  using assms unfolding ata_drive_def by blast

lemma insw_sends:
  assumes "ata_drive bus view" and "delay (view d) = 0" and "phase (view d) = Sending (ws @ rest)"
    and "ws \<noteq> []" and "length ws \<le> 256" and "length rest mod 256 = 0"
  shows "\<exists>d'. insw bus 0x1F0 (length ws) d = (d', concat (map bytes_u16 ws))
    \<and> (\<exists>k < 100000. view d' = (drive_sends (view d) rest)\<lparr>delay := k\<rparr>)"
  using assms(2-5)
proof (induction ws arbitrary: d)
  case (Cons w ws)
  obtain d1 w1 where io: "b_inw bus d 0x1F0 = (d1, w1)" by fastforce
  have "phase (view d) = Sending (w # (ws @ rest))" using Cons.prems(2) by simp
  from drive_send [OF assms(1) Cons.prems(1) this] obtain k where k: "w1 = w" "k < 100000" "length (ws @ rest) mod 256 \<noteq> 0 \<Longrightarrow> k = 0"
    "view d1 = (drive_sends (view d) (ws @ rest))\<lparr>delay := k\<rparr>" by (auto simp: io)
  show ?case
  proof (cases "ws = []")
    case True
    with io k show ?thesis by auto
  next
    case False
    have "length (ws @ rest) mod 256 = length ws mod 256"
      using assms(6) by (metis length_append mod_add_right_eq add_0_right)
    moreover have "0 < length ws" "length ws < 256" using False Cons.prems(4) by auto
    ultimately have "k = 0" using k(3) by simp
    then have v1: "view d1 = (view d)\<lparr>delay := 0, phase := Sending (ws @ rest)\<rparr>" using k(4) False by (simp add: drive_sends_def)
    have same: "drive_sends (view d1) rest = (drive_sends (view d) rest)\<lparr>delay := 0\<rparr>" by (simp add: v1 drive_sends_def)
    from Cons.IH [of d1] False Cons.prems(4) show ?thesis unfolding same by (auto simp: v1 io k(1))
  qed
qed simp

lemma ata_read_sends:
  assumes "ata_drive bus view" and "delay (view d) < 100000" and "view d = drive_sends (view d) (concat wss)"
    and "\<forall>ws \<in> set wss. length ws = 256"
  shows "\<exists>d'. ata_read_loop bus (length wss) d got = (d', 0, got @ concat (map bytes_u16 (concat wss)))
    \<and> (\<exists>k < 100000. view d' = (view d)\<lparr>delay := k, phase := Ready\<rparr>)"
  using assms(2-4)
proof (induction wss arbitrary: d got)
  case Nil
  then have "view d = (view d)\<lparr>delay := delay (view d), phase := Ready\<rparr>" by (simp add: drive_sends_def)
  with Nil.prems(1) show ?case by auto
next
  case (Cons ws wss)
  from wait_bsy_ready [OF assms(1) Cons.prems(1)] obtain d1
    where d1: "ata_wait_bsy bus d = (d1, 0)" "view d1 = (view d)\<lparr>delay := 0\<rparr>" by blast
  have ws: "length ws = 256" "ws \<noteq> []" using Cons.prems(3) by auto
  have ph: "phase (view d) = Sending (ws @ concat wss)"
    using ws(2) arg_cong [OF Cons.prems(2), of phase] by (simp add: drive_sends_def)
  then have "phase (view d1) \<noteq> Ready" "delay (view d1) = 0" by (simp_all add: d1)
  from wait_drq_ready [OF assms(1) this(2,1)] obtain d2 where d2: "ata_wait_drq bus d1 = (d2, 0)" "view d2 = view d1" by blast
  have "length (concat wss) mod 256 = 0" using Cons.prems(3) by (induction wss) (auto simp: mod_add_eq [symmetric])
  with insw_sends [OF assms(1), of d2 ws "concat wss"] ph ws obtain d3 k
    where d3: "insw bus 0x1F0 256 d2 = (d3, concat (map bytes_u16 ws))" "k < 100000"
      "view d3 = (drive_sends (view d2) (concat wss))\<lparr>delay := k\<rparr>" by (auto simp: d2 d1)
  have "view d3 = drive_sends (view d3) (concat wss)" "delay (view d3) < 100000" using d3(2,3) by (simp_all add: drive_sends_def)
  moreover have "(view d3)\<lparr>delay := k, phase := Ready\<rparr> = (view d)\<lparr>delay := k, phase := Ready\<rparr>" for k
    by (simp add: d3(3) drive_sends_def d1 d2)
  ultimately show ?case using Cons.IH [of d3 "got @ concat (map bytes_u16 ws)"] Cons.prems(3)
    by (simp add: d1 d2 d3(1) ata_ports)
qed

definition responsive :: "drive \<Rightarrow> bool" where
  "responsive v \<longleftrightarrow> delay v < 100000 \<and> phase v = Ready \<and> (\<forall>i. length (sectors v i) = 256)"

text \<open>The driver does not look at the result of the wait behind a flush. The next transfer still finds
  the drive ready if a flush takes less than the polls of two waits.\<close>

definition prompt_flush :: "'d bus \<Rightarrow> ('d \<Rightarrow> drive) \<Rightarrow> bool" where
  "prompt_flush bus view \<longleftrightarrow> (\<forall>d. phase (view d) = Ready \<longrightarrow> delay (view (b_outb bus d 0x1F7 0xE7)) < 200000)"

lemma ata_read_sectors_spec:
  assumes "ata_drive bus view" and "responsive (view d)" and "sector_count \<noteq> 0"
  shows "\<exists>d'. ata_read_sectors bus d lba sector_count
      = (d', 0, concat (map bytes_u16 (sector_run (view d) (unat (lba AND 0x0FFFFFFF)) (unat sector_count))))
    \<and> responsive (view d') \<and> sectors (view d') = sectors (view d)"
proof -
  have v: "delay (view d) < 100000" "phase (view d) = Ready" "\<forall>i. length (sectors (view d) i) = 256"
    using assms(2) by (simp_all add: responsive_def)
  from wait_bsy_ready [OF assms(1) v(1)] obtain d1
    where d1: "ata_wait_bsy bus d = (d1, 0)" "view d1 = (view d)\<lparr>delay := 0\<rparr>" by blast
  let ?wss = "map (sectors (view d)) [unat (lba AND 0x0FFFFFFF)..<unat (lba AND 0x0FFFFFFF) + unat sector_count]"
  have wss: "sector_run (view d) (unat (lba AND 0x0FFFFFFF)) (unat sector_count) = concat ?wss" by (simp add: sector_run_def)
  define d2 where "d2 = ata_command bus d1 lba sector_count ATA_CMD_READ_PIO"
  from drive_command(1) [OF assms(1) _ _ assms(3), of d1 lba] v(2) obtain r k
    where d2: "k < 100000" "view d2 = (view d1)\<lparr>delay := k, regs := r, phase := Sending (concat ?wss)\<rparr>"
    by (auto simp: d1 d2_def wss)
  have "unat sector_count \<noteq> 0" using assms(3) by (simp add: unat_eq_0)
  then have "unat (lba AND 0x0FFFFFFF) \<in> {unat (lba AND 0x0FFFFFFF)..<unat (lba AND 0x0FFFFFFF) + unat sector_count}" by simp
  moreover have "sectors (view d) i \<noteq> []" for i using v(3) by (metis list.size(3) zero_neq_numeral)
  ultimately have "concat ?wss \<noteq> []" unfolding concat_eq_Nil_conv set_map set_upt by blast
  then have "view d2 = drive_sends (view d2) (concat ?wss)" "delay (view d2) < 100000"
    using d2 by (simp_all add: drive_sends_def)
  from ata_read_sends [OF assms(1) this(2,1), of "[]"] v(3)
  show ?thesis unfolding wss by (auto simp: ata_read_sectors_def d1 d2 d2_def [symmetric] responsive_def)
qed

text \<open>Reading from a drive that obeys the protocol ends, reports success and returns the bytes of the
  requested sectors, low byte of each word first; the drive's sectors do not change. Of the sector
  number only the low 28 bits count.\<close>

theorem ata_read_sectors_correct:
  assumes "ata_drive bus view" and "responsive (view d)" and "sector_count \<noteq> 0"
  shows "\<exists>d'. ata_read_sectors bus d lba sector_count
      = (d', 0, concat (map bytes_u16 (sector_run (view d) (unat (lba AND 0x0FFFFFFF)) (unat sector_count))))
    \<and> responsive (view d') \<and> sectors (view d') = sectors (view d)"
  by (rule ata_read_sectors_spec [OF assms])


definition words_at :: "buf \<Rightarrow> nat \<Rightarrow> nat \<Rightarrow> u16 list" where
  "words_at b off m = map (\<lambda>i. get_u16 b (off + 2 * i)) [0..<m]"

lemma words_at_Suc: "words_at b off (Suc m) = get_u16 b off # words_at b (off + 2) m"
  by (simp add: words_at_def upt_conv_Cons map_Suc_upt [symmetric] comp_def del: upt_Suc)

lemma length_words_at [simp]: "length (words_at b off m) = m"
  by (simp add: words_at_def)

lemma drive_get:
  assumes "ata_drive bus view" and "delay (view d) = 0" and "phase (view d) = Receiving lba n ws"
  shows "\<exists>k < 100000. (length ws < 255 \<longrightarrow> k = 0) \<and> view (b_outw bus d 0x1F0 w) = (drive_gets (view d) lba n ws w)\<lparr>delay := k\<rparr>"
  using assms unfolding ata_drive_def by blast

lemma drive_flush:
  assumes "ata_drive bus view" and "phase (view d) = Ready"
  shows "\<exists>k. view (b_outb bus d 0x1F7 0xE7) = (view d)\<lparr>delay := k\<rparr>"
  using assms unfolding ata_drive_def by blast

definition next_phase :: "nat \<Rightarrow> nat \<Rightarrow> drive_phase" where
  "next_phase lba n = (if n = 0 then Ready else Receiving lba n [])"

lemma outsw_gets:
  assumes "ata_drive bus view" and "delay (view d) = 0" and "phase (view d) = Receiving lba (Suc n) ws"
    and "length ws + m = 256" and "0 < m"
  shows "\<exists>k < 100000. view (outsw bus 0x1F0 m b off d) = (view d)\<lparr>delay := k,
    sectors := (sectors (view d))(lba := ws @ words_at b off m), phase := next_phase (lba + 1) n\<rparr>"
  using assms(2-5)
proof (induction m arbitrary: d ws off)
  case (Suc m)
  let ?d = "b_outw bus d 0x1F0 (get_u16 b off)"
  from drive_get [OF assms(1) Suc.prems(1,2), of "get_u16 b off"] obtain k
    where k: "k < 100000" "length ws < 255 \<Longrightarrow> k = 0" "view ?d = (drive_gets (view d) lba (Suc n) ws (get_u16 b off))\<lparr>delay := k\<rparr>"
    by blast
  show ?case
  proof (cases "m = 0")
    case True
    then have "view ?d = (view d)\<lparr>delay := k, sectors := (sectors (view d))(lba := ws @ [get_u16 b off]), phase := next_phase (lba + 1) n\<rparr>"
      using k(3) Suc.prems(3) by (simp add: drive_gets_def next_phase_def)
    with True k(1) show ?thesis by (auto simp: words_at_def fun_upd_def)
  next
    case False
    then have "length ws < 255" using Suc.prems(3) by simp
    then have v1: "view ?d = (view d)\<lparr>phase := Receiving lba (Suc n) (ws @ [get_u16 b off]), delay := 0\<rparr>"
      using k(2,3) by (simp add: drive_gets_def)
    from Suc.IH [of ?d "ws @ [get_u16 b off]" "off + 2"] False Suc.prems(3)
    show ?thesis by (simp add: v1 words_at_Suc [of b off m])
  qed
qed simp

text \<open>Sectors of consecutive numbers replaced by the words of a buffer.\<close>

definition put_sectors :: "(nat \<Rightarrow> u16 list) \<Rightarrow> nat \<Rightarrow> nat \<Rightarrow> buf \<Rightarrow> nat \<Rightarrow> nat \<Rightarrow> u16 list" where
  "put_sectors s lba n b off = (\<lambda>i. if lba \<le> i \<and> i < lba + n then words_at b (off + 512 * (i - lba)) 256 else s i)"

lemma put_sectors_Suc: "put_sectors s lba (Suc n) b off = put_sectors (s(lba := words_at b off 256)) (lba + 1) n b (off + 512)"
proof
  fix i
  have "off + 512 * (i - lba) = off + 512 + 512 * (i - Suc lba)" if "lba < i" using that by simp
  then show "put_sectors s lba (Suc n) b off i = put_sectors (s(lba := words_at b off 256)) (lba + 1) n b (off + 512) i"
    by (cases "lba < i") (auto simp: put_sectors_def add.assoc simp del: diff_Suc_Suc)
qed

lemma ata_write_gets:
  assumes "ata_drive bus view" and "delay (view d) < 100000" and "phase (view d) = next_phase lba n"
  shows "\<exists>d'. ata_write_loop bus n d b off = (d', 0) \<and> (\<exists>k < 100000. view d' = (view d)\<lparr>delay := k, phase := Ready,
    sectors := put_sectors (sectors (view d)) lba n b off\<rparr>)"
  using assms(2,3)
proof (induction n arbitrary: d lba off)
  case 0
  have "put_sectors s lba 0 b off = s" for s by (auto simp: put_sectors_def fun_eq_iff)
  then have "view d = (view d)\<lparr>delay := delay (view d), phase := Ready, sectors := put_sectors (sectors (view d)) lba 0 b off\<rparr>"
    using 0(2) by (simp add: next_phase_def)
  with 0(1) show ?case by auto
next
  case (Suc n)
  from wait_bsy_ready [OF assms(1) Suc.prems(1)] obtain d1
    where d1: "ata_wait_bsy bus d = (d1, 0)" "view d1 = (view d)\<lparr>delay := 0\<rparr>" by blast
  then have "phase (view d1) \<noteq> Ready" "delay (view d1) = 0" using Suc.prems(2) by (simp_all add: next_phase_def)
  from wait_drq_ready [OF assms(1) this(2,1)] obtain d2 where d2: "ata_wait_drq bus d1 = (d2, 0)" "view d2 = view d1" by blast
  have "delay (view d2) = 0" "phase (view d2) = Receiving lba (Suc n) []" using Suc.prems(2) by (simp_all add: d1 d2 next_phase_def)
  from outsw_gets [OF assms(1) this, of 256 b off] obtain k
    where k: "k < 100000" "view (outsw bus 0x1F0 256 b off d2) = (view d2)\<lparr>delay := k,
      sectors := (sectors (view d2))(lba := words_at b off 256), phase := next_phase (lba + 1) n\<rparr>" by auto
  let ?d3 = "outsw bus 0x1F0 256 b off d2"
  have "delay (view ?d3) < 100000" "phase (view ?d3) = next_phase (lba + 1) n" using k by simp_all
  from Suc.IH [OF this, of "off + 512"] show ?case
    by (simp add: d1 d2(1) ata_ports) (simp add: k(2) d2(2) d1(2) put_sectors_Suc fun_upd_def)
qed

lemma ata_write_spec:
  assumes "ata_drive bus view" and "responsive (view d)" and "sector_count \<noteq> 0"
  shows "\<exists>d'. ata_write_sectors bus d lba sector_count b = (d', 0) \<and> phase (view d') = Ready
    \<and> sectors (view d') = put_sectors (sectors (view d)) (unat (lba AND 0x0FFFFFFF)) (unat sector_count) b 0
    \<and> (prompt_flush bus view \<longrightarrow> delay (view d') < 100000)"
proof -
  have v: "delay (view d) < 100000" "phase (view d) = Ready" using assms(2) by (simp_all add: responsive_def)
  from wait_bsy_ready [OF assms(1) v(1)] obtain d1
    where d1: "ata_wait_bsy bus d = (d1, 0)" "view d1 = (view d)\<lparr>delay := 0\<rparr>" by blast
  define d2 where "d2 = ata_command bus d1 lba sector_count ATA_CMD_WRITE_PIO"
  from drive_command(2) [OF assms(1) _ _ assms(3), of d1 lba] v(2) obtain r k
    where d2: "k < 100000" "view d2 = (view d1)\<lparr>delay := k, regs := r,
      phase := Receiving (unat (lba AND 0x0FFFFFFF)) (unat sector_count) []\<rparr>" by (auto simp: d1 d2_def)
  have "unat sector_count \<noteq> 0" using assms(3) by (simp add: unat_eq_0)
  then have "delay (view d2) < 100000" "phase (view d2) = next_phase (unat (lba AND 0x0FFFFFFF)) (unat sector_count)"
    using d2 by (simp_all add: next_phase_def)
  from ata_write_gets [OF assms(1) this, of b 0] obtain d3 k3
    where d3: "ata_write_loop bus (unat sector_count) d2 b 0 = (d3, 0)" "view d3 = (view d2)\<lparr>delay := k3, phase := Ready,
      sectors := put_sectors (sectors (view d2)) (unat (lba AND 0x0FFFFFFF)) (unat sector_count) b 0\<rparr>" by blast
  let ?flush = "ata_wait_bsy bus (b_outb bus d3 0x1F7 ATA_CMD_CACHE_FLUSH)"
  have ready: "phase (view d3) = Ready" by (simp add: d3(2))
  obtain k where k: "view (b_outb bus d3 0x1F7 0xE7) = (view d3)\<lparr>delay := k\<rparr>"
    using drive_flush [OF assms(1) ready] by blast
  have flush: "view (fst ?flush) = (view d3)\<lparr>delay := k - 100000\<rparr>"
    by (simp add: ata_wait_bsy_def ATA_CMD_CACHE_FLUSH_def bsy_loop_view [OF assms(1)] k)
  have prompt: "k < 200000" if "prompt_flush bus view"
    using that ready k by (auto simp: prompt_flush_def dest: spec [of _ d3])
  show ?thesis
    using d3(2) flush prompt
    by (auto simp: ata_write_sectors_def d1 d2(2) d2_def [symmetric] d3(1) ata_ports)
qed



section \<open>The disk of the file system\<close>

lemma bytes_get_u16: "bytes_u16 (get_u16 b off) = [b off, b (off + 1)]"
proof -
  have "ucast (get_u16 b off) = b off" "ucast (drop_bit 8 (get_u16 b off)) = b (off + 1)"
    unfolding get_u16_def by (rule bit_word_eqI; auto simp: bit_simps dest: bit_imp_le_length)+
  then show ?thesis by (simp add: bytes_u16_def)
qed

lemma bytes_of_words: "concat (map bytes_u16 (words_at b off m)) = bytes_at b off (2 * m)"
proof (induction m arbitrary: off)
  case (Suc m)
  then show ?case by (simp add: words_at_Suc bytes_get_u16 bytes_at_Suc)
qed (simp add: words_at_def)

text \<open>The sectors that a number can select hold the file system's disk.\<close>

definition drive_holds :: "innofs \<Rightarrow> drive \<Rightarrow> bool" where
  "drive_holds fs v \<longleftrightarrow> (\<forall>lba < 0x10000000. sectors v (unat lba) = words_at (disk fs lba) 0 256)"

lemma low_lba: "lba < 0x10000000 \<Longrightarrow> lba AND 0x0FFFFFFF = (lba :: u32)"
proof -
  assume "lba < 0x10000000"
  then have "unat lba < 2 ^ 28" by (simp add: word_less_nat_alt)
  then have "take_bit 28 lba = lba" by (simp add: word_unat_eq_iff unsigned_take_bit_eq take_bit_nat_eq_self)
  then show ?thesis by (simp add: take_bit_eq_mask mask_eq_exp_minus_1)
qed

lemma put_one_sector: "put_sectors s lba (unat (1 :: u8)) b 0 = s(lba := words_at b 0 256)"
  by (auto simp: put_sectors_def fun_eq_iff)

text \<open>A run of one-sector transfers, by whatever carries them out: the reports and the bytes in order.\<close>

datatype transfer = Load u32 | Store u32 buf

fun transfer_lba :: "transfer \<Rightarrow> u32" where
  "transfer_lba (Load lba) = lba"
| "transfer_lba (Store lba b) = lba"

fun run_transfers :: "('d \<Rightarrow> u32 \<Rightarrow> 'd \<times> int \<times> u8 list) \<Rightarrow> ('d \<Rightarrow> u32 \<Rightarrow> buf \<Rightarrow> 'd \<times> int) \<Rightarrow> 'd \<Rightarrow> transfer list
    \<Rightarrow> 'd \<times> (int \<times> u8 list) list" where
  "run_transfers rd wr d [] = (d, [])"
| "run_transfers rd wr d (Load lba # ts) =
    (case rd d lba of (d1, r) \<Rightarrow> (case run_transfers rd wr d1 ts of (d2, rs) \<Rightarrow> (d2, r # rs)))"
| "run_transfers rd wr d (Store lba b # ts) =
    (case wr d lba b of (d1, r) \<Rightarrow> (case run_transfers rd wr d1 ts of (d2, rs) \<Rightarrow> (d2, (r, []) # rs)))"

text \<open>The same on the map of sectors of the file system's model, where nothing fails.\<close>

definition model_transfers :: "innofs \<Rightarrow> transfer list \<Rightarrow> innofs \<times> (int \<times> u8 list) list" where
  "model_transfers = run_transfers (\<lambda>fs lba. (fs, 0, bytes_at (disk fs lba) 0 512)) (\<lambda>fs lba b. (write_sector fs lba b, 0))"

lemma model_transfers_simps [simp]:
  "model_transfers fs [] = (fs, [])"
  "model_transfers fs (Load lba # ts) = (fst (model_transfers fs ts), (0, bytes_at (disk fs lba) 0 512) # snd (model_transfers fs ts))"
  "model_transfers fs (Store lba b # ts)
    = (fst (model_transfers (write_sector fs lba b) ts), (0, []) # snd (model_transfers (write_sector fs lba b) ts))"
  by (simp_all add: model_transfers_def split: prod.split)

text \<open>What the file system expects of a driver: while the device holds the disk, every transfer of a
  sector number it can select succeeds and keeps the device and the model in step.\<close>

locale sector_device =
  fixes rd :: "'d \<Rightarrow> u32 \<Rightarrow> 'd \<times> int \<times> u8 list" and wr :: "'d \<Rightarrow> u32 \<Rightarrow> buf \<Rightarrow> 'd \<times> int"
    and holds :: "innofs \<Rightarrow> 'd \<Rightarrow> bool"
  assumes rd_holds: "holds fs d \<Longrightarrow> lba < 0x10000000 \<Longrightarrow>
      \<exists>d'. rd d lba = (d', 0, bytes_at (disk fs lba) 0 512) \<and> holds fs d'"
    and wr_holds: "holds fs d \<Longrightarrow> lba < 0x10000000 \<Longrightarrow>
      \<exists>d'. wr d lba b = (d', 0) \<and> holds (write_sector fs lba b) d'"
begin

lemma run_holds:
  assumes "holds fs d" and "\<forall>t \<in> set ts. transfer_lba t < 0x10000000"
  shows "\<exists>d'. run_transfers rd wr d ts = (d', snd (model_transfers fs ts)) \<and> holds (fst (model_transfers fs ts)) d'"
  using assms
proof (induction ts arbitrary: fs d)
  case (Cons t ts)
  show ?case
  proof (cases t)
    case (Load lba)
    with rd_holds [OF Cons.prems(1), of lba] Cons.prems(2) obtain d1
      where d1: "rd d lba = (d1, 0, bytes_at (disk fs lba) 0 512)" "holds fs d1" by auto
    with Cons.IH [OF d1(2)] Cons.prems(2) show ?thesis by (auto simp: Load)
  next
    case (Store lba b)
    with wr_holds [OF Cons.prems(1), of lba b] Cons.prems(2) obtain d1
      where d1: "wr d lba b = (d1, 0)" "holds (write_sector fs lba b) d1" by auto
    with Cons.IH [OF d1(2)] Cons.prems(2) show ?thesis by (auto simp: Store)
  qed
qed simp

end

definition serves :: "'d bus \<Rightarrow> ('d \<Rightarrow> drive) \<Rightarrow> innofs \<Rightarrow> 'd \<Rightarrow> bool" where
  "serves bus view fs d \<longleftrightarrow> ata_drive bus view \<and> prompt_flush bus view \<and> responsive (view d) \<and> drive_holds fs (view d)"

interpretation ata_disk: sector_device "\<lambda>d lba. ata_read_sectors bus d lba 1" "\<lambda>d lba b. ata_write_sectors bus d lba 1 b"
    "serves bus view" for bus view
proof unfold_locales
  fix fs d lba b
  assume s: "serves bus view fs d" and lba: "lba < (0x10000000 :: u32)"
  have drive: "ata_drive bus view" "responsive (view d)" and flush: "prompt_flush bus view" and holds: "drive_holds fs (view d)"
    using s by (simp_all add: serves_def)
  have nz: "(1 :: u8) \<noteq> 0" by simp
  have "sector_run (view d) (unat lba) (unat (1 :: u8)) = words_at (disk fs lba) 0 256"
    using holds lba by (simp add: sector_run_def drive_holds_def)
  with ata_read_sectors_spec [OF drive nz, of lba] s
  show "\<exists>d'. ata_read_sectors bus d lba 1 = (d', 0, bytes_at (disk fs lba) 0 512) \<and> serves bus view fs d'"
    unfolding low_lba [OF lba] by (auto simp: bytes_of_words drive_holds_def serves_def)
  from ata_write_spec [OF drive nz, of lba b] flush obtain d'
    where d': "ata_write_sectors bus d lba 1 b = (d', 0)" "phase (view d') = Ready" "delay (view d') < 100000"
      "sectors (view d') = (sectors (view d))(unat lba := words_at b 0 256)"
    unfolding low_lba [OF lba] put_one_sector by blast
  then have "responsive (view d')" "drive_holds (write_sector fs lba b) (view d')"
    using drive(2) holds lba by (auto simp: responsive_def drive_holds_def write_sector_def word_unat_eq_iff)
  with d'(1) drive(1) flush
  show "\<exists>d'. ata_write_sectors bus d lba 1 b = (d', 0) \<and> serves bus view (write_sector fs lba b) d'" by (auto simp: serves_def)
qed


text \<open>A drive that keeps the protocol: it is busy for two polls after every command.\<close>

definition plain_drive :: "drive bus" where
  "plain_drive = \<lparr>
     b_inb = (\<lambda>v p. if p = 0x1F7
       then (if 0 < delay v then (v\<lparr>delay := delay v - 1\<rparr>, 0x80) else (v, if phase v = Ready then 0x40 else 0x48)) else (v, 0)),
     b_outb = (\<lambda>v p x.
       if p = 0x1F7 then
         (if x = 0x20 then v\<lparr>delay := 2, phase := Sending (sector_run v (unat (reg_lba (regs v))) (reg_count (regs v)))\<rparr>
          else if x = 0x30 then v\<lparr>delay := 2, phase := Receiving (unat (reg_lba (regs v))) (reg_count (regs v)) []\<rparr>
          else v\<lparr>delay := 2\<rparr>)
       else if 0x1F1 \<le> p \<and> p \<le> 0x1F6 then v\<lparr>regs := (regs v)(p := x)\<rparr> else v),
     b_inw = (\<lambda>v p. case phase v of Sending (w # ws) \<Rightarrow> ((drive_sends v ws)\<lparr>delay := 0\<rparr>, w) | _ \<Rightarrow> (v, 0)),
     b_outw = (\<lambda>v p w. case phase v of Receiving lba n ws \<Rightarrow> (drive_gets v lba n ws w)\<lparr>delay := 0\<rparr> | _ \<Rightarrow> v)\<rparr>"

lemma plain_drive_ok: "ata_drive plain_drive (\<lambda>v. v)"
  unfolding ata_drive_def plain_drive_def by (auto simp: drive_sends_def drive_gets_def intro: exI [of _ 2] exI [of _ 0])

lemma plain_drive_flush: "prompt_flush plain_drive (\<lambda>v. v)"
  by (simp add: prompt_flush_def plain_drive_def)

definition zero_drive :: drive where
  "zero_drive = \<lparr>delay = 1, regs = (\<lambda>_. 0), phase = Ready, sectors = (\<lambda>_. replicate 256 0)\<rparr>"

lemma zero_drive_ok: "responsive zero_drive"
  by (simp add: zero_drive_def responsive_def)

theorem ata_read_sectors_correct_witness:
  "snd (ata_read_sectors plain_drive zero_drive 5 1) = (0, replicate 512 0)"
proof -
  have "sector_run zero_drive 5 1 = replicate 256 0" by (simp add: sector_run_def zero_drive_def)
  moreover have "concat (map bytes_u16 (replicate 256 0)) = replicate 512 0" by code_simp
  ultimately show ?thesis using ata_read_sectors_correct [OF plain_drive_ok zero_drive_ok, of 1 5] by (auto simp: zero_drive_def)
qed



section \<open>No drive\<close>

lemma bsy_loop_busy:
  "\<forall>d. snd (b_inb bus d 0x1F7) AND 0x80 \<noteq> 0 \<Longrightarrow> snd (bsy_loop bus n d) = - 1"
proof (induction n arbitrary: d)
  case (Suc n)
  then show ?case by (auto simp: ata_ports ATA_SR_BSY_def split: prod.split) (metis snd_conv)+
qed simp

text \<open>Where no drive answers (the bus floats at 0xFF) or the drive never stops being busy, both
  transfers return -1 after a bounded number of polls, without a command and without data.\<close>

theorem ata_no_drive:
  assumes "\<forall>d. snd (b_inb bus d 0x1F7) AND 0x80 \<noteq> 0"
  shows "ata_read_sectors bus d lba sector_count = (fst (ata_wait_bsy bus d), - 1, [])
    \<and> ata_write_sectors bus d lba sector_count b = (fst (ata_wait_bsy bus d), - 1)"
  using bsy_loop_busy [OF assms, of 100000 d]
  by (auto simp: ata_read_sectors_def ata_write_sectors_def ata_wait_bsy_def split: prod.split)

definition floating_bus :: "unit bus" where
  "floating_bus = \<lparr>b_inb = \<lambda>d p. (d, 0xFF), b_outb = \<lambda>d p x. d, b_inw = \<lambda>d p. (d, 0xFFFF), b_outw = \<lambda>d p w. d\<rparr>"

theorem ata_no_drive_witness: "snd (ata_read_sectors floating_bus () 0 1) = (- 1, [])"
  using ata_no_drive [of floating_bus "()" 0 1] by (simp add: floating_bus_def)

end
