(* ===== verification/Arch.thy ===== *)
theory Arch
  imports Io
begin

text \<open>
  arch/x86_64: the interrupt controllers (pic.c), the descriptor tables (gdt.c, idt.c) and the frame
  that the interrupt stubs push. Addresses that the linker chooses (the stacks, the tables, the
  stubs) are arguments. What the loading instructions leave in the processor is a record.
\<close>

section \<open>Interrupt controllers\<close>

definition PIC1_CMD :: u16 where "PIC1_CMD = 0x20"
definition PIC1_DATA :: u16 where "PIC1_DATA = 0x21"
definition PIC2_CMD :: u16 where "PIC2_CMD = 0xA0"
definition PIC2_DATA :: u16 where "PIC2_DATA = 0xA1"
definition ICW1_INIT :: u8 where "ICW1_INIT = 0x10"
definition ICW1_ICW4 :: u8 where "ICW1_ICW4 = 0x01"
definition ICW4_8086 :: u8 where "ICW4_8086 = 0x01"

lemmas pic_ports = PIC1_CMD_def PIC1_DATA_def PIC2_CMD_def PIC2_DATA_def ICW1_INIT_def ICW1_ICW4_def ICW4_8086_def

definition io_wait :: "io \<Rightarrow> io" where
  "io_wait io = outb io 0x80 0"

definition outb_wait :: "io \<Rightarrow> u16 \<times> u8 \<Rightarrow> io" where
  "outb_wait io w = io_wait (outb io (fst w) (snd w))"

definition pic_remap :: "io \<Rightarrow> io" where
  "pic_remap io =
    (let io1 = foldl outb_wait io
           [(PIC1_CMD, ICW1_INIT OR ICW1_ICW4), (PIC2_CMD, ICW1_INIT OR ICW1_ICW4),
            (PIC1_DATA, 32), (PIC2_DATA, 40),
            (PIC1_DATA, 4), (PIC2_DATA, 2),
            (PIC1_DATA, ICW4_8086), (PIC2_DATA, ICW4_8086)];
         io2 = outb (outb io1 PIC1_DATA 0xFF) PIC2_DATA 0xFF;
         (io3, master_mask) = inb io2 PIC1_DATA
     in outb io3 PIC1_DATA (master_mask AND NOT 1))"

definition pic_send_eoi :: "io \<Rightarrow> u8 \<Rightarrow> io" where
  "pic_send_eoi io irq =
    (let io1 = (if 8 \<le> irq then outb io PIC2_CMD 0x20 else io) in outb io1 PIC1_CMD 0x20)"

text \<open>The port and the bit of an interrupt line.\<close>

definition pic_line :: "u8 \<Rightarrow> u16 \<times> u8" where
  "pic_line irq = (if irq < 8 then (PIC1_DATA, irq) else (PIC2_DATA, irq - 8))"

definition pic_unmask_irq :: "io \<Rightarrow> u8 \<Rightarrow> io" where
  "pic_unmask_irq io irq =
    (let (port, line) = pic_line irq; (io1, m) = inb io port
     in outb io1 port (m AND ucast (NOT (push_bit (unat line) (1 :: u32)))))"

definition pic_mask_irq :: "io \<Rightarrow> u8 \<Rightarrow> io" where
  "pic_mask_irq io irq =
    (let (port, line) = pic_line irq; (io1, m) = inb io port
     in outb io1 port (m OR ucast (push_bit (unat line) (1 :: u32))))"

definition keyboard_init :: "io \<Rightarrow> io" where
  "keyboard_init io = pic_unmask_irq io 1"

section \<open>Descriptor tables\<close>

definition GDT_KERNEL_CODE :: u16 where "GDT_KERNEL_CODE = 0x08"
definition GDT_KERNEL_DATA :: u16 where "GDT_KERNEL_DATA = 0x10"
definition GDT_USER_CODE :: u16 where "GDT_USER_CODE = 0x18"
definition GDT_USER_DATA :: u16 where "GDT_USER_DATA = 0x20"
definition GDT_TSS :: u16 where "GDT_TSS = 0x28"
definition KERNEL_STACK_SIZE :: u64 where "KERNEL_STACK_SIZE = 16 * 1024"

text \<open>The entries of the interrupt stack table are a list; the structure takes 104 bytes.\<close>

record tss_entry =
  rsp0 :: u64
  rsp1 :: u64
  rsp2 :: u64
  ist :: "u64 list"
  iopb_offset :: u16

definition sizeof_tss :: u32 where "sizeof_tss = 104"

definition set_tss_descriptor :: "u64 list \<Rightarrow> u64 \<Rightarrow> u32 \<Rightarrow> u64 list" where
  "set_tss_descriptor gdt base limit =
    (let lo = (ucast limit AND 0xFFFF)
           OR push_bit 16 (base AND 0xFFFFFF)
           OR push_bit 40 0x89
           OR push_bit 48 (ucast (drop_bit 16 limit) AND 0xF)
           OR push_bit 56 (drop_bit 24 base AND 0xFF);
         hi = drop_bit 32 base AND 0xFFFFFFFF
     in gdt[5 := lo, 6 := hi])"

text \<open>The registers that the loading instructions set.\<close>

record cpu =
  gdtr_limit :: u16
  gdtr_base :: u64
  idtr_limit :: u16
  idtr_base :: u64
  cs_reg :: u16
  data_regs :: u16
  task_reg :: u16

record gdt_state =
  gdt :: "u64 list"
  tss :: tss_entry

definition gdt_init :: "cpu \<Rightarrow> u64 \<Rightarrow> u64 \<Rightarrow> u64 \<Rightarrow> gdt_state \<times> cpu" where
  "gdt_init cpu kernel_stack tss_addr gdt_addr =
    (let t = \<lparr>rsp0 = kernel_stack + KERNEL_STACK_SIZE, rsp1 = 0, rsp2 = 0, ist = replicate 7 0,
            iopb_offset = ucast sizeof_tss\<rparr>;
         g = [0x0000000000000000, 0x00AF9A000000FFFF, 0x00CF92000000FFFF, 0x00AFFA000000FFFF, 0x00CFF2000000FFFF, 0, 0]
     in (\<lparr>gdt = set_tss_descriptor g tss_addr (sizeof_tss - 1), tss = t\<rparr>,
         cpu\<lparr>gdtr_limit := 8 * 7 - 1, gdtr_base := gdt_addr, cs_reg := 0x08, data_regs := 0x10, task_reg := GDT_TSS\<rparr>))"

record idt_entry =
  offset_low :: u16
  selector :: u16
  ie_ist :: u8
  type_attr :: u8
  offset_mid :: u16
  offset_high :: u32
  ie_zero :: u32

definition IDT_ENTRIES :: nat where "IDT_ENTRIES = 256"

definition idt_set_gate :: "idt_entry list \<Rightarrow> u8 \<Rightarrow> u64 \<Rightarrow> u16 \<Rightarrow> u8 \<Rightarrow> idt_entry list" where
  "idt_set_gate idt vec addr sel flags = idt[unat vec :=
    \<lparr>offset_low = ucast (addr AND 0xFFFF), selector = sel, ie_ist = 0, type_attr = flags,
     offset_mid = ucast (drop_bit 16 addr AND 0xFFFF), offset_high = ucast (drop_bit 32 addr AND 0xFFFFFFFF), ie_zero = 0\<rparr>]"

text \<open>\<open>isr\<close> gives the address of the stub of each exception.\<close>

record stubs =
  isr :: "nat \<Rightarrow> u64"
  irq0 :: u64
  irq1 :: u64
  isr_default :: u64

definition idt_init :: "cpu \<Rightarrow> idt_entry list \<Rightarrow> stubs \<Rightarrow> u64 \<Rightarrow> idt_entry list \<times> cpu" where
  "idt_init cpu idt st idt_addr =
    (let idt1 = foldl (\<lambda>t i. idt_set_gate t (of_nat i) (isr_default st) GDT_KERNEL_CODE 0x8E) idt [0..<IDT_ENTRIES];
         idt2 = foldl (\<lambda>t i. idt_set_gate t (of_nat i) (isr st i) GDT_KERNEL_CODE 0x8E) idt1 [0..<32];
         idt3 = idt_set_gate idt2 32 (irq0 st) GDT_KERNEL_CODE 0x8E;
         idt4 = idt_set_gate idt3 33 (irq1 st) GDT_KERNEL_CODE 0x8E
     in (idt4, cpu\<lparr>idtr_limit := 16 * 256 - 1, idtr_base := idt_addr\<rparr>))"

section \<open>The interrupt frame\<close>

record interrupt_frame =
  r15 :: u64
  r14 :: u64
  r13 :: u64
  r12 :: u64
  r11 :: u64
  r10 :: u64
  r9 :: u64
  r8 :: u64
  rdi :: u64
  rsi :: u64
  rbp :: u64
  rdx :: u64
  rcx :: u64
  rbx :: u64
  rax :: u64
  vector :: u64
  error_code :: u64
  rip :: u64
  cs_sel :: u64
  rflags :: u64
  rsp :: u64
  ss_sel :: u64

definition zero_frame :: interrupt_frame where
  "zero_frame = \<lparr>r15 = 0, r14 = 0, r13 = 0, r12 = 0, r11 = 0, r10 = 0, r9 = 0, r8 = 0, rdi = 0, rsi = 0, rbp = 0,
    rdx = 0, rcx = 0, rbx = 0, rax = 0, vector = 0, error_code = 0, rip = 0, cs_sel = 0, rflags = 0, rsp = 0, ss_sel = 0\<rparr>"

section \<open>What the processor reads\<close>

text \<open>The fields of a system segment descriptor and of an interrupt gate, where the processor finds them.\<close>

definition tss_base :: "u64 list \<Rightarrow> u64" where
  "tss_base g = (drop_bit 16 (g ! 5) AND 0xFFFFFF) OR push_bit 24 (drop_bit 56 (g ! 5)) OR push_bit 32 (g ! 6)"

definition tss_limit :: "u64 list \<Rightarrow> u32" where
  "tss_limit g = ucast (g ! 5 AND 0xFFFF) OR push_bit 16 (ucast (drop_bit 48 (g ! 5) AND 0xF))"

definition tss_access :: "u64 list \<Rightarrow> u8" where
  "tss_access g = ucast (drop_bit 40 (g ! 5))"

definition gate_handler :: "idt_entry \<Rightarrow> u64" where
  "gate_handler e = ucast (offset_low e) OR push_bit 16 (ucast (offset_mid e)) OR push_bit 32 (ucast (offset_high e))"

lemma masks64:
  "(0xFFFF :: u64) = mask 16" "(0xFFFFFF :: u64) = mask 24" "(0xF :: u64) = mask 4" "(0xFF :: u64) = mask 8"
  "(0xFFFFFFFF :: u64) = mask 32"
  by (simp_all add: mask_eq_exp_minus_1)

lemma bit_0x89: "bit (0x89 :: u64) n \<longleftrightarrow> n \<in> {0, 3, 7}"
proof -
  have t: "(0x89 :: u64) = push_bit 7 1 OR push_bit 3 1 OR 1" by simp
  have "n \<in> {0, 3, 7} \<Longrightarrow> n < 64" by auto
  then show ?thesis unfolding t bit_or_iff bit_push_bit_iff bit_1_iff by auto
qed

definition tss_low :: "u64 \<Rightarrow> u32 \<Rightarrow> u64" where
  "tss_low base limit = (ucast limit AND 0xFFFF) OR push_bit 16 (base AND 0xFFFFFF) OR push_bit 40 0x89
     OR push_bit 48 (ucast (drop_bit 16 limit) AND 0xF) OR push_bit 56 (drop_bit 24 base AND 0xFF)"

lemma tss_entries:
  "length g = 7 \<Longrightarrow> set_tss_descriptor g base limit ! 5 = tss_low base limit"
  "length g = 7 \<Longrightarrow> set_tss_descriptor g base limit ! 6 = drop_bit 32 base AND 0xFFFFFFFF"
  by (simp_all add: set_tss_descriptor_def tss_low_def Let_def)

text \<open>The low word bit by bit: 16 bits of the limit, 24 of the base, the type, and the rest of both.\<close>

lemma bit_tss_low:
  "bit (tss_low base limit) n \<longleftrightarrow> n < 64 \<and>
    (if n < 16 then bit limit n else if n < 40 then bit base (n - 16) else if n < 48 then n \<in> {40, 43, 47}
     else if n < 52 then bit limit (n - 32) else 56 \<le> n \<and> bit base (n - 32))"
proof -
  have b: "bit (push_bit 40 0x89 :: u64) n \<longleftrightarrow> n \<in> {40, 43, 47}"
    unfolding bit_push_bit_iff bit_0x89 by auto
  have l: "bit (push_bit 48 (ucast (drop_bit 16 limit) AND 0xF) :: u64) n \<longleftrightarrow> 48 \<le> n \<and> n < 52 \<and> bit limit (n - 32)"
    unfolding masks64 by (auto simp: bit_simps)
  have h: "bit (push_bit 56 (drop_bit 24 base AND 0xFF) :: u64) n \<longleftrightarrow> 56 \<le> n \<and> n < 64 \<and> bit base (n - 32)"
    unfolding masks64 by (auto simp: bit_simps)
  have m: "bit (push_bit 16 (base AND 0xFFFFFF) :: u64) n \<longleftrightarrow> 16 \<le> n \<and> n < 40 \<and> bit base (n - 16)"
    unfolding masks64 by (auto simp: bit_simps)
  have f: "bit (ucast limit AND 0xFFFF :: u64) n \<longleftrightarrow> n < 16 \<and> bit limit n"
    unfolding masks64 by (auto simp: bit_simps)
  show ?thesis unfolding tss_low_def bit_or_iff b l h m f by auto
qed

lemma bit_above: "unat (w :: 'a :: len word) < 2 ^ k \<Longrightarrow> bit w n \<Longrightarrow> n < k"
proof (rule ccontr)
  assume w: "unat w < 2 ^ k" "bit w n" "\<not> n < k"
  from w(1) have "take_bit k w = w" by (simp add: word_unat_eq_iff unsigned_take_bit_eq take_bit_nat_eq_self)
  with w(2) have "bit (take_bit k w) n" by simp
  with w(3) show False by (simp add: bit_take_bit_iff)
qed

text \<open>The task state descriptor that \<open>set_tss_descriptor\<close> writes reads back as its base and a limit
  of 20 bits, present and of the type of an available 64-bit task state segment; the other
  descriptors stay.\<close>

theorem tss_descriptor_roundtrip:
  assumes "length g = 7" and "limit < 0x100000"
  shows "tss_base (set_tss_descriptor g base limit) = base \<and> tss_limit (set_tss_descriptor g base limit) = limit
    \<and> tss_access (set_tss_descriptor g base limit) = 0x89 \<and> take 5 (set_tss_descriptor g base limit) = take 5 g"
proof (intro conjI)
  note low = tss_entries [OF assms(1), of base limit]
  have "unat limit < 2 ^ 20" using assms(2) by (simp add: word_less_nat_alt)
  note small = bit_above [OF this]
  show "tss_base (set_tss_descriptor g base limit) = base" unfolding tss_base_def low masks64
  proof (rule bit_word_eqI)
    fix n assume "n < LENGTH(64)"
    then show "bit (drop_bit 16 (tss_low base limit) AND mask 24 OR push_bit 24 (drop_bit 56 (tss_low base limit))
        OR push_bit 32 (drop_bit 32 base AND mask 32)) n = bit base n"
      by (cases "n < 24"; cases "n < 32") (auto simp: bit_or_iff bit_and_iff bit_mask_iff bit_push_bit_iff bit_drop_bit_eq bit_tss_low)
  qed
  show "tss_limit (set_tss_descriptor g base limit) = limit" unfolding tss_limit_def low masks64
  proof (rule bit_word_eqI)
    fix n assume "n < LENGTH(32)"
    then show "bit (ucast (tss_low base limit AND mask 16) OR push_bit 16 (ucast (drop_bit 48 (tss_low base limit) AND mask 4)) :: u32) n
        = bit limit n"
      using small [of n] by (cases "n < 16"; cases "n < 20")
        (auto simp: bit_or_iff bit_and_iff bit_mask_iff bit_push_bit_iff bit_drop_bit_eq bit_tss_low bit_unsigned_iff)
  qed
  show "tss_access (set_tss_descriptor g base limit) = 0x89" unfolding tss_access_def low
  proof (rule bit_word_eqI)
    fix n assume "n < LENGTH(8)"
    moreover have "bit (0x89 :: u8) n \<longleftrightarrow> n \<in> {0, 3, 7}"
    proof -
      have t: "(0x89 :: u8) = push_bit 7 1 OR push_bit 3 1 OR 1" by simp
      have "n \<in> {0, 3, 7} \<Longrightarrow> n < 8" by auto
      then show ?thesis unfolding t bit_or_iff bit_push_bit_iff bit_1_iff by auto
    qed
    ultimately show "bit (ucast (drop_bit 40 (tss_low base limit)) :: u8) n = bit (0x89 :: u8) n"
      by (auto simp: bit_drop_bit_eq bit_tss_low bit_unsigned_iff)
  qed
qed (simp add: set_tss_descriptor_def Let_def)

theorem tss_descriptor_roundtrip_witness:
  "tss_base (gdt (fst (gdt_init undefined 0 0xFFFFFFFF80123456 0))) = 0xFFFFFFFF80123456"
  using tss_descriptor_roundtrip [of "[0, 0x00AF9A000000FFFF, 0x00CF92000000FFFF, 0x00AFFA000000FFFF, 0x00CFF2000000FFFF, 0, 0]" 103 "0xFFFFFFFF80123456"]
  by (simp add: gdt_init_def Let_def sizeof_tss_def)


lemma length_set_gate [simp]: "length (idt_set_gate t v a sel f) = length t"
  by (simp add: idt_set_gate_def)

lemma gate_address:
  "gate_handler \<lparr>offset_low = ucast (addr AND 0xFFFF), selector = sel, ie_ist = i, type_attr = f,
     offset_mid = ucast (drop_bit 16 addr AND 0xFFFF), offset_high = ucast (drop_bit 32 addr AND 0xFFFFFFFF), ie_zero = z\<rparr> = addr"
proof -
  have "bit (ucast (ucast (addr AND mask 16) :: u16) OR push_bit 16 (ucast (ucast (drop_bit 16 addr AND mask 16) :: u16))
      OR push_bit 32 (ucast (ucast (drop_bit 32 addr AND mask 32) :: u32)) :: u64) n = bit addr n" if "n < 64" for n
    using that by (cases "n < 16"; cases "n < 32")
      (auto simp: bit_or_iff bit_and_iff bit_mask_iff bit_push_bit_iff bit_drop_bit_eq bit_unsigned_iff)
  then show ?thesis by (auto simp: gate_handler_def masks64 intro!: bit_word_eqI)
qed

definition gate_is :: "idt_entry \<Rightarrow> u64 \<Rightarrow> bool" where
  "gate_is e addr \<longleftrightarrow> gate_handler e = addr \<and> selector e = GDT_KERNEL_CODE \<and> type_attr e = 0x8E \<and> ie_ist e = 0 \<and> ie_zero e = 0"

lemma set_gate_nth:
  assumes "v < 256" and "length t = 256"
  shows "gate_is (idt_set_gate t (of_nat v) addr GDT_KERNEL_CODE 0x8E ! v) addr"
    and "w \<noteq> v \<Longrightarrow> idt_set_gate t (of_nat v) addr sel f ! w = t ! w"
proof -
  have "unat (of_nat v :: u8) = v" using assms(1) by (simp add: unat_of_nat take_bit_nat_eq_self)
  then show "gate_is (idt_set_gate t (of_nat v) addr GDT_KERNEL_CODE 0x8E ! v) addr"
    "w \<noteq> v \<Longrightarrow> idt_set_gate t (of_nat v) addr sel f ! w = t ! w"
    using assms by (simp_all add: idt_set_gate_def gate_is_def gate_address)
qed

lemma set_gates:
  assumes "length t = 256" and "n \<le> 256"
  shows "length (foldl (\<lambda>t i. idt_set_gate t (of_nat i) (addr i) GDT_KERNEL_CODE 0x8E) t [0..<n]) = 256
    \<and> (\<forall>v < 256. if v < n then gate_is (foldl (\<lambda>t i. idt_set_gate t (of_nat i) (addr i) GDT_KERNEL_CODE 0x8E) t [0..<n] ! v) (addr v)
        else foldl (\<lambda>t i. idt_set_gate t (of_nat i) (addr i) GDT_KERNEL_CODE 0x8E) t [0..<n] ! v = t ! v)"
  using assms(2)
proof (induction n)
  case (Suc n)
  let ?t = "foldl (\<lambda>t i. idt_set_gate t (of_nat i) (addr i) GDT_KERNEL_CODE 0x8E) t [0..<n]"
  have t: "length ?t = 256" "\<forall>v < 256. if v < n then gate_is (?t ! v) (addr v) else ?t ! v = t ! v" using Suc by simp_all
  have n: "n < 256" using Suc.prems by simp
  show ?case
    unfolding upt_Suc_append [OF le0] foldl_append foldl.simps
  proof (intro conjI allI impI)
    fix v :: nat assume v: "v < 256"
    then show "if v < Suc n then gate_is (idt_set_gate ?t (of_nat n) (addr n) GDT_KERNEL_CODE 0x8E ! v) (addr v)
      else idt_set_gate ?t (of_nat n) (addr n) GDT_KERNEL_CODE 0x8E ! v = t ! v"
      using set_gate_nth(1) [OF n t(1), of "addr n"] set_gate_nth(2) [OF n t(1), of v] t(2) [rule_format, OF v]
      by (cases "v = n") (auto split: if_splits)
  qed (simp add: t(1))
qed (simp add: assms(1))

lemma idt_init_gates:
  assumes "length idt = 256" and "v < 256"
  shows "gate_is (fst (idt_init cpu idt st idt_addr) ! v)
    (if v < 32 then isr st v else if v = 32 then irq0 st else if v = 33 then irq1 st else isr_default st)"
proof -
  define t1 where "t1 = foldl (\<lambda>t i. idt_set_gate t (of_nat i) (isr_default st) GDT_KERNEL_CODE 0x8E) idt [0..<256]"
  define t2 where "t2 = foldl (\<lambda>t i. idt_set_gate t (of_nat i) (isr st i) GDT_KERNEL_CODE 0x8E) t1 [0..<32]"
  define t3 where "t3 = idt_set_gate t2 32 (irq0 st) GDT_KERNEL_CODE 0x8E"
  have t1: "length t1 = 256" "gate_is (t1 ! v) (isr_default st)"
    using set_gates [OF assms(1), of 256 "\<lambda>_. isr_default st"] assms(2) by (simp_all add: t1_def)
  have t2: "length t2 = 256" "gate_is (t2 ! v) (if v < 32 then isr st v else isr_default st)"
    using set_gates [OF t1(1), of 32 "isr st"] assms(2) t1(2) by (auto simp: t2_def split: if_splits)
  have t3: "length t3 = 256" "gate_is (t3 ! v) (if v < 32 then isr st v else if v = 32 then irq0 st else isr_default st)"
    using t2 set_gate_nth(1) [OF _ t2(1), of 32 "irq0 st"] set_gate_nth(2) [OF _ t2(1), of 32 v] by (auto simp: t3_def)
  have "fst (idt_init cpu idt st idt_addr) = idt_set_gate t3 33 (irq1 st) GDT_KERNEL_CODE 0x8E"
    by (simp add: idt_init_def Let_def IDT_ENTRIES_def t1_def t2_def t3_def del: upt_rec_numeral)
  then show ?thesis
    using t3 set_gate_nth(1) [OF _ t3(1), of 33 "irq1 st"] set_gate_nth(2) [OF _ t3(1), of 33 v] by auto
qed

text \<open>After \<open>idt_init\<close> every one of the 256 vectors has a ring-0 interrupt gate in the kernel's code
  segment, whose three offset fields give the address of its stub: the exceptions' own stubs, the
  timer's at 32, the keyboard's at 33, and the default one everywhere else.\<close>

theorem idt_gates:
  assumes "length idt = 256" and "v < 256"
  shows "gate_is (fst (idt_init cpu idt st idt_addr) ! v)
    (if v < 32 then isr st v else if v = 32 then irq0 st else if v = 33 then irq1 st else isr_default st)"
  by (rule idt_init_gates [OF assms])

definition null_gate :: idt_entry where
  "null_gate = \<lparr>offset_low = 0, selector = 0, ie_ist = 0, type_attr = 0, offset_mid = 0, offset_high = 0, ie_zero = 0\<rparr>"

theorem idt_gates_witness:
  "gate_handler (fst (idt_init undefined (replicate 256 null_gate)
     \<lparr>isr = \<lambda>i. of_nat i, irq0 = 0xFFFFFFFF80001000, irq1 = 1, isr_default = 2\<rparr> 0) ! 32) = 0xFFFFFFFF80001000"
  using idt_gates [of "replicate 256 null_gate" 32 undefined
      "\<lparr>isr = \<lambda>i. of_nat i, irq0 = 0xFFFFFFFF80001000, irq1 = 1, isr_default = 2\<rparr>" 0]
  by (simp add: gate_is_def)

text \<open>Unmasking a line writes the controller's mask back with that line's bit cleared and the others
  as they were read, masking it with the bit set; the end of an interrupt of the second controller
  is sent to both.\<close>

theorem pic_mask_bits:
  fixes irq :: u8
  assumes "irq < 16"
  defines "port \<equiv> if irq < 8 then 0x21 else 0xA1" and "line \<equiv> unat irq mod 8"
  shows "(\<exists>m. io_out (pic_unmask_irq io irq) = io_out io @ [(port, m)]
      \<and> (\<forall>i < 8. bit m i \<longleftrightarrow> i \<noteq> line \<and> bit (snd (inb io port)) i))
    \<and> (\<exists>m. io_out (pic_mask_irq io irq) = io_out io @ [(port, m)]
      \<and> (\<forall>i < 8. bit m i \<longleftrightarrow> i = line \<or> bit (snd (inb io port)) i))
    \<and> io_out (pic_send_eoi io irq) = io_out io @ (if irq < 8 then [] else [(0xA0, 0x20)]) @ [(0x20, 0x20)]"
proof (intro conjI)
  have irq: "unat irq < 16" using assms(1) by (simp add: word_less_nat_alt)
  have sub: "unat (irq - 8) = unat irq - 8" if "\<not> irq < 8" using that by (simp add: unat_sub not_less)
  have l: "pic_line irq = (port, snd (pic_line irq))" "unat (snd (pic_line irq)) = line"
    using irq sub by (auto simp: pic_line_def port_def line_def pic_ports word_less_nat_alt mod_if)
  have m: "pic_unmask_irq io irq = outb (fst (inb io port)) port (snd (inb io port) AND ucast (NOT (push_bit line (1 :: u32))))"
    "pic_mask_irq io irq = outb (fst (inb io port)) port (snd (inb io port) OR ucast (push_bit line (1 :: u32)))"
    unfolding pic_unmask_irq_def pic_mask_irq_def by (subst l(1), simp add: l(2) inb_def)+
  have b: "bit (push_bit line 1 :: u32) i \<longleftrightarrow> i = line" for i
    using irq unfolding bit_push_bit_iff bit_1_iff by (auto simp: line_def)
  show "\<exists>m. io_out (pic_unmask_irq io irq) = io_out io @ [(port, m)]
      \<and> (\<forall>i < 8. bit m i \<longleftrightarrow> i \<noteq> line \<and> bit (snd (inb io port)) i)"
    unfolding m by (rule exI [of _ "snd (inb io port) AND ucast (NOT (push_bit line (1 :: u32)))"], rule conjI,
        simp add: outb_def inb_def) (simp only: bit_and_iff bit_unsigned_iff bit_not_iff b, auto)
  show "\<exists>m. io_out (pic_mask_irq io irq) = io_out io @ [(port, m)]
      \<and> (\<forall>i < 8. bit m i \<longleftrightarrow> i = line \<or> bit (snd (inb io port)) i)"
    unfolding m by (rule exI [of _ "snd (inb io port) OR ucast (push_bit line (1 :: u32))"], rule conjI,
        simp add: outb_def inb_def) (simp only: bit_or_iff bit_unsigned_iff b, auto)
  show "io_out (pic_send_eoi io irq) = io_out io @ (if irq < 8 then [] else [(0xA0, 0x20)]) @ [(0x20, 0x20)]"
    by (auto simp: pic_send_eoi_def Let_def outb_def pic_ports not_less)
qed

theorem pic_mask_bits_witness:
  "\<exists>m. io_out (pic_unmask_irq \<lparr>io_in = \<lambda>_ _. 0xFF, io_clock = 0, io_out = []\<rparr> 1) = [(0x21, m)] \<and> \<not> bit m 1 \<and> bit m 0"
proof -
  let ?io = "\<lparr>io_in = \<lambda>_ _. 0xFF, io_clock = 0, io_out = []\<rparr>"
  from conjunct1 [OF pic_mask_bits [of 1 ?io]] obtain m
    where "io_out (pic_unmask_irq ?io 1) = [(0x21, m)]" "\<forall>i < 8. bit m i \<longleftrightarrow> i \<noteq> 1 \<and> bit (0xFF :: u8) i"
    by (auto simp: inb_def)
  then show ?thesis by (intro exI [of _ m]) auto
qed

end
