(* ===== verification/Pit.thy ===== *)
theory Pit
  imports Io
begin

text \<open>
  drivers/pit.c: the interval timer. The counter is counted up by the interrupt handler; a sleep
  halts until an interrupt, so what ends each halt is an argument: \<open>True\<close> for a timer interrupt,
  \<open>False\<close> for another one.
\<close>

section \<open>Model\<close>

definition PIT_CHANNEL0 :: u16 where "PIT_CHANNEL0 = 0x40"
definition PIT_COMMAND :: u16 where "PIT_COMMAND = 0x43"
definition PIT_BASE_HZ :: u32 where "PIT_BASE_HZ = 1193182"

record pit =
  g_ticks :: u64
  g_hz :: u32

definition pit_boot :: pit where
  "pit_boot = \<lparr>g_ticks = 0, g_hz = 100\<rparr>"

text \<open>The division by a rate of 0 raises an exception.\<close>

definition pit_init :: "pit \<Rightarrow> io \<Rightarrow> u32 \<Rightarrow> (pit \<times> io) option" where
  "pit_init st io hz =
    (if hz = 0 then None
     else
       (let divisor = PIT_BASE_HZ div hz;
            io1 = outb io PIT_COMMAND 0x36;
            io2 = outb io1 PIT_CHANNEL0 (ucast (divisor AND 0xFF));
            io3 = outb io2 PIT_CHANNEL0 (ucast (drop_bit 8 divisor AND 0xFF))
        in Some (st\<lparr>g_hz := hz, g_ticks := 0\<rparr>, io3)))"

definition pit_get_ticks :: "pit \<Rightarrow> u64" where
  "pit_get_ticks st = g_ticks st"

definition pit_handle_irq :: "pit \<Rightarrow> pit" where
  "pit_handle_irq st = st\<lparr>g_ticks := g_ticks st + 1\<rparr>"

text \<open>The wait returns the interrupts that it leaves; it does not end when they run out.\<close>

fun sleep_loop :: "pit \<Rightarrow> u64 \<Rightarrow> bool list \<Rightarrow> (pit \<times> bool list) option" where
  "sleep_loop st target wakes =
    (if g_ticks st < target
     then (case wakes of [] \<Rightarrow> None | timer # rest \<Rightarrow> sleep_loop (if timer then pit_handle_irq st else st) target rest)
     else Some (st, wakes))"

declare sleep_loop.simps [simp del]

definition pit_sleep_ms :: "pit \<Rightarrow> u32 \<Rightarrow> bool list \<Rightarrow> (pit \<times> bool list) option" where
  "pit_sleep_ms st ms wakes = sleep_loop st (g_ticks st + ucast ms * ucast (g_hz st) div 1000) wakes"

section \<open>Properties\<close>

text \<open>The timer is programmed in mode 3 with the divisor of its base rate for the requested rate,
  low byte first, for the rates whose divisor fits its 16 bits: 19 Hz and more.\<close>

theorem pit_init_divisor:
  assumes "19 \<le> hz" and "hz \<le> PIT_BASE_HZ"
  shows "\<exists>io' lo hi. pit_init st io hz = Some (st\<lparr>g_hz := hz, g_ticks := 0\<rparr>, io')
    \<and> io_out io' = io_out io @ [(0x43, 0x36), (0x40, lo), (0x40, hi)]
    \<and> 256 * unat hi + unat lo = 1193182 div unat hz \<and> 0 < 256 * unat hi + unat lo"
proof -
  let ?d = "PIT_BASE_HZ div hz"
  have hz: "19 \<le> unat hz" "unat hz \<le> 1193182" using assms by (simp_all add: word_le_nat_alt PIT_BASE_HZ_def)
  have "unat ?d = 1193182 div unat hz" by (simp add: unat_div PIT_BASE_HZ_def)
  moreover have "1193182 div unat hz \<le> 1193182 div 19" using hz(1) by (intro div_le_mono2) auto
  ultimately have d: "unat ?d = 1193182 div unat hz" "unat ?d < 65536" by simp_all
  have m: "(0xFF :: u32) = mask 8" by (simp add: mask_eq_exp_minus_1)
  have lo: "unat (ucast (?d AND 0xFF) :: u8) = unat ?d mod 256"
    unfolding m by (simp add: take_bit_eq_mask [symmetric] unsigned_ucast_eq unsigned_take_bit_eq take_bit_eq_mod unat_mod)
  have hi: "unat (ucast (drop_bit 8 ?d AND 0xFF) :: u8) = unat ?d div 256"
    unfolding m using d(2)
    by (simp add: take_bit_eq_mask [symmetric] unsigned_ucast_eq unsigned_take_bit_eq unsigned_drop_bit_eq take_bit_eq_mod drop_bit_eq_div unat_mod unat_div)
  have "256 * (unat ?d div 256) + unat ?d mod 256 = unat ?d" by simp
  moreover have "0 < 1193182 div unat hz" using hz by (simp add: div_greater_zero_iff)
  ultimately have "256 * unat (ucast (drop_bit 8 ?d AND 0xFF) :: u8) + unat (ucast (?d AND 0xFF) :: u8) = 1193182 div unat hz"
    "0 < 1193182 div unat hz" unfolding lo hi d(1) by simp_all
  moreover have "hz \<noteq> 0" using hz(1) by auto
  ultimately show ?thesis
    by (auto simp: pit_init_def Let_def outb_def PIT_COMMAND_def PIT_CHANNEL0_def)
qed

definition idle_io :: io where
  "idle_io = \<lparr>io_in = \<lambda>_ _. 0, io_clock = 0, io_out = []\<rparr>"

theorem pit_init_divisor_witness: "\<exists>io'. pit_init pit_boot idle_io 100 = Some (pit_boot, io')"
  using pit_init_divisor [of 100 pit_boot idle_io] by (auto simp: PIT_BASE_HZ_def pit_boot_def)

text \<open>A rate of 10 Hz needs a divisor above 65535, of which the timer gets the low 16 bits: it runs at
  22 Hz, and everything that counts its ticks is too early.\<close>

lemma pit_slow_rate:
  "map_option (\<lambda>(st, io). (g_hz st, io_out io)) (pit_init st idle_io 10)
    = Some (10, [(0x43, 0x36), (0x40, 0x16), (0x40, 0xD2)])"
  by (simp add: pit_init_def Let_def outb_def PIT_COMMAND_def PIT_CHANNEL0_def PIT_BASE_HZ_def idle_io_def)

text \<open>A sleep ends behind the first interrupts among which enough are the timer's.\<close>

lemma sleep_loop_ends:
  assumes "unat (g_ticks st) + n < 2 ^ 64" and "length (filter id wakes) = n" and "wakes = [] \<or> last wakes"
  shows "sleep_loop st (g_ticks st + of_nat n) (wakes @ rest) = Some (st\<lparr>g_ticks := g_ticks st + of_nat n\<rparr>, rest)"
  using assms
proof (induction wakes arbitrary: st n)
  case Nil
  then show ?case by (subst sleep_loop.simps) simp
next
  case (Cons w wakes)
  then have "\<exists>x \<in> set (w # wakes). x" by (metis last_in_set list.distinct(1))
  then have "n \<noteq> 0" using Cons.prems(2) by (fastforce simp: filter_empty_conv split: if_splits)
  then have less: "g_ticks st < g_ticks st + of_nat n"
    using Cons.prems(1) by (simp add: word_less_nat_alt unat_add_no_wrap unat_of_nat take_bit_nat_eq_self)
  have last: "wakes = [] \<or> last wakes" using Cons.prems(3) by (auto split: if_splits)
  show ?case
  proof (cases w)
    case True
    then obtain m where m: "n = Suc m" using Cons.prems(2) by auto
    have "unat (g_ticks (pit_handle_irq st)) + m < 2 ^ 64"
      using Cons.prems(1) unat_plus_1 [of "g_ticks st" "g_ticks st + of_nat n"] less by (simp add: m pit_handle_irq_def)
    from Cons.IH [OF this _ last] True Cons.prems(2) less show ?thesis
      by (subst sleep_loop.simps) (simp add: m pit_handle_irq_def add.assoc)
  next
    case False
    with Cons.IH [OF Cons.prems(1) _ last] Cons.prems(2) less show ?thesis by (subst sleep_loop.simps) simp
  qed
qed

lemma sleep_loop_waits:
  assumes "unat (g_ticks st) + n < 2 ^ 64" and "length (filter id wakes) < n"
  shows "sleep_loop st (g_ticks st + of_nat n) wakes = None"
  using assms
proof (induction wakes arbitrary: st n)
  case Nil
  then show ?case
    by (subst sleep_loop.simps) (simp add: word_less_nat_alt unat_add_no_wrap unat_of_nat take_bit_nat_eq_self)
next
  case (Cons w wakes)
  then obtain m where m: "n = Suc m" by (cases n) auto
  then have less: "g_ticks st < g_ticks st + of_nat n"
    using Cons.prems(1) by (simp add: word_less_nat_alt unat_add_no_wrap unat_of_nat take_bit_nat_eq_self)
  have "unat (g_ticks (pit_handle_irq st)) + m < 2 ^ 64"
    using Cons.prems(1) unat_plus_1 [OF less] by (simp add: m pit_handle_irq_def)
  from Cons.IH [OF this] Cons.IH [OF Cons.prems(1)] Cons.prems(2) less show ?case
    by (subst sleep_loop.simps) (auto simp: m pit_handle_irq_def add.assoc)
qed



end
