(* ===== verification/Framebuffer.thy ===== *)
theory Framebuffer
  imports Prelude
begin

text \<open>
  drivers/framebuffer.c: the back buffer, drawing into it, and its copy to the screen. The
  buffers are bytes by their offset; a pixel is the little-endian word at four times its place.
  The abstraction of the back buffer is \<open>pixel\<close>, the colour at a column and a row.
\<close>

section \<open>Model\<close>

definition FB_MAX_WIDTH :: u64 where "FB_MAX_WIDTH = 1920"
definition FB_MAX_HEIGHT :: u64 where "FB_MAX_HEIGHT = 1080"

text \<open>The static structure \<open>g_fb\<close>, the memory it points to, and the back buffer.\<close>

record framebuffer =
  fb_w :: u64
  fb_h :: u64
  fb_pitch :: u64
  fb_bpp :: u16
  fb_front :: buf
  fb_back :: buf
  fb_back_pitch :: u64

text \<open>A null pointer to the pixels is \<open>None\<close>.\<close>

record fb_image =
  img_pixels :: "u32 list option"
  img_width :: u64
  img_height :: u64

text \<open>The width, height, pitch and depth come from the boot loader, with the screen's memory.\<close>

definition fb_init :: "buf \<Rightarrow> u64 \<Rightarrow> u64 \<Rightarrow> u64 \<Rightarrow> u16 \<Rightarrow> framebuffer" where
  "fb_init screen width height pitch bpp =
    (let w = (if FB_MAX_WIDTH < width then FB_MAX_WIDTH else width);
         h = (if FB_MAX_HEIGHT < height then FB_MAX_HEIGHT else height)
     in \<lparr>fb_w = w, fb_h = h, fb_pitch = pitch, fb_bpp = bpp, fb_front = screen,
         fb_back = (\<lambda>_. 0), fb_back_pitch = w * 4\<rparr>)"

definition fb_width :: "framebuffer \<Rightarrow> u64" where
  "fb_width fb = fb_w fb"

definition fb_height :: "framebuffer \<Rightarrow> u64" where
  "fb_height fb = fb_h fb"

text \<open>The pointer to a pixel, as an offset in the back buffer, and a store through it.\<close>

definition pixel_offset :: "framebuffer \<Rightarrow> u64 \<Rightarrow> u64 \<Rightarrow> nat" where
  "pixel_offset fb x y = unat (y * fb_back_pitch fb + x * 4)"

definition set_pixel :: "framebuffer \<Rightarrow> u64 \<Rightarrow> u64 \<Rightarrow> u32 \<Rightarrow> framebuffer" where
  "set_pixel fb x y rgb = fb\<lparr>fb_back := put_u32 (fb_back fb) (pixel_offset fb x y) rgb\<rparr>"

definition fb_put_pixel :: "framebuffer \<Rightarrow> u64 \<Rightarrow> u64 \<Rightarrow> u32 \<Rightarrow> framebuffer" where
  "fb_put_pixel fb x y rgb = (if fb_w fb \<le> x \<or> fb_h fb \<le> y then fb else set_pixel fb x y rgb)"

function fill_row :: "framebuffer \<Rightarrow> u64 \<Rightarrow> u64 \<Rightarrow> u64 \<Rightarrow> u32 \<Rightarrow> framebuffer" where
  "fill_row fb col end_col row rgb =
    (if col < end_col \<and> col < fb_w fb then fill_row (set_pixel fb col row rgb) (col + 1) end_col row rgb else fb)"
  by auto
termination
  by (relation "measure (\<lambda>(fb, col, _). unat (fb_w fb) - unat col)") (auto simp: set_pixel_def loop_term)

lemma set_pixel_dims [simp]:
  "fb_w (set_pixel fb x y c) = fb_w fb" "fb_h (set_pixel fb x y c) = fb_h fb"
  "fb_back_pitch (set_pixel fb x y c) = fb_back_pitch fb"
  "fb_pitch (set_pixel fb x y c) = fb_pitch fb" "fb_front (set_pixel fb x y c) = fb_front fb"
  "fb_bpp (set_pixel fb x y c) = fb_bpp fb"
  by (simp_all add: set_pixel_def)

lemma fill_row_dims [simp]:
  "fb_w (fill_row fb col e row c) = fb_w fb" "fb_h (fill_row fb col e row c) = fb_h fb"
  "fb_back_pitch (fill_row fb col e row c) = fb_back_pitch fb"
  "fb_pitch (fill_row fb col e row c) = fb_pitch fb" "fb_front (fill_row fb col e row c) = fb_front fb"
  "fb_bpp (fill_row fb col e row c) = fb_bpp fb"
  by (induction fb col e row c rule: fill_row.induct; simp)+

function fill_rows :: "framebuffer \<Rightarrow> u64 \<Rightarrow> u64 \<Rightarrow> u64 \<Rightarrow> u64 \<Rightarrow> u32 \<Rightarrow> framebuffer" where
  "fill_rows fb x end_col row end_row rgb =
    (if row < end_row \<and> row < fb_h fb
     then fill_rows (fill_row fb x end_col row rgb) x end_col (row + 1) end_row rgb else fb)"
  by auto
termination
  by (relation "measure (\<lambda>(fb, _, _, row, _). unat (fb_h fb) - unat row)") (auto simp: loop_term simp del: fill_row.simps)

declare fill_row.simps [simp del] fill_rows.simps [simp del]

definition fb_fill_rect :: "framebuffer \<Rightarrow> u64 \<Rightarrow> u64 \<Rightarrow> u64 \<Rightarrow> u64 \<Rightarrow> u32 \<Rightarrow> framebuffer" where
  "fb_fill_rect fb x y w h rgb = fill_rows fb x (x + w) y (y + h) rgb"

definition fb_clear :: "framebuffer \<Rightarrow> u32 \<Rightarrow> framebuffer" where
  "fb_clear fb rgb = fb_fill_rect fb 0 0 (fb_w fb) (fb_h fb) rgb"

section \<open>Images\<close>

definition fb_blend_channel :: "u32 \<Rightarrow> u32 \<Rightarrow> u32 \<Rightarrow> u32" where
  "fb_blend_channel src dst alpha = (src * alpha + dst * (255 - alpha)) div 255"

text \<open>The colour that a pixel of an image leaves on a colour below it.\<close>

definition compose :: "u32 \<Rightarrow> u32 \<Rightarrow> u32" where
  "compose src dst =
    (let alpha = drop_bit 24 src in
     if alpha = 0 then dst
     else if alpha = 255 then 0xFF000000 OR (src AND 0x00FFFFFF)
     else
       (let out_r = fb_blend_channel (drop_bit 16 src AND 0xFF) (drop_bit 16 dst AND 0xFF) alpha;
            out_g = fb_blend_channel (drop_bit 8 src AND 0xFF) (drop_bit 8 dst AND 0xFF) alpha;
            out_b = fb_blend_channel (src AND 0xFF) (dst AND 0xFF) alpha
        in 0xFF000000 OR push_bit 16 out_r OR push_bit 8 out_g OR out_b))"

definition blend_pixel :: "framebuffer \<Rightarrow> u64 \<Rightarrow> u64 \<Rightarrow> u32 \<Rightarrow> framebuffer" where
  "blend_pixel fb x y src =
    (if drop_bit 24 src = 0 then fb
     else set_pixel fb x y (compose src (get_u32 (fb_back fb) (pixel_offset fb x y))))"

function draw_row ::
  "framebuffer \<Rightarrow> u32 list \<Rightarrow> u64 \<Rightarrow> u64 \<Rightarrow> u64 \<Rightarrow> u64 \<Rightarrow> u64 \<Rightarrow> u64 \<Rightarrow> u64 \<Rightarrow> framebuffer" where
  "draw_row fb px x dst_y src_row width scale scaled_width dst_col =
    (if dst_col < scaled_width then
       (if fb_w fb \<le> x + dst_col then fb
        else draw_row (blend_pixel fb (x + dst_col) dst_y (px ! unat (src_row * width + dst_col div scale)))
          px x dst_y src_row width scale scaled_width (dst_col + 1))
     else fb)"
  by auto
termination
  by (relation "measure (\<lambda>(fb, px, x, y, r, w, s, scaled_width, dst_col). unat scaled_width - unat dst_col)")
    (auto simp: loop_term)

function draw_rows ::
  "framebuffer \<Rightarrow> u32 list \<Rightarrow> u64 \<Rightarrow> u64 \<Rightarrow> u64 \<Rightarrow> u64 \<Rightarrow> u64 \<Rightarrow> u64 \<Rightarrow> u64 \<Rightarrow> framebuffer" where
  "draw_rows fb px x y width scale scaled_width scaled_height dst_row =
    (if dst_row < scaled_height then
       (if fb_h fb \<le> y + dst_row then fb
        else draw_rows (draw_row fb px x (y + dst_row) (dst_row div scale) width scale scaled_width 0)
          px x y width scale scaled_width scaled_height (dst_row + 1))
     else fb)"
  by auto
termination
  by (relation "measure (\<lambda>(fb, px, x, y, w, s, sw, scaled_height, dst_row). unat scaled_height - unat dst_row)")
    (auto simp: loop_term)

declare draw_row.simps [simp del] draw_rows.simps [simp del]

definition fb_draw_image :: "framebuffer \<Rightarrow> u64 \<Rightarrow> u64 \<Rightarrow> fb_image option \<Rightarrow> u64 \<Rightarrow> framebuffer" where
  "fb_draw_image fb x y img_ptr scale =
    (case img_ptr of
      None \<Rightarrow> fb
    | Some img \<Rightarrow>
        (case img_pixels img of
          None \<Rightarrow> fb
        | Some px \<Rightarrow>
            if img_width img = 0 \<or> img_height img = 0 \<or> scale = 0 then fb
            else draw_rows fb px x y (img_width img) scale (img_width img * scale) (img_height img * scale) 0))"

section \<open>The screen\<close>

function present_rows :: "framebuffer \<Rightarrow> u64 \<Rightarrow> framebuffer" where
  "present_rows fb row =
    (if row < fb_h fb then
       present_rows (fb\<lparr>fb_front := blit (fb_front fb) (unat (row * fb_pitch fb))
         (bytes_at (fb_back fb) (unat (row * fb_back_pitch fb)) (unat (fb_w fb * 4)))\<rparr>) (row + 1)
     else fb)"
  by auto
termination
  by (relation "measure (\<lambda>(fb, row). unat (fb_h fb) - unat row)") (auto simp: loop_term)

declare present_rows.simps [simp del]

definition fb_present :: "framebuffer \<Rightarrow> framebuffer" where
  "fb_present fb = present_rows fb 0"

section \<open>Pixels\<close>

definition fb_ok :: "framebuffer \<Rightarrow> bool" where
  "fb_ok fb \<longleftrightarrow> fb_w fb \<le> FB_MAX_WIDTH \<and> fb_h fb \<le> FB_MAX_HEIGHT \<and> fb_back_pitch fb = fb_w fb * 4"

text \<open>The colour at a column and a row of the back buffer.\<close>

definition pixel :: "framebuffer \<Rightarrow> nat \<Rightarrow> nat \<Rightarrow> u32" where
  "pixel fb i j = get_u32 (fb_back fb) (4 * (j * unat (fb_w fb) + i))"

lemma fb_init_ok: "fb_ok (fb_init screen width height pitch bpp)"
  by (auto simp: fb_ok_def fb_init_def Let_def not_less)

lemma fb_bounds: "fb_ok fb \<Longrightarrow> unat (fb_w fb) \<le> 1920 \<and> unat (fb_h fb) \<le> 1080"
  by (simp add: fb_ok_def FB_MAX_WIDTH_def FB_MAX_HEIGHT_def word_le_nat_alt)

lemma offset_pixel:
  assumes "fb_ok fb" and "x < fb_w fb" and "y < fb_h fb"
  shows "pixel_offset fb x y = 4 * (unat y * unat (fb_w fb) + unat x)"
    and "pixel_offset fb x y + 4 \<le> 4 * (unat (fb_w fb) * unat (fb_h fb))"
proof -
  let ?w = "unat (fb_w fb)" and ?h = "unat (fb_h fb)"
  have b: "?w \<le> 1920" "?h \<le> 1080" using fb_bounds [OF assms(1)] by auto
  have x: "unat x < ?w" and y: "unat y < ?h" using assms(2,3) by (simp_all add: word_less_nat_alt)
  have w4: "unat (fb_w fb * 4) = ?w * 4" using b(1) by (subst unat_mult_small) auto
  have x4: "unat (x * 4) = unat x * 4" using x b(1) by (subst unat_mult_small) auto
  have le: "unat y * ?w \<le> 1080 * 1920" using y b by (intro mult_mono) auto
  have yw: "unat (y * (fb_w fb * 4)) = unat y * (?w * 4)" using le by (subst unat_mult_small) (auto simp: w4)
  have "unat (y * (fb_w fb * 4) + x * 4) = unat y * (?w * 4) + unat x * 4"
    using le x b(1) by (subst unat_add_no_wrap) (auto simp: yw x4)
  then show o: "pixel_offset fb x y = 4 * (unat y * ?w + unat x)"
    using assms(1) by (simp add: pixel_offset_def fb_ok_def algebra_simps)
  have "Suc (unat y) * ?w \<le> ?h * ?w" using y by (intro mult_right_mono) auto
  then show "pixel_offset fb x y + 4 \<le> 4 * (?w * ?h)" using x unfolding o by (simp add: algebra_simps)
qed

lemma grid_inj: "i < w \<Longrightarrow> i' < w \<Longrightarrow> j * w + i = j' * w + (i' :: nat) \<longleftrightarrow> i = i' \<and> j = j'"
  by (metis add.commute div_mult_self3 div_less less_nat_zero_code add_0 mod_less mod_mult_self3)

lemma pixel_set:
  assumes "fb_ok fb" and "x < fb_w fb" and "y < fb_h fb" and "i < unat (fb_w fb)"
  shows "pixel (set_pixel fb x y c) i j = (if i = unat x \<and> j = unat y then c else pixel fb i j)"
proof -
  let ?w = "unat (fb_w fb)"
  have o: "pixel_offset fb x y = 4 * (unat y * ?w + unat x)" using offset_pixel [OF assms(1-3)] by simp
  have "unat x < ?w" using assms(2) by (simp add: word_less_nat_alt)
  then have "j * ?w + i = unat y * ?w + unat x \<longleftrightarrow> i = unat x \<and> j = unat y" using assms(4) by (simp add: grid_inj)
  moreover have "get_u32 (put_u32 b (4 * q) c) (4 * p) = (if p = q then c else get_u32 b (4 * p))" for b p q
  proof (cases "p = q")
    case False
    then have "4 * p + 4 \<le> 4 * q \<or> 4 * q + 4 \<le> 4 * p" by auto
    then show ?thesis using False by (simp add: get_put_u32_other)
  qed (simp add: get_put_u32)
  ultimately show ?thesis unfolding pixel_def set_pixel_def o by (simp del: distrib_left_numeral)
qed

lemma set_pixel_ok [simp]: "fb_ok (set_pixel fb x y c) = fb_ok fb"
  by (simp add: fb_ok_def)

lemma fb_ok_dims [simp]:
  "fb_ok (fill_row fb col e row c) = fb_ok fb" "fb_ok (fb_put_pixel fb x y c) = fb_ok fb"
  "fb_ok (blend_pixel fb x y c) = fb_ok fb"
  by (simp_all add: fb_ok_def fb_put_pixel_def blend_pixel_def)

lemma put_pixel_dims [simp]:
  "fb_w (fb_put_pixel fb x y c) = fb_w fb" "fb_h (fb_put_pixel fb x y c) = fb_h fb"
  "fb_w (blend_pixel fb x y c) = fb_w fb" "fb_h (blend_pixel fb x y c) = fb_h fb"
  by (simp_all add: fb_put_pixel_def blend_pixel_def)

lemma pixel_put:
  assumes "fb_ok fb" and "i < unat (fb_w fb)" and "j < unat (fb_h fb)"
  shows "pixel (fb_put_pixel fb x y c) i j = (if i = unat x \<and> j = unat y then c else pixel fb i j)"
proof (cases "fb_w fb \<le> x \<or> fb_h fb \<le> y")
  case True
  then have "\<not> (i = unat x \<and> j = unat y)" using assms(2,3) by (auto simp: word_le_nat_alt)
  then show ?thesis using True by (auto simp: fb_put_pixel_def)
next
  case False
  then have "x < fb_w fb" "y < fb_h fb" by (simp_all add: not_le)
  then show ?thesis using False assms by (simp add: fb_put_pixel_def pixel_set)
qed

section \<open>Filling\<close>

lemma fill_row_pixel:
  assumes "fb_ok fb" and "row < fb_h fb" and "i < unat (fb_w fb)"
  shows "pixel (fill_row fb col end_col row c) i j
    = (if j = unat row \<and> unat col \<le> i \<and> i < unat end_col then c else pixel fb i j)"
  using assms
proof (induction fb col end_col row c rule: fill_row.induct)
  case (1 fb col end_col row c)
  show ?case
  proof (cases "col < end_col \<and> col < fb_w fb")
    case True
    then have "unat (col + 1) = Suc (unat col)" using unat_plus_1 [of col end_col] by simp
    with 1 True show ?thesis
      by (subst fill_row.simps) (auto simp: pixel_set word_less_nat_alt)
  next
    case False
    with 1 show ?thesis by (subst fill_row.simps) (auto simp: word_less_nat_alt)
  qed
qed

lemma fill_rows_dims [simp]:
  "fb_w (fill_rows fb x ec row er c) = fb_w fb \<and> fb_h (fill_rows fb x ec row er c) = fb_h fb
    \<and> fb_ok (fill_rows fb x ec row er c) = fb_ok fb"
proof (induction fb x ec row er c rule: fill_rows.induct)
  case (1 fb x ec row er c)
  then show ?case by (subst (1 2 3) fill_rows.simps) auto
qed

lemma fill_rows_pixel:
  assumes "fb_ok fb" and "i < unat (fb_w fb)" and "j < unat (fb_h fb)"
  shows "pixel (fill_rows fb x end_col row end_row c) i j
    = (if unat row \<le> j \<and> j < unat end_row \<and> unat x \<le> i \<and> i < unat end_col then c else pixel fb i j)"
  using assms
proof (induction fb x end_col row end_row c rule: fill_rows.induct)
  case (1 fb x end_col row end_row c)
  show ?case
  proof (cases "row < end_row \<and> row < fb_h fb")
    case True
    then have "unat (row + 1) = Suc (unat row)" using unat_plus_1 [of row end_row] by simp
    with 1 True show ?thesis
      by (subst fill_rows.simps) (auto simp: fill_row_pixel word_less_nat_alt)
  next
    case False
    with 1 show ?thesis by (subst fill_rows.simps) (auto simp: word_less_nat_alt)
  qed
qed

lemma fill_rect_pixel:
  assumes "fb_ok fb" and "i < unat (fb_w fb)" and "j < unat (fb_h fb)"
  shows "pixel (fb_fill_rect fb x y w h c) i j
    = (if unat y \<le> j \<and> j < unat (y + h) \<and> unat x \<le> i \<and> i < unat (x + w) then c else pixel fb i j)"
  using assms by (simp add: fb_fill_rect_def fill_rows_pixel)

lemma clear_dims [simp]:
  "fb_w (fb_clear fb c) = fb_w fb" "fb_h (fb_clear fb c) = fb_h fb" "fb_ok (fb_clear fb c) = fb_ok fb"
  by (simp_all add: fb_clear_def fb_fill_rect_def)

lemma clear_pixel:
  "fb_ok fb \<Longrightarrow> i < unat (fb_w fb) \<Longrightarrow> j < unat (fb_h fb) \<Longrightarrow> pixel (fb_clear fb c) i j = c"
  by (simp add: fb_clear_def fill_rect_pixel)

section \<open>Drawing images\<close>

lemma pixel_blend:
  assumes "fb_ok fb" and "x < fb_w fb" and "y < fb_h fb" and "i < unat (fb_w fb)"
  shows "pixel (blend_pixel fb x y src) i j
    = (if i = unat x \<and> j = unat y then compose src (pixel fb i j) else pixel fb i j)"
proof -
  have "get_u32 (fb_back fb) (pixel_offset fb x y) = pixel fb (unat x) (unat y)"
    by (simp only: pixel_def offset_pixel(1) [OF assms(1-3)])
  moreover have "drop_bit 24 src = 0 \<Longrightarrow> compose src dst = dst" for dst by (simp add: compose_def)
  ultimately show ?thesis using assms by (auto simp: blend_pixel_def pixel_set)
qed

lemma draw_row_dims [simp]:
  "fb_w (draw_row fb px x y r w s sw col) = fb_w fb \<and> fb_h (draw_row fb px x y r w s sw col) = fb_h fb
    \<and> fb_ok (draw_row fb px x y r w s sw col) = fb_ok fb"
proof (induction fb px x y r w s sw col rule: draw_row.induct)
  case (1 fb px x y r w s sw col)
  then show ?case by (subst (1 2 3) draw_row.simps) auto
qed

lemma draw_row_pixel:
  assumes "fb_ok fb" and "y < fb_h fb" and "i < unat (fb_w fb)" and "unat x + unat sw < 2 ^ 64"
  shows "pixel (draw_row fb px x y r w s sw col) i j
    = (if j = unat y \<and> unat x + unat col \<le> i \<and> i < unat x + unat sw
       then compose (px ! unat (r * w + of_nat (i - unat x) div s)) (pixel fb i j) else pixel fb i j)"
  using assms
proof (induction fb px x y r w s sw col rule: draw_row.induct)
  case (1 fb px x y r w s sw col)
  show ?case
  proof (cases "col < sw")
    case col: True
    then have x: "unat (x + col) = unat x + unat col" using "1.prems"(4)
      by (intro unat_add_no_wrap) (simp add: word_less_nat_alt)
    have next_col: "unat (col + 1) = Suc (unat col)" using unat_plus_1 [OF col] by simp
    show ?thesis
    proof (cases "fb_w fb \<le> x + col")
      case True
      then show ?thesis using col x "1.prems"(3) by (subst draw_row.simps) (auto simp: word_le_nat_alt)
    next
      case False
      then have "x + col < fb_w fb" by (simp add: not_le)
      with 1 col False show ?thesis
        by (subst draw_row.simps) (auto simp: pixel_blend x next_col word_less_nat_alt)
    qed
  next
    case False
    then show ?thesis by (subst draw_row.simps) (auto simp: word_less_nat_alt)
  qed
qed

lemma draw_rows_pixel:
  assumes "fb_ok fb" and "i < unat (fb_w fb)" and "j < unat (fb_h fb)"
    and "unat x + unat sw < 2 ^ 64" and "unat y + unat sh < 2 ^ 64"
  shows "pixel (draw_rows fb px x y w s sw sh row) i j
    = (if unat y + unat row \<le> j \<and> j < unat y + unat sh \<and> unat x \<le> i \<and> i < unat x + unat sw
       then compose (px ! unat ((of_nat (j - unat y) div s) * w + of_nat (i - unat x) div s)) (pixel fb i j)
       else pixel fb i j)"
  using assms
proof (induction fb px x y w s sw sh row rule: draw_rows.induct)
  case (1 fb px x y w s sw sh row)
  show ?case
  proof (cases "row < sh")
    case row: True
    then have y: "unat (y + row) = unat y + unat row" using "1.prems"(5)
      by (intro unat_add_no_wrap) (simp add: word_less_nat_alt)
    have next_row: "unat (row + 1) = Suc (unat row)" using unat_plus_1 [OF row] by simp
    show ?thesis
    proof (cases "fb_h fb \<le> y + row")
      case True
      then show ?thesis using row y "1.prems"(3) by (subst draw_rows.simps) (auto simp: word_le_nat_alt)
    next
      case False
      then have "y + row < fb_h fb" by (simp add: not_le)
      with 1 row False show ?thesis
        by (subst draw_rows.simps) (auto simp: draw_row_pixel y next_row word_less_nat_alt)
    qed
  next
    case False
    then show ?thesis by (subst draw_rows.simps) (auto simp: word_less_nat_alt)
  qed
qed

text \<open>C13. An image is drawn scaled up by whole pixels and clipped at the edges: exactly the pixels of
  the screen that it covers get the image's pixel composed with what was there, the others keep
  their colour.\<close>

theorem fb_draw_image_correct:
  assumes "fb_ok fb" and "i < unat (fb_w fb)" and "j < unat (fb_h fb)"
    and "img_pixels img = Some px" and "img_width img \<noteq> 0" and "img_height img \<noteq> 0" and "scale \<noteq> 0"
    and "unat x + unat (img_width img) * unat scale < 2 ^ 64"
    and "unat y + unat (img_height img) * unat scale < 2 ^ 64"
    and "unat (img_width img) * unat (img_height img) < 2 ^ 64"
  shows "pixel (fb_draw_image fb x y (Some img) scale) i j
    = (if unat x \<le> i \<and> i < unat x + unat (img_width img) * unat scale
         \<and> unat y \<le> j \<and> j < unat y + unat (img_height img) * unat scale
       then compose (px ! ((j - unat y) div unat scale * unat (img_width img) + (i - unat x) div unat scale)) (pixel fb i j)
       else pixel fb i j)"
proof -
  let ?w = "unat (img_width img)" and ?h = "unat (img_height img)" and ?s = "unat scale"
  have sw: "unat (img_width img * scale) = ?w * ?s" and sh: "unat (img_height img * scale) = ?h * ?s"
    using assms(8,9) by (simp_all add: unat_mult_small)
  have s: "0 < ?s" using assms(7) by (simp add: unat_gt_0)
  have "unat ((of_nat (j - unat y) div scale) * img_width img + of_nat (i - unat x) div scale)
      = (j - unat y) div ?s * ?w + (i - unat x) div ?s" (is "unat ?e = ?n")
    if "i < unat x + ?w * ?s" "j < unat y + ?h * ?s"
  proof -
    have "0 < ?w * ?s" "0 < ?h * ?s" using s assms(5,6) by (simp_all add: unat_gt_0)
    then have "i - unat x < ?w * ?s" "j - unat y < ?h * ?s" using that by linarith+
    then have col: "(i - unat x) div ?s < ?w" and row: "(j - unat y) div ?s < ?h"
      by (simp_all add: less_mult_imp_div_less)
    have "Suc ((j - unat y) div ?s) * ?w \<le> ?h * ?w" using row by (intro mult_right_mono) auto
    then have n: "?n < 2 ^ 64" using col assms(10) by (simp add: mult.commute)
    have ij: "i - unat x < 2 ^ 64" "j - unat y < 2 ^ 64" using that assms(8,9) by auto
    have d: "unat (of_nat k div scale) = k div ?s" if "k < 2 ^ 64" for k
      using that by (simp add: unat_div unat_of_nat take_bit_nat_eq_self)
    have m: "unat ((of_nat (j - unat y) div scale) * img_width img) = (j - unat y) div ?s * ?w"
      using n unat_mult_small [of "of_nat (j - unat y) div scale" "img_width img"]
      unfolding d [OF ij(2)] by linarith
    show ?thesis using n by (subst unat_add_no_wrap) (simp_all add: m d [OF ij(1)])
  qed
  then show ?thesis using assms
    by (simp add: fb_draw_image_def draw_rows_pixel sw sh del: of_nat_diff)
qed

theorem fb_draw_image_correct_witness:
  "pixel (fb_draw_image (fb_init (\<lambda>_. 0) 8 8 32 32) 2 2
    (Some \<lparr>img_pixels = Some [0xFF123456, 0x00777777], img_width = 2, img_height = 1\<rparr>) 3) 4 3 = 0xFF123456"
proof -
  let ?fb = "fb_init (\<lambda>_. 0) 8 8 32 32"
    and ?img = "\<lparr>img_pixels = Some [0xFF123456, 0x00777777], img_width = 2, img_height = 1\<rparr> :: fb_image"
  have "fb_w ?fb = 8" "fb_h ?fb = 8" by (simp_all add: fb_init_def FB_MAX_WIDTH_def FB_MAX_HEIGHT_def)
  then have "pixel (fb_draw_image ?fb 2 2 (Some ?img) 3) 4 3 = compose 0xFF123456 (pixel ?fb 4 3)"
    using fb_draw_image_correct [OF fb_init_ok, of 4 "\<lambda>_. 0" 8 8 32 32 3 ?img "[0xFF123456, 0x00777777]" 3 2 2]
    by (simp add: fb_init_ok)
  then show ?thesis by (simp add: compose_def)
qed

text \<open>Between two colours the blend stays between them, so that a channel never leaves its byte.\<close>

lemma blend_channel_between:
  assumes "src \<le> 255" and "dst \<le> 255" and "alpha \<le> 255"
  shows "min src dst \<le> fb_blend_channel src dst alpha \<and> fb_blend_channel src dst alpha \<le> max src dst"
proof -
  let ?s = "unat src" and ?d = "unat dst" and ?a = "unat alpha"
  have b: "?s \<le> 255" "?d \<le> 255" "?a \<le> 255" using assms by (simp_all add: word_le_nat_alt)
  have m: "?s * ?a \<le> 255 * 255" "?d * (255 - ?a) \<le> 255 * 255" using b mult_mono [of ?s 255 ?a 255] mult_mono [of ?d 255 "255 - ?a" 255] by simp_all
  have "unat (fb_blend_channel src dst alpha) = (?s * ?a + ?d * (255 - ?a)) div 255"
    unfolding fb_blend_channel_def using m assms(3) by (simp add: unat_div unat_word_ariths unat_sub)
  moreover have "255 * min ?s ?d \<le> ?s * ?a + ?d * (255 - ?a)"
  proof -
    have "min ?s ?d * ?a + min ?s ?d * (255 - ?a) \<le> ?s * ?a + ?d * (255 - ?a)"
      by (intro add_mono mult_right_mono) auto
    then show ?thesis using b(3) by (simp flip: distrib_left)
  qed
  moreover have "?s * ?a + ?d * (255 - ?a) \<le> 255 * max ?s ?d"
  proof -
    have "?s * ?a + ?d * (255 - ?a) \<le> max ?s ?d * ?a + max ?s ?d * (255 - ?a)"
      by (intro add_mono mult_right_mono) auto
    then show ?thesis using b(3) by (simp flip: distrib_left)
  qed
  ultimately have "min ?s ?d \<le> unat (fb_blend_channel src dst alpha)" "unat (fb_blend_channel src dst alpha) \<le> max ?s ?d"
    by (simp_all add: div_le_mono less_eq_div_iff_mult_less_eq)
  then show ?thesis by (auto simp: word_le_nat_alt min_def max_def split: if_splits)
qed

section \<open>The copy to the screen\<close>

lemma present_rows_other:
  assumes "\<And>r. row \<le> r \<Longrightarrow> r < fb_h fb \<Longrightarrow>
    k < unat (r * fb_pitch fb) \<or> unat (r * fb_pitch fb) + unat (fb_w fb * 4) \<le> k"
  shows "fb_front (present_rows fb row) k = fb_front fb k"
  using assms
proof (induction fb row rule: present_rows.induct)
  case (1 fb row)
  show ?case
  proof (cases "row < fb_h fb")
    case True
    then have "row \<le> row + 1" by (simp add: word_le_nat_alt unat_plus_1 [OF True])
    then have step: "row \<le> r" if "row + 1 \<le> r" for r using that by simp
    show ?thesis using 1 True step "1.prems" [of row]
      by (subst present_rows.simps) (auto simp: blit_other)
  next
    case False
    then show ?thesis by (subst present_rows.simps) simp
  qed
qed

lemma present_rows_row:
  assumes "row \<le> r" and "r < fb_h fb" and "k < unat (fb_w fb * 4)"
    and "\<And>r'. r < r' \<Longrightarrow> r' < fb_h fb \<Longrightarrow> unat (r * fb_pitch fb) + unat (fb_w fb * 4) \<le> unat (r' * fb_pitch fb)"
  shows "fb_front (present_rows fb row) (unat (r * fb_pitch fb) + k)
    = fb_back fb (unat (r * fb_back_pitch fb) + k)"
  using assms
proof (induction fb row rule: present_rows.induct)
  case (1 fb row)
  have row: "row < fb_h fb" using "1.prems"(1,2) by simp
  let ?fb = "fb\<lparr>fb_front := blit (fb_front fb) (unat (row * fb_pitch fb))
         (bytes_at (fb_back fb) (unat (row * fb_back_pitch fb)) (unat (fb_w fb * 4)))\<rparr>"
  show ?case
  proof (cases "row = r")
    case True
    have "fb_front (present_rows ?fb (row + 1)) (unat (r * fb_pitch fb) + k) = fb_front ?fb (unat (r * fb_pitch fb) + k)"
    proof (rule present_rows_other)
      fix r' assume "row + 1 \<le> r'" "r' < fb_h ?fb"
      then have "r < r'" using row True by (metis less_le_trans word_less_nat_alt lessI unat_plus_1 Suc_eq_plus1)
      with "1.prems"(4) [OF this] \<open>r' < fb_h ?fb\<close> "1.prems"(3)
      show "unat (r * fb_pitch fb) + k < unat (r' * fb_pitch ?fb)
        \<or> unat (r' * fb_pitch ?fb) + unat (fb_w ?fb * 4) \<le> unat (r * fb_pitch fb) + k" by simp
    qed
    then show ?thesis using row True "1.prems"(3) by (subst present_rows.simps) (simp add: blit_same)
  next
    case False
    then have "row + 1 \<le> r" using "1.prems"(1) row
      by (auto simp: word_le_nat_alt unat_plus_1 [OF row] word_unat_eq_iff)
    then show ?thesis using 1 row by (subst present_rows.simps) simp
  qed
qed

text \<open>What the screen shows at a column and a row.\<close>

definition shown :: "framebuffer \<Rightarrow> nat \<Rightarrow> nat \<Rightarrow> u32" where
  "shown fb i j = get_u32 (fb_front fb) (j * unat (fb_pitch fb) + 4 * i)"

lemma present_dims [simp]:
  "fb_w (fb_present fb) = fb_w fb" "fb_h (fb_present fb) = fb_h fb" "fb_back (fb_present fb) = fb_back fb"
  "fb_back_pitch (fb_present fb) = fb_back_pitch fb" "fb_pitch (fb_present fb) = fb_pitch fb"
proof -
  have "fb_w (present_rows fb r) = fb_w fb \<and> fb_h (present_rows fb r) = fb_h fb \<and> fb_back (present_rows fb r) = fb_back fb
    \<and> fb_back_pitch (present_rows fb r) = fb_back_pitch fb \<and> fb_pitch (present_rows fb r) = fb_pitch fb" for r
  proof (induction fb r rule: present_rows.induct)
    case (1 fb row)
    then show ?case by (subst (1 2 3 4 5) present_rows.simps) auto
  qed
  then show "fb_w (fb_present fb) = fb_w fb" "fb_h (fb_present fb) = fb_h fb" "fb_back (fb_present fb) = fb_back fb"
    "fb_back_pitch (fb_present fb) = fb_back_pitch fb" "fb_pitch (fb_present fb) = fb_pitch fb"
    by (simp_all add: fb_present_def)
qed

lemma present_ok [simp]: "fb_ok (fb_present fb) = fb_ok fb" "pixel (fb_present fb) = pixel fb"
  by (simp_all add: fb_ok_def pixel_def fun_eq_iff)

lemma present_shown:
  assumes "fb_ok fb" and "i < unat (fb_w fb)" and "j < unat (fb_h fb)"
    and "4 * unat (fb_w fb) \<le> unat (fb_pitch fb)" and "unat (fb_h fb) * unat (fb_pitch fb) < 2 ^ 64"
  shows "shown (fb_present fb) i j = pixel fb i j"
proof -
  let ?w = "unat (fb_w fb)" and ?p = "unat (fb_pitch fb)" and ?r = "of_nat j :: u64"
  have b: "?w \<le> 1920" "unat (fb_h fb) \<le> 1080" using fb_bounds [OF assms(1)] by auto
  have w4: "unat (fb_w fb * 4) = 4 * ?w" using b(1) by (subst unat_mult_small) auto
  have r: "unat ?r = j" using assms(3) b(2) by (simp add: unat_of_nat take_bit_nat_eq_self)
  have front: "unat (r * fb_pitch fb) = unat r * ?p" if "r < fb_h fb" for r
  proof (rule unat_mult_small)
    have "unat r * ?p \<le> unat (fb_h fb) * ?p" using that by (simp add: word_less_nat_alt)
    then show "unat r * ?p < 2 ^ 64" using assms(5) by linarith
  qed
  have rh: "?r < fb_h fb" using r assms(3) by (simp add: word_less_nat_alt)
  have "j * (4 * ?w) \<le> 1080 * (4 * 1920)" using assms(3) b by (intro mult_mono) auto
  then have src: "unat (?r * fb_back_pitch fb) = 4 * (j * ?w)"
    using assms(1) w4 r by (subst unat_mult_small) (auto simp: fb_ok_def)
  have byte: "fb_front (fb_present fb) (j * ?p + k) = fb_back fb (4 * (j * ?w) + k)" if "k < 4 * ?w" for k
  proof -
    have "unat (?r * fb_pitch fb) + unat (fb_w fb * 4) \<le> unat (r' * fb_pitch fb)" if "?r < r'" "r' < fb_h fb" for r'
    proof -
      have "Suc j * ?p \<le> unat r' * ?p" using that(1) r by (intro mult_right_mono) (simp_all add: word_less_nat_alt)
      then show ?thesis using front [OF rh] front [OF that(2)] assms(4) w4 r by simp
    qed
    from present_rows_row [of 0 ?r fb k, OF _ rh _ this] that front [OF rh] src w4 r
    show ?thesis by (simp add: fb_present_def)
  qed
  show ?thesis using byte [of "4 * i"] byte [of "4 * i + 1"] byte [of "4 * i + 2"] byte [of "4 * i + 3"] assms(2)
    by (simp add: shown_def pixel_def get_u32_def add.assoc)
qed

end
