(* ===== verification/Assets.thy ===== *)
theory Assets
  imports Framebuffer
begin

text \<open>
  The data of kernel/include/kernel/assets: the font of 95 glyphs, 8 pixels wide and 16 high,
  one byte for each row with the leftmost pixel in its highest bit, and the logo.
\<close>

definition FONT_CHAR_W :: u64 where "FONT_CHAR_W = 8"
definition FONT_CHAR_H :: u64 where "FONT_CHAR_H = 16"
definition FONT_FIRST :: int where "FONT_FIRST = 32"
definition FONT_LAST :: int where "FONT_LAST = 126"

definition font8x16_glyphs :: "u8 list list" where
  "font8x16_glyphs = [
    [0, 0, 0, 0, 0, 0, 0, 0, 0, 0, 0, 0, 0, 0, 0, 0],
    [0, 0, 0x18, 0x3C, 0x3C, 0x3C, 0x18, 0x18, 0x18, 0, 0x18, 0x18, 0, 0, 0, 0],
    [0, 0x66, 0x66, 0x66, 0x24, 0, 0, 0, 0, 0, 0, 0, 0, 0, 0, 0],
    [0, 0, 0, 0x6C, 0x6C, 0xFE, 0x6C, 0x6C, 0x6C, 0xFE, 0x6C, 0x6C, 0, 0, 0, 0],
    [0x18, 0x18, 0x7C, 0xC6, 0xC2, 0xC0, 0x7C, 0x06, 0x06, 0x86, 0xC6, 0x7C, 0x18, 0x18, 0, 0],
    [0, 0, 0, 0, 0xC2, 0xC6, 0x0C, 0x18, 0x30, 0x60, 0xC6, 0x86, 0, 0, 0, 0],
    [0, 0, 0x38, 0x6C, 0x6C, 0x38, 0x76, 0xDC, 0xCC, 0xCC, 0xCC, 0x76, 0, 0, 0, 0],
    [0, 0x30, 0x30, 0x30, 0x60, 0, 0, 0, 0, 0, 0, 0, 0, 0, 0, 0],
    [0, 0, 0x0C, 0x18, 0x30, 0x30, 0x30, 0x30, 0x30, 0x30, 0x18, 0x0C, 0, 0, 0, 0],
    [0, 0, 0x30, 0x18, 0x0C, 0x0C, 0x0C, 0x0C, 0x0C, 0x0C, 0x18, 0x30, 0, 0, 0, 0],
    [0, 0, 0, 0, 0, 0x66, 0x3C, 0xFF, 0x3C, 0x66, 0, 0, 0, 0, 0, 0],
    [0, 0, 0, 0, 0, 0x18, 0x18, 0x7E, 0x18, 0x18, 0, 0, 0, 0, 0, 0],
    [0, 0, 0, 0, 0, 0, 0, 0, 0, 0x18, 0x18, 0x18, 0x30, 0, 0, 0],
    [0, 0, 0, 0, 0, 0, 0, 0xFE, 0, 0, 0, 0, 0, 0, 0, 0],
    [0, 0, 0, 0, 0, 0, 0, 0, 0, 0, 0x18, 0x18, 0, 0, 0, 0],
    [0, 0, 0, 0, 0x02, 0x06, 0x0C, 0x18, 0x30, 0x60, 0xC0, 0x80, 0, 0, 0, 0],
    [0, 0, 0x3C, 0x66, 0xC3, 0xC3, 0xDB, 0xDB, 0xC3, 0xC3, 0x66, 0x3C, 0, 0, 0, 0],
    [0, 0, 0x18, 0x38, 0x78, 0x18, 0x18, 0x18, 0x18, 0x18, 0x18, 0x7E, 0, 0, 0, 0],
    [0, 0, 0x7C, 0xC6, 0x06, 0x0C, 0x18, 0x30, 0x60, 0xC0, 0xC6, 0xFE, 0, 0, 0, 0],
    [0, 0, 0x7C, 0xC6, 0x06, 0x06, 0x3C, 0x06, 0x06, 0x06, 0xC6, 0x7C, 0, 0, 0, 0],
    [0, 0, 0x0C, 0x1C, 0x3C, 0x6C, 0xCC, 0xFE, 0x0C, 0x0C, 0x0C, 0x1E, 0, 0, 0, 0],
    [0, 0, 0xFE, 0xC0, 0xC0, 0xC0, 0xFC, 0x06, 0x06, 0x06, 0xC6, 0x7C, 0, 0, 0, 0],
    [0, 0, 0x38, 0x60, 0xC0, 0xC0, 0xFC, 0xC6, 0xC6, 0xC6, 0xC6, 0x7C, 0, 0, 0, 0],
    [0, 0, 0xFE, 0xC6, 0x06, 0x06, 0x0C, 0x18, 0x30, 0x30, 0x30, 0x30, 0, 0, 0, 0],
    [0, 0, 0x7C, 0xC6, 0xC6, 0xC6, 0x7C, 0xC6, 0xC6, 0xC6, 0xC6, 0x7C, 0, 0, 0, 0],
    [0, 0, 0x7C, 0xC6, 0xC6, 0xC6, 0x7E, 0x06, 0x06, 0x06, 0x0C, 0x78, 0, 0, 0, 0],
    [0, 0, 0, 0, 0x18, 0x18, 0, 0, 0, 0x18, 0x18, 0, 0, 0, 0, 0],
    [0, 0, 0, 0, 0x18, 0x18, 0, 0, 0, 0x18, 0x18, 0x30, 0, 0, 0, 0],
    [0, 0, 0, 0x06, 0x0C, 0x18, 0x30, 0x60, 0x30, 0x18, 0x0C, 0x06, 0, 0, 0, 0],
    [0, 0, 0, 0, 0, 0x7E, 0, 0, 0x7E, 0, 0, 0, 0, 0, 0, 0],
    [0, 0, 0, 0x60, 0x30, 0x18, 0x0C, 0x06, 0x0C, 0x18, 0x30, 0x60, 0, 0, 0, 0],
    [0, 0, 0x7C, 0xC6, 0xC6, 0x0C, 0x18, 0x18, 0x18, 0, 0x18, 0x18, 0, 0, 0, 0],
    [0, 0, 0, 0x7C, 0xC6, 0xC6, 0xDE, 0xDE, 0xDE, 0xDC, 0xC0, 0x7C, 0, 0, 0, 0],
    [0, 0, 0x10, 0x38, 0x6C, 0xC6, 0xC6, 0xFE, 0xC6, 0xC6, 0xC6, 0xC6, 0, 0, 0, 0],
    [0, 0, 0xFC, 0x66, 0x66, 0x66, 0x7C, 0x66, 0x66, 0x66, 0x66, 0xFC, 0, 0, 0, 0],
    [0, 0, 0x3C, 0x66, 0xC2, 0xC0, 0xC0, 0xC0, 0xC0, 0xC2, 0x66, 0x3C, 0, 0, 0, 0],
    [0, 0, 0xF8, 0x6C, 0x66, 0x66, 0x66, 0x66, 0x66, 0x66, 0x6C, 0xF8, 0, 0, 0, 0],
    [0, 0, 0xFE, 0x66, 0x62, 0x68, 0x78, 0x68, 0x60, 0x62, 0x66, 0xFE, 0, 0, 0, 0],
    [0, 0, 0xFE, 0x66, 0x62, 0x68, 0x78, 0x68, 0x60, 0x60, 0x60, 0xF0, 0, 0, 0, 0],
    [0, 0, 0x3C, 0x66, 0xC2, 0xC0, 0xC0, 0xDE, 0xC6, 0xC6, 0x66, 0x3A, 0, 0, 0, 0],
    [0, 0, 0xC6, 0xC6, 0xC6, 0xC6, 0xFE, 0xC6, 0xC6, 0xC6, 0xC6, 0xC6, 0, 0, 0, 0],
    [0, 0, 0x3C, 0x18, 0x18, 0x18, 0x18, 0x18, 0x18, 0x18, 0x18, 0x3C, 0, 0, 0, 0],
    [0, 0, 0x1E, 0x0C, 0x0C, 0x0C, 0x0C, 0x0C, 0xCC, 0xCC, 0xCC, 0x78, 0, 0, 0, 0],
    [0, 0, 0xE6, 0x66, 0x66, 0x6C, 0x78, 0x78, 0x6C, 0x66, 0x66, 0xE6, 0, 0, 0, 0],
    [0, 0, 0xF0, 0x60, 0x60, 0x60, 0x60, 0x60, 0x60, 0x62, 0x66, 0xFE, 0, 0, 0, 0],
    [0, 0, 0xC6, 0xEE, 0xFE, 0xFE, 0xD6, 0xC6, 0xC6, 0xC6, 0xC6, 0xC6, 0, 0, 0, 0],
    [0, 0, 0xC6, 0xE6, 0xF6, 0xFE, 0xDE, 0xCE, 0xC6, 0xC6, 0xC6, 0xC6, 0, 0, 0, 0],
    [0, 0, 0x7C, 0xC6, 0xC6, 0xC6, 0xC6, 0xC6, 0xC6, 0xC6, 0xC6, 0x7C, 0, 0, 0, 0],
    [0, 0, 0xFC, 0x66, 0x66, 0x66, 0x7C, 0x60, 0x60, 0x60, 0x60, 0xF0, 0, 0, 0, 0],
    [0, 0, 0x7C, 0xC6, 0xC6, 0xC6, 0xC6, 0xC6, 0xC6, 0xD6, 0xDE, 0x7C, 0x0C, 0x0E, 0, 0],
    [0, 0, 0xFC, 0x66, 0x66, 0x66, 0x7C, 0x6C, 0x66, 0x66, 0x66, 0xE6, 0, 0, 0, 0],
    [0, 0, 0x7C, 0xC6, 0xC6, 0x60, 0x38, 0x0C, 0x06, 0xC6, 0xC6, 0x7C, 0, 0, 0, 0],
    [0, 0, 0xFF, 0xDB, 0x99, 0x18, 0x18, 0x18, 0x18, 0x18, 0x18, 0x3C, 0, 0, 0, 0],
    [0, 0, 0xC6, 0xC6, 0xC6, 0xC6, 0xC6, 0xC6, 0xC6, 0xC6, 0xC6, 0x7C, 0, 0, 0, 0],
    [0, 0, 0xC6, 0xC6, 0xC6, 0xC6, 0xC6, 0xC6, 0xC6, 0x6C, 0x38, 0x10, 0, 0, 0, 0],
    [0, 0, 0xC6, 0xC6, 0xC6, 0xC6, 0xD6, 0xD6, 0xD6, 0xFE, 0xEE, 0x6C, 0, 0, 0, 0],
    [0, 0, 0xC6, 0xC6, 0x6C, 0x7C, 0x38, 0x38, 0x7C, 0x6C, 0xC6, 0xC6, 0, 0, 0, 0],
    [0, 0, 0xC6, 0xC6, 0xC6, 0x6C, 0x38, 0x18, 0x18, 0x18, 0x18, 0x3C, 0, 0, 0, 0],
    [0, 0, 0xFE, 0xC6, 0x86, 0x0C, 0x18, 0x30, 0x60, 0xC2, 0xC6, 0xFE, 0, 0, 0, 0],
    [0, 0, 0x3C, 0x30, 0x30, 0x30, 0x30, 0x30, 0x30, 0x30, 0x30, 0x3C, 0, 0, 0, 0],
    [0, 0, 0, 0x80, 0xC0, 0xE0, 0x70, 0x38, 0x1C, 0x0E, 0x06, 0x02, 0, 0, 0, 0],
    [0, 0, 0x3C, 0x0C, 0x0C, 0x0C, 0x0C, 0x0C, 0x0C, 0x0C, 0x0C, 0x3C, 0, 0, 0, 0],
    [0x10, 0x38, 0x6C, 0xC6, 0, 0, 0, 0, 0, 0, 0, 0, 0, 0, 0, 0],
    [0, 0, 0, 0, 0, 0, 0, 0, 0, 0, 0, 0, 0, 0xFF, 0, 0],
    [0x30, 0x30, 0x18, 0, 0, 0, 0, 0, 0, 0, 0, 0, 0, 0, 0, 0],
    [0, 0, 0, 0, 0, 0x78, 0x0C, 0x7C, 0xCC, 0xCC, 0xCC, 0x76, 0, 0, 0, 0],
    [0, 0, 0xE0, 0x60, 0x60, 0x78, 0x6C, 0x66, 0x66, 0x66, 0x66, 0x7C, 0, 0, 0, 0],
    [0, 0, 0, 0, 0, 0x7C, 0xC6, 0xC0, 0xC0, 0xC0, 0xC6, 0x7C, 0, 0, 0, 0],
    [0, 0, 0x1C, 0x0C, 0x0C, 0x3C, 0x6C, 0xCC, 0xCC, 0xCC, 0xCC, 0x76, 0, 0, 0, 0],
    [0, 0, 0, 0, 0, 0x7C, 0xC6, 0xFE, 0xC0, 0xC0, 0xC6, 0x7C, 0, 0, 0, 0],
    [0, 0, 0x1C, 0x36, 0x32, 0x30, 0x78, 0x30, 0x30, 0x30, 0x30, 0x78, 0, 0, 0, 0],
    [0, 0, 0, 0, 0, 0x76, 0xCC, 0xCC, 0xCC, 0xCC, 0xCC, 0x7C, 0x0C, 0xCC, 0x78, 0],
    [0, 0, 0xE0, 0x60, 0x60, 0x6C, 0x76, 0x66, 0x66, 0x66, 0x66, 0xE6, 0, 0, 0, 0],
    [0, 0, 0x18, 0x18, 0, 0x38, 0x18, 0x18, 0x18, 0x18, 0x18, 0x3C, 0, 0, 0, 0],
    [0, 0, 0x06, 0x06, 0, 0x0E, 0x06, 0x06, 0x06, 0x06, 0x06, 0x06, 0x66, 0x66, 0x3C, 0],
    [0, 0, 0xE0, 0x60, 0x60, 0x66, 0x6C, 0x78, 0x78, 0x6C, 0x66, 0xE6, 0, 0, 0, 0],
    [0, 0, 0x38, 0x18, 0x18, 0x18, 0x18, 0x18, 0x18, 0x18, 0x18, 0x3C, 0, 0, 0, 0],
    [0, 0, 0, 0, 0, 0xE6, 0xFF, 0xDB, 0xDB, 0xDB, 0xDB, 0xDB, 0, 0, 0, 0],
    [0, 0, 0, 0, 0, 0xDC, 0x66, 0x66, 0x66, 0x66, 0x66, 0x66, 0, 0, 0, 0],
    [0, 0, 0, 0, 0, 0x7C, 0xC6, 0xC6, 0xC6, 0xC6, 0xC6, 0x7C, 0, 0, 0, 0],
    [0, 0, 0, 0, 0, 0xDC, 0x66, 0x66, 0x66, 0x66, 0x66, 0x7C, 0x60, 0x60, 0xF0, 0],
    [0, 0, 0, 0, 0, 0x76, 0xCC, 0xCC, 0xCC, 0xCC, 0xCC, 0x7C, 0x0C, 0x0C, 0x1E, 0],
    [0, 0, 0, 0, 0, 0xDC, 0x76, 0x66, 0x60, 0x60, 0x60, 0xF0, 0, 0, 0, 0],
    [0, 0, 0, 0, 0, 0x7C, 0xC6, 0x60, 0x38, 0x0C, 0xC6, 0x7C, 0, 0, 0, 0],
    [0, 0, 0x10, 0x30, 0x30, 0xFC, 0x30, 0x30, 0x30, 0x30, 0x36, 0x1C, 0, 0, 0, 0],
    [0, 0, 0, 0, 0, 0xCC, 0xCC, 0xCC, 0xCC, 0xCC, 0xCC, 0x76, 0, 0, 0, 0],
    [0, 0, 0, 0, 0, 0xC6, 0xC6, 0xC6, 0xC6, 0xC6, 0x6C, 0x38, 0, 0, 0, 0],
    [0, 0, 0, 0, 0, 0xC6, 0xC6, 0xD6, 0xD6, 0xD6, 0xFE, 0x6C, 0, 0, 0, 0],
    [0, 0, 0, 0, 0, 0xC6, 0x6C, 0x38, 0x38, 0x38, 0x6C, 0xC6, 0, 0, 0, 0],
    [0, 0, 0, 0, 0, 0xC6, 0xC6, 0xC6, 0xC6, 0xC6, 0xC6, 0x7E, 0x06, 0x0C, 0xF8, 0],
    [0, 0, 0, 0, 0, 0xFE, 0xCC, 0x18, 0x30, 0x60, 0xC6, 0xFE, 0, 0, 0, 0],
    [0, 0, 0x0E, 0x18, 0x18, 0x18, 0x70, 0x18, 0x18, 0x18, 0x18, 0x0E, 0, 0, 0, 0],
    [0, 0, 0x18, 0x18, 0x18, 0x18, 0, 0x18, 0x18, 0x18, 0x18, 0x18, 0, 0, 0, 0],
    [0, 0, 0x70, 0x18, 0x18, 0x18, 0x0E, 0x18, 0x18, 0x18, 0x18, 0x70, 0, 0, 0, 0],
    [0, 0, 0x76, 0xDC, 0, 0, 0, 0, 0, 0, 0, 0, 0, 0, 0, 0]]"

definition innovatios_logo_pixels :: "u32 list" where
  "innovatios_logo_pixels = [
    0xFF5B6EE1, 0xFF5B6EE1, 0xFF5B6EE1, 0xFF5B6EE1, 0xFF5B6EE1, 0xFF5B6EE1, 0xFF5B6EE1, 0xFF5B6EE1,
    0xFF5B6EE1, 0xFF5B6EE1, 0xFF5B6EE1, 0xFF5B6EE1, 0xFF5B6EE1, 0xFF5B6EE1, 0xFF5B6EE1, 0xFF5B6EE1,
    0xFF5B6EE1, 0xFF5B6EE1, 0xFF5B6EE1, 0xFF5B6EE1, 0xFF5B6EE1, 0xFF5B6EE1, 0xFF5B6EE1, 0xFF5B6EE1,
    0xFF5B6EE1, 0xFF5B6EE1, 0xFF5B6EE1, 0xFF5B6EE1, 0xFF5B6EE1, 0xFF5B6EE1, 0xFF5B6EE1, 0xFF5B6EE1,
    0xFF5B6EE1, 0xFF5B6EE1, 0xFF5B6EE1, 0xFF5B6EE1, 0xFF5B6EE1, 0xFF5B6EE1, 0xFF5B6EE1, 0xFF5B6EE1,
    0xFF5B6EE1, 0xFF5B6EE1, 0xFF5B6EE1, 0xFF5B6EE1, 0xFF5B6EE1, 0xFF5B6EE1, 0xFF5B6EE1, 0xFF5B6EE1,
    0xFF5B6EE1, 0xFF5B6EE1, 0xFF5B6EE1, 0xFF5B6EE1, 0xFF5B6EE1, 0xFF000000, 0xFF000000, 0xFF000000,
    0xFF000000, 0xFF000000, 0xFF000000, 0xFF5B6EE1, 0xFF5B6EE1, 0xFF5B6EE1, 0xFF5B6EE1, 0xFF5B6EE1,
    0xFF5B6EE1, 0xFF5B6EE1, 0xFF5B6EE1, 0xFF5B6EE1, 0xFF5B6EE1, 0xFF5B6EE1, 0xFF5B6EE1, 0xFF000000,
    0xFF000000, 0xFF5B6EE1, 0xFF5B6EE1, 0xFF5B6EE1, 0xFF5B6EE1, 0xFF5B6EE1, 0xFF5B6EE1, 0xFF5B6EE1,
    0xFF5B6EE1, 0xFF5B6EE1, 0xFF5B6EE1, 0xFF5B6EE1, 0xFF5B6EE1, 0xFF5B6EE1, 0xFF5B6EE1, 0xFF000000,
    0xFF000000, 0xFF5B6EE1, 0xFF5B6EE1, 0xFF5B6EE1, 0xFF5B6EE1, 0xFF5B6EE1, 0xFF5B6EE1, 0xFF5B6EE1,
    0xFF5B6EE1, 0xFF5B6EE1, 0xFF5B6EE1, 0xFF5B6EE1, 0xFF5B6EE1, 0xFF5B6EE1, 0xFF5B6EE1, 0xFF000000,
    0xFF000000, 0xFF5B6EE1, 0xFF5B6EE1, 0xFF5B6EE1, 0xFF5B6EE1, 0xFF5B6EE1, 0xFF5B6EE1, 0xFF5B6EE1,
    0xFF5B6EE1, 0xFF5B6EE1, 0xFF5B6EE1, 0xFF5B6EE1, 0xFF5B6EE1, 0xFF5B6EE1, 0xFF5B6EE1, 0xFF000000,
    0xFF000000, 0xFF5B6EE1, 0xFF5B6EE1, 0xFF5B6EE1, 0xFF5B6EE1, 0xFF5B6EE1, 0xFF5B6EE1, 0xFF5B6EE1,
    0xFF5B6EE1, 0xFF5B6EE1, 0xFF5B6EE1, 0xFF5B6EE1, 0xFF5B6EE1, 0xFF5B6EE1, 0xFF5B6EE1, 0xFF000000,
    0xFF000000, 0xFF5B6EE1, 0xFF5B6EE1, 0xFF5B6EE1, 0xFF5B6EE1, 0xFF5B6EE1, 0xFF5B6EE1, 0xFF5B6EE1,
    0xFF5B6EE1, 0xFF5B6EE1, 0xFF5B6EE1, 0xFF5B6EE1, 0xFF5B6EE1, 0xFF5B6EE1, 0xFF5B6EE1, 0xFF000000,
    0xFF000000, 0xFF5B6EE1, 0xFF5B6EE1, 0xFF5B6EE1, 0xFF5B6EE1, 0xFF5B6EE1, 0xFF5B6EE1, 0xFF5B6EE1,
    0xFF5B6EE1, 0xFF5B6EE1, 0xFF5B6EE1, 0xFF5B6EE1, 0xFF5B6EE1, 0xFF5B6EE1, 0xFF5B6EE1, 0xFF000000,
    0xFF000000, 0xFF5B6EE1, 0xFF5B6EE1, 0xFF5B6EE1, 0xFF5B6EE1, 0xFF5B6EE1, 0xFF5B6EE1, 0xFF5B6EE1,
    0xFF5B6EE1, 0xFF5B6EE1, 0xFF5B6EE1, 0xFF5B6EE1, 0xFF5B6EE1, 0xFF5B6EE1, 0xFF5B6EE1, 0xFF000000,
    0xFF000000, 0xFF5B6EE1, 0xFF5B6EE1, 0xFF5B6EE1, 0xFF5B6EE1, 0xFF5B6EE1, 0xFF5B6EE1, 0xFF5B6EE1,
    0xFF5B6EE1, 0xFF5B6EE1, 0xFF5B6EE1, 0xFF5B6EE1, 0xFF5B6EE1, 0xFF5B6EE1, 0xFF5B6EE1, 0xFF000000,
    0xFF000000, 0xFF5B6EE1, 0xFF5B6EE1, 0xFF5B6EE1, 0xFF5B6EE1, 0xFF5B6EE1, 0xFF5B6EE1, 0xFF5B6EE1,
    0xFF5B6EE1, 0xFF5B6EE1, 0xFF5B6EE1, 0xFF5B6EE1, 0xFF5B6EE1, 0xFF5B6EE1, 0xFF5B6EE1, 0xFF000000,
    0xFF000000, 0xFF5B6EE1, 0xFF5B6EE1, 0xFF5B6EE1, 0xFF5B6EE1, 0xFF5B6EE1, 0xFF5B6EE1, 0xFF5B6EE1,
    0xFF5B6EE1, 0xFF5B6EE1, 0xFF5B6EE1, 0xFF5B6EE1, 0xFF5B6EE1, 0xFF000000, 0xFF000000, 0xFF000000,
    0xFF000000, 0xFF000000, 0xFF000000, 0xFF5B6EE1, 0xFF5B6EE1, 0xFF5B6EE1, 0xFF5B6EE1, 0xFF5B6EE1,
    0xFF5B6EE1, 0xFF5B6EE1, 0xFF5B6EE1, 0xFF5B6EE1, 0xFF5B6EE1, 0xFF5B6EE1, 0xFF5B6EE1, 0xFF5B6EE1,
    0xFF5B6EE1, 0xFF5B6EE1, 0xFF5B6EE1, 0xFF5B6EE1, 0xFF5B6EE1, 0xFF5B6EE1, 0xFF5B6EE1, 0xFF5B6EE1]"

definition innovatios_logo_image :: fb_image where
  "innovatios_logo_image = \<lparr>img_pixels = Some innovatios_logo_pixels, img_width = 16, img_height = 16\<rparr>"

text \<open>Every glyph has its 16 rows, and the space has no ink.\<close>

lemma font_shape: "length font8x16_glyphs = 95" "list_all (\<lambda>g. length g = 16) font8x16_glyphs"
  and font_space: "font8x16_glyphs ! 0 = replicate 16 0"
  by code_simp+

end
