(* ===== verification/Console.thy ===== *)
theory Console
  imports Assets Keyboard "HOL-Library.Monad_Syntax"
begin

text \<open>
  drivers/console.c: a grid of character cells drawn on the framebuffer, with a cursor, scrolling
  and the input of lines. The array of cells is a function of row and column. The input of a line
  reads the keyboard, with the scancodes that arrive while it waits.
\<close>

section \<open>Model\<close>

definition CON_MAX_COLS :: u64 where "CON_MAX_COLS = 240"
definition CON_MAX_ROWS :: u64 where "CON_MAX_ROWS = 67"
definition CON_WHITE :: u32 where "CON_WHITE = 0x00E0E0E0"
definition CON_COLOR_BG :: u32 where "CON_COLOR_BG = 0x00101014"

record cell =
  cell_ch :: u8
  cell_fg :: u32
  cell_bg :: u32

record console =
  con_fb :: framebuffer
  con_cols :: u64
  con_rows :: u64
  cur_col :: u64
  cur_row :: u64
  con_fg :: u32
  con_bg :: u32
  con_cells :: "nat \<Rightarrow> nat \<Rightarrow> cell"

text \<open>The type \<open>char\<close> is signed.\<close>

definition glyph_of :: "u8 \<Rightarrow> u8 list" where
  "glyph_of c =
    (if FONT_FIRST \<le> sint c \<and> sint c \<le> FONT_LAST then font8x16_glyphs ! nat (sint c - FONT_FIRST)
     else font8x16_glyphs ! 0)"

definition ink :: "u8 \<Rightarrow> nat \<Rightarrow> nat \<Rightarrow> bool" where
  "ink c x y \<longleftrightarrow> glyph_of c ! y AND drop_bit x 0x80 \<noteq> 0"

definition draw_char :: "framebuffer \<Rightarrow> u64 \<Rightarrow> u64 \<Rightarrow> u8 \<Rightarrow> u32 \<Rightarrow> u32 \<Rightarrow> framebuffer" where
  "draw_char fb col row c fg bg =
    (let px = col * FONT_CHAR_W; py = row * FONT_CHAR_H
     in foldl (\<lambda>fb y. foldl (\<lambda>fb x. fb_put_pixel fb (px + of_nat x) (py + of_nat y) (if ink c x y then fg else bg))
          fb [0..<8]) fb [0..<16])"

definition blank_cell :: "console \<Rightarrow> cell" where
  "blank_cell con = \<lparr>cell_ch = 32, cell_fg = con_fg con, cell_bg = con_bg con\<rparr>"

definition cells_clear :: "console \<Rightarrow> console" where
  "cells_clear con = con\<lparr>con_cells := (\<lambda>r c.
     if r < unat (con_rows con) \<and> c < unat (con_cols con) then blank_cell con else con_cells con r c)\<rparr>"

definition redraw_cell :: "console \<Rightarrow> framebuffer \<Rightarrow> nat \<times> nat \<Rightarrow> framebuffer" where
  "redraw_cell con fb p =
    (let cell = con_cells con (fst p) (snd p)
     in if cell_ch cell \<noteq> 32 \<or> cell_bg cell \<noteq> con_bg con
        then draw_char fb (of_nat (snd p)) (of_nat (fst p)) (cell_ch cell) (cell_fg cell) (cell_bg cell) else fb)"

definition redraw_all :: "console \<Rightarrow> console" where
  "redraw_all con =
    (let fb1 = fb_clear (con_fb con) (con_bg con);
         fb2 = foldl (redraw_cell con) fb1 (List.product [0..<unat (con_rows con)] [0..<unat (con_cols con)])
     in con\<lparr>con_fb := fb_present fb2\<rparr>)"

definition scroll_up :: "console \<Rightarrow> console" where
  "scroll_up con =
    (let above = (\<lambda>r c. if r < unat (con_rows con - 1) \<and> c < unat (con_cols con)
           then con_cells con (r + 1) c else con_cells con r c);
         last_row = unat (con_rows con - 1)
     in redraw_all (con\<lparr>con_cells := (\<lambda>r c.
          if r = last_row \<and> c < unat (con_cols con) then blank_cell con else above r c)\<rparr>))"

definition console_init :: "framebuffer \<Rightarrow> (nat \<Rightarrow> nat \<Rightarrow> cell) \<Rightarrow> console" where
  "console_init fb cells =
    (let cols = fb_width fb div FONT_CHAR_W; rows = fb_height fb div FONT_CHAR_H;
         con = cells_clear \<lparr>con_fb = fb, con_cols = (if CON_MAX_COLS < cols then CON_MAX_COLS else cols),
           con_rows = (if CON_MAX_ROWS < rows then CON_MAX_ROWS else rows), cur_col = 0, cur_row = 0,
           con_fg = CON_WHITE, con_bg = CON_COLOR_BG, con_cells = cells\<rparr>
     in con\<lparr>con_fb := fb_present (fb_clear (con_fb con) (con_bg con))\<rparr>)"

definition console_set_color :: "console \<Rightarrow> u32 \<Rightarrow> u32 \<Rightarrow> console" where
  "console_set_color con fg bg = con\<lparr>con_fg := fg, con_bg := bg\<rparr>"

definition console_set_cursor :: "console \<Rightarrow> u64 \<Rightarrow> u64 \<Rightarrow> console" where
  "console_set_cursor con col row =
    (let con1 = (if col < con_cols con then con\<lparr>cur_col := col\<rparr> else con)
     in if row < con_rows con1 then con1\<lparr>cur_row := row\<rparr> else con1)"

definition console_clear :: "console \<Rightarrow> console" where
  "console_clear con =
    (let con1 = cells_clear (con\<lparr>cur_col := 0, cur_row := 0\<rparr>)
     in con1\<lparr>con_fb := fb_present (fb_clear (con_fb con1) (con_bg con1))\<rparr>)"

text \<open>The start of a new line, at a newline and at the end of a row.\<close>

definition next_line :: "console \<Rightarrow> console" where
  "next_line con =
    (let con1 = con\<lparr>cur_col := 0, cur_row := cur_row con + 1\<rparr>
     in if con_rows con1 \<le> cur_row con1 then scroll_up (con1\<lparr>cur_row := con_rows con1 - 1\<rparr>) else con1)"

text \<open>A character in the cell under the cursor, on the grid and on the back buffer.\<close>

definition set_cell :: "console \<Rightarrow> u8 \<Rightarrow> console" where
  "set_cell con c = con\<lparr>
     con_cells := (con_cells con)(unat (cur_row con) := (con_cells con (unat (cur_row con)))(unat (cur_col con) :=
        \<lparr>cell_ch = c, cell_fg = con_fg con, cell_bg = con_bg con\<rparr>)),
     con_fb := draw_char (con_fb con) (cur_col con) (cur_row con) c (con_fg con) (con_bg con)\<rparr>"

definition put_visible :: "console \<Rightarrow> u8 \<Rightarrow> console" where
  "put_visible con c =
    (let con1 = set_cell (if con_cols con \<le> cur_col con then next_line con else con) c
     in con1\<lparr>cur_col := cur_col con1 + 1\<rparr>)"

definition console_putc :: "console \<Rightarrow> u8 \<Rightarrow> console" where
  "console_putc con c =
    (if c = 10 then next_line con
     else if c = 8 then
       (if 0 < cur_col con
        then (let con1 = set_cell (con\<lparr>cur_col := cur_col con - 1\<rparr>) 32 in con1\<lparr>con_fb := fb_present (con_fb con1)\<rparr>)
        else con)
     else if c = 9 then foldl (\<lambda>con _. put_visible con 32) con [0..<unat (4 - cur_col con mod 4)]
     else put_visible con c)"

definition console_puts :: "console \<Rightarrow> u8 list \<Rightarrow> console" where
  "console_puts con s =
    (let con1 = foldl console_putc con s in con1\<lparr>con_fb := fb_present (con_fb con1)\<rparr>)"

definition console_puts_color :: "console \<Rightarrow> u8 list \<Rightarrow> u32 \<Rightarrow> console" where
  "console_puts_color con s fg = (console_puts (con\<lparr>con_fg := fg\<rparr>) s)\<lparr>con_fg := con_fg con\<rparr>"

section \<open>Input\<close>

text \<open>The buffer is zero from the position on: it is the list of the characters before it.\<close>

partial_function (option) readline_loop ::
  "console \<Rightarrow> keyboard \<Rightarrow> u8 list \<Rightarrow> u64 \<Rightarrow> u8 \<Rightarrow> u8 list \<Rightarrow> (console \<times> keyboard \<times> u8 list \<times> u8 list) option" where
  "readline_loop con kb arriving len echo_mask line =
    do {
      (kb1, c, rest) \<leftarrow> keyboard_read_char kb arriving;
      if c = 10 then Some (console_putc con 10, kb1, rest, line)
      else if c = 8 then
        (if line \<noteq> [] then readline_loop (console_putc con 8) kb1 rest len echo_mask (butlast line)
         else readline_loop con kb1 rest len echo_mask line)
      else if of_nat (length line) < len - 1 \<and> 32 \<le> sint c then
        (let con1 = console_putc con (if echo_mask \<noteq> 0 then echo_mask else c)
         in readline_loop (con1\<lparr>con_fb := fb_present (con_fb con1)\<rparr>) kb1 rest len echo_mask (line @ [c]))
      else readline_loop con kb1 rest len echo_mask line
    }"

definition console_readline ::
  "console \<Rightarrow> keyboard \<Rightarrow> u8 list \<Rightarrow> u64 \<Rightarrow> u8 \<Rightarrow> (console \<times> keyboard \<times> u8 list \<times> u8 list) option" where
  "console_readline con kb arriving len echo_mask = readline_loop con kb arriving len echo_mask []"

section \<open>What a character draws\<close>

lemma foldl_keeps: "(\<And>s x. f (g s x) = f s) \<Longrightarrow> f (foldl g s xs) = f s"
  by (induction xs arbitrary: s) simp_all

lemma draw_char_dims [simp]:
  "fb_w (draw_char fb col row c fg bg) = fb_w fb" "fb_h (draw_char fb col row c fg bg) = fb_h fb"
  "fb_ok (draw_char fb col row c fg bg) = fb_ok fb"
  by (simp_all add: draw_char_def Let_def foldl_keeps)

lemma draw_glyph_row:
  assumes "fb_ok fb" and "i < unat (fb_w fb)" and "j < unat (fb_h fb)" and "unat px + n < 2 ^ 64"
  shows "pixel (foldl (\<lambda>fb x. fb_put_pixel fb (px + of_nat x) qy (col x)) fb [0..<n]) i j
    = (if j = unat qy \<and> unat px \<le> i \<and> i < unat px + n then col (i - unat px) else pixel fb i j)"
  using assms(4)
proof (induction n)
  case (Suc n)
  have "unat (px + of_nat n) = unat px + n"
    using Suc.prems by (subst unat_add_no_wrap) (simp_all add: unat_of_nat take_bit_nat_eq_self)
  moreover have "fb_ok (foldl (\<lambda>fb x. fb_put_pixel fb (px + of_nat x) qy (col x)) fb [0..<n])"
    "fb_w (foldl (\<lambda>fb x. fb_put_pixel fb (px + of_nat x) qy (col x)) fb [0..<n]) = fb_w fb"
    "fb_h (foldl (\<lambda>fb x. fb_put_pixel fb (px + of_nat x) qy (col x)) fb [0..<n]) = fb_h fb"
    using assms(1) by (simp_all add: foldl_keeps)
  ultimately show ?case using Suc assms(2,3) by (simp add: pixel_put) auto
qed auto

lemma draw_glyph_rows:
  assumes "fb_ok fb" and "i < unat (fb_w fb)" and "j < unat (fb_h fb)"
    and "unat px + 8 < 2 ^ 64" and "unat py + n < 2 ^ 64"
  shows "pixel (foldl (\<lambda>fb y. foldl (\<lambda>fb x. fb_put_pixel fb (px + of_nat x) (py + of_nat y) (col x y)) fb [0..<8]) fb [0..<n]) i j
    = (if unat py \<le> j \<and> j < unat py + n \<and> unat px \<le> i \<and> i < unat px + 8
       then col (i - unat px) (j - unat py) else pixel fb i j)"
  using assms(5)
proof (induction n)
  case (Suc n)
  let ?f = "\<lambda>fb y. foldl (\<lambda>fb x. fb_put_pixel fb (px + of_nat x) (py + of_nat y) (col x y)) fb [0..<8]"
  have "unat (py + of_nat n) = unat py + n"
    using Suc.prems by (subst unat_add_no_wrap) (simp_all add: unat_of_nat take_bit_nat_eq_self)
  moreover have "fb_ok (foldl ?f fb [0..<n])" "fb_w (foldl ?f fb [0..<n]) = fb_w fb" "fb_h (foldl ?f fb [0..<n]) = fb_h fb"
    using assms(1) by (simp_all add: foldl_keeps)
  ultimately have "pixel (?f (foldl ?f fb [0..<n]) n) i j
      = (if j = unat py + n \<and> unat px \<le> i \<and> i < unat px + 8 then col (i - unat px) n else pixel (foldl ?f fb [0..<n]) i j)"
    using assms(2,3,4) draw_glyph_row [of "foldl ?f fb [0..<n]" i j px 8 "py + of_nat n" "\<lambda>x. col x n"] by simp
  then show ?case using Suc by (simp del: upt_Suc add: upt_Suc_append)
qed auto

lemma block_split: "8 * c \<le> i \<and> i < 8 * c + 8 \<longleftrightarrow> i div 8 = (c :: nat)" "16 * r \<le> j \<and> j < 16 * r + 16 \<longleftrightarrow> j div 16 = (r :: nat)"
  by auto

lemma draw_char_pixel:
  assumes "fb_ok fb" and "i < unat (fb_w fb)" and "j < unat (fb_h fb)" and "unat col \<le> 240" and "unat row \<le> 67"
  shows "pixel (draw_char fb col row c fg bg) i j
    = (if i div 8 = unat col \<and> j div 16 = unat row then (if ink c (i mod 8) (j mod 16) then fg else bg) else pixel fb i j)"
proof -
  have px: "unat (col * FONT_CHAR_W) = 8 * unat col" and py: "unat (row * FONT_CHAR_H) = 16 * unat row"
    using assms(4,5) by (simp_all add: FONT_CHAR_W_def FONT_CHAR_H_def unat_mult_small)
  have "i div 8 = unat col \<Longrightarrow> i - 8 * unat col = i mod 8" "j div 16 = unat row \<Longrightarrow> j - 16 * unat row = j mod 16"
    by (metis minus_mult_div_eq_mod)+
  then show ?thesis
    using draw_glyph_rows [OF assms(1-3), of "col * FONT_CHAR_W" "row * FONT_CHAR_H" 16 "\<lambda>x y. if ink c x y then fg else bg"] assms(4,5)
    by (simp add: draw_char_def Let_def px py block_split [symmetric])
qed

section \<open>The screen shows the grid\<close>

text \<open>The grid fits its array and the screen, and the cursor is in it or just behind a row's end.\<close>

definition con_ok :: "console \<Rightarrow> bool" where
  "con_ok con \<longleftrightarrow> fb_ok (con_fb con) \<and> 8 * unat (con_cols con) \<le> unat (fb_w (con_fb con))
     \<and> 16 * unat (con_rows con) \<le> unat (fb_h (con_fb con))
     \<and> 1 \<le> con_cols con \<and> con_cols con \<le> CON_MAX_COLS \<and> 1 \<le> con_rows con \<and> con_rows con \<le> CON_MAX_ROWS
     \<and> cur_row con < con_rows con \<and> cur_col con \<le> con_cols con"

definition cell_pixel :: "cell \<Rightarrow> nat \<Rightarrow> nat \<Rightarrow> u32" where
  "cell_pixel cell x y = (if ink (cell_ch cell) x y then cell_fg cell else cell_bg cell)"

text \<open>Every pixel of the grid has the colour that its cell gives it.\<close>

definition coherent :: "console \<Rightarrow> bool" where
  "coherent con \<longleftrightarrow> (\<forall>i < 8 * unat (con_cols con). \<forall>j < 16 * unat (con_rows con).
     pixel (con_fb con) i j = cell_pixel (con_cells con (j div 16) (i div 8)) (i mod 8) (j mod 16))"

lemma coherentD:
  "coherent con \<Longrightarrow> i < 8 * unat (con_cols con) \<Longrightarrow> j < 16 * unat (con_rows con) \<Longrightarrow>
    pixel (con_fb con) i j = cell_pixel (con_cells con (j div 16) (i div 8)) (i mod 8) (j mod 16)"
  by (simp add: coherent_def)

lemma con_ok_bounds:
  assumes "con_ok con"
  shows "fb_ok (con_fb con)" "8 * unat (con_cols con) \<le> unat (fb_w (con_fb con))"
    "16 * unat (con_rows con) \<le> unat (fb_h (con_fb con))" "0 < unat (con_cols con)" "unat (con_cols con) \<le> 240"
    "0 < unat (con_rows con)" "unat (con_rows con) \<le> 67" "unat (cur_row con) < unat (con_rows con)"
    "unat (cur_col con) \<le> unat (con_cols con)"
  using assms by (auto simp: con_ok_def CON_MAX_COLS_def CON_MAX_ROWS_def word_le_nat_alt word_less_nat_alt)

lemma space_no_ink: "x < 8 \<Longrightarrow> y < 16 \<Longrightarrow> \<not> ink 32 x y"
  by (simp add: ink_def glyph_of_def FONT_FIRST_def FONT_LAST_def font_space)

lemma blank_pixel: "x < 8 \<Longrightarrow> y < 16 \<Longrightarrow> cell_ch cell = 32 \<Longrightarrow> cell_pixel cell x y = cell_bg cell"
  by (simp add: cell_pixel_def space_no_ink)

lemma redraw_dims [simp]:
  "fb_w (redraw_cell con fb p) = fb_w fb" "fb_h (redraw_cell con fb p) = fb_h fb" "fb_ok (redraw_cell con fb p) = fb_ok fb"
  by (simp_all add: redraw_cell_def Let_def)

lemma redraw_cells_pixel:
  assumes "fb_ok fb" and "i < unat (fb_w fb)" and "j < unat (fb_h fb)"
    and "\<forall>p \<in> set ps. fst p \<le> 67 \<and> snd p \<le> 240"
  shows "pixel (foldl (redraw_cell con) fb ps) i j
    = (let cell = con_cells con (j div 16) (i div 8)
       in if (j div 16, i div 8) \<in> set ps \<and> (cell_ch cell \<noteq> 32 \<or> cell_bg cell \<noteq> con_bg con)
          then cell_pixel cell (i mod 8) (j mod 16) else pixel fb i j)"
  using assms(4)
proof (induction ps rule: rev_induct)
  case (snoc p ps)
  let ?fb = "foldl (redraw_cell con) fb ps"
  have dims: "fb_ok ?fb" "fb_w ?fb = fb_w fb" "fb_h ?fb = fb_h fb" using assms(1) by (simp_all add: foldl_keeps)
  obtain r c where p: "p = (r, c)" by (cases p)
  then have "unat (of_nat c :: u64) = c" "unat (of_nat r :: u64) = r" "c \<le> 240" "r \<le> 67"
    using snoc.prems by (simp_all add: unat_of_nat take_bit_nat_eq_self)
  then have "pixel (redraw_cell con ?fb p) i j
    = (if j div 16 = r \<and> i div 8 = c \<and> (cell_ch (con_cells con r c) \<noteq> 32 \<or> cell_bg (con_cells con r c) \<noteq> con_bg con)
       then cell_pixel (con_cells con r c) (i mod 8) (j mod 16) else pixel ?fb i j)"
    using assms(2,3) dims by (auto simp: p redraw_cell_def Let_def draw_char_pixel cell_pixel_def)
  with snoc show ?case by (auto simp: p Let_def)
qed (simp add: Let_def)

lemma redraw_all_fields [simp]:
  "con_cells (redraw_all con) = con_cells con" "con_cols (redraw_all con) = con_cols con"
  "con_rows (redraw_all con) = con_rows con" "cur_col (redraw_all con) = cur_col con"
  "cur_row (redraw_all con) = cur_row con" "con_fg (redraw_all con) = con_fg con" "con_bg (redraw_all con) = con_bg con"
  "fb_w (con_fb (redraw_all con)) = fb_w (con_fb con)" "fb_h (con_fb (redraw_all con)) = fb_h (con_fb con)"
  "fb_ok (con_fb (redraw_all con)) = fb_ok (con_fb con)"
  by (simp_all add: redraw_all_def Let_def foldl_keeps)

lemma redraw_all_coherent:
  assumes "con_ok con"
  shows "coherent (redraw_all con)"
  unfolding coherent_def
proof (intro allI impI)
  note b = con_ok_bounds [OF assms]
  let ?ps = "List.product [0..<unat (con_rows con)] [0..<unat (con_cols con)]"
  fix i j assume ij: "i < 8 * unat (con_cols (redraw_all con))" "j < 16 * unat (con_rows (redraw_all con))"
  then have i: "i < unat (fb_w (con_fb con))" and j: "j < unat (fb_h (con_fb con))" using b(2,3) by simp_all
  have mem: "(j div 16, i div 8) \<in> set ?ps" using ij by (auto simp: less_mult_imp_div_less)
  have "\<forall>p \<in> set ?ps. fst p \<le> 67 \<and> snd p \<le> 240" using b(5,7) by auto
  from redraw_cells_pixel [of "fb_clear (con_fb con) (con_bg con)" i j, OF _ _ _ this, of con] mem i j b(1)
  show "pixel (con_fb (redraw_all con)) i j
    = cell_pixel (con_cells (redraw_all con) (j div 16) (i div 8)) (i mod 8) (j mod 16)"
    by (auto simp: redraw_all_def Let_def clear_pixel blank_pixel)
qed

definition con_wf :: "console \<Rightarrow> bool" where
  "con_wf con \<longleftrightarrow> con_ok con \<and> coherent con"

lemma con_wf_cong:
  assumes "con_wf con" and "con_fb con' = con_fb con" and "con_cols con' = con_cols con" and "con_rows con' = con_rows con"
    and "con_cells con' = con_cells con" and "cur_row con' < con_rows con" and "cur_col con' \<le> con_cols con"
  shows "con_wf con'"
  using assms by (simp add: con_wf_def con_ok_def coherent_def)

lemma wf_cursor_in: "con_wf con \<Longrightarrow> cur_row con < con_rows con \<and> cur_col con \<le> con_cols con"
  by (simp add: con_wf_def con_ok_def)

lemma wf_present: "con_wf con \<Longrightarrow> con_wf (con\<lparr>con_fb := fb_present (con_fb con)\<rparr>)"
  by (simp add: con_wf_def con_ok_def coherent_def)

lemma wf_colors: "con_wf con \<Longrightarrow> con_wf (console_set_color con fg bg)" "con_wf con \<Longrightarrow> con_wf (con\<lparr>con_fg := fg\<rparr>)"
  by (simp_all add: console_set_color_def con_wf_def con_ok_def coherent_def)

lemma wf_cursor: "con_wf con \<Longrightarrow> con_wf (console_set_cursor con col row)"
  by (auto simp: console_set_cursor_def Let_def con_wf_def con_ok_def coherent_def)

text \<open>A grid of blanks on a cleared screen.\<close>

lemma wf_blank:
  assumes "con_ok con"
  shows "con_wf ((cells_clear con)\<lparr>con_fb := fb_present (fb_clear (con_fb con) (con_bg con))\<rparr>)"
proof -
  note b = con_ok_bounds [OF assms]
  let ?con = "(cells_clear con)\<lparr>con_fb := fb_present (fb_clear (con_fb con) (con_bg con))\<rparr>"
  have "con_ok ?con" using assms by (simp add: con_ok_def cells_clear_def)
  moreover have "coherent ?con" unfolding coherent_def
  proof (intro allI impI)
    fix i j assume "i < 8 * unat (con_cols ?con)" "j < 16 * unat (con_rows ?con)"
    then have ij: "i < 8 * unat (con_cols con)" "j < 16 * unat (con_rows con)" by (simp_all add: cells_clear_def)
    then have "i div 8 < unat (con_cols con)" "j div 16 < unat (con_rows con)" by (simp_all add: less_mult_imp_div_less)
    then show "pixel (con_fb ?con) i j = cell_pixel (con_cells ?con (j div 16) (i div 8)) (i mod 8) (j mod 16)"
      using b(1-3) ij by (simp add: cells_clear_def clear_pixel blank_pixel blank_cell_def)
  qed
  ultimately show ?thesis by (simp add: con_wf_def)
qed

lemma wf_clear: "con_wf con \<Longrightarrow> con_wf (console_clear con)"
proof -
  assume "con_wf con"
  then have "con_ok (con\<lparr>cur_col := 0, cur_row := 0\<rparr>)" by (auto simp: con_wf_def con_ok_def word_le_nat_alt word_less_nat_alt)
  from wf_blank [OF this] show "con_wf (console_clear con)" by (simp add: console_clear_def cells_clear_def)
qed

lemma wf_init:
  assumes "fb_ok fb" and "8 \<le> fb_w fb" and "16 \<le> fb_h fb"
  shows "con_wf (console_init fb cells)"
proof -
  let ?cols = "fb_width fb div FONT_CHAR_W" and ?rows = "fb_height fb div FONT_CHAR_H"
  let ?con = "\<lparr>con_fb = fb, con_cols = (if CON_MAX_COLS < ?cols then CON_MAX_COLS else ?cols),
      con_rows = (if CON_MAX_ROWS < ?rows then CON_MAX_ROWS else ?rows), cur_col = 0, cur_row = 0,
      con_fg = CON_WHITE, con_bg = CON_COLOR_BG, con_cells = cells\<rparr>"
  have c: "unat ?cols = unat (fb_w fb) div 8" and r: "unat ?rows = unat (fb_h fb) div 16"
    by (simp_all add: fb_width_def fb_height_def FONT_CHAR_W_def FONT_CHAR_H_def unat_div)
  have "1 \<le> unat (fb_w fb) div 8" "1 \<le> unat (fb_h fb) div 16"
    using assms(2,3) by (simp_all add: word_le_nat_alt)
  then have "con_ok ?con" using assms(1) c r
    by (auto simp: con_ok_def word_le_nat_alt word_less_nat_alt CON_MAX_COLS_def CON_MAX_ROWS_def)
  from wf_blank [OF this] show ?thesis
    by (simp add: console_init_def Let_def cells_clear_def blank_cell_def)
qed

lemma wf_next_line:
  assumes "con_wf con"
  shows "con_wf (next_line con) \<and> cur_col (next_line con) = 0"
proof -
  have ok: "con_ok con" using assms by (simp add: con_wf_def)
  note b = con_ok_bounds [OF ok]
  have row: "unat (cur_row con + 1) = Suc (unat (cur_row con))"
    using unat_plus_1 [of "cur_row con" "con_rows con"] ok by (simp add: con_ok_def)
  show ?thesis
  proof (cases "con_rows con \<le> cur_row con + 1")
    case True
    let ?con = "con\<lparr>cur_col := 0, cur_row := con_rows con - 1\<rparr>"
    have "con_rows con - 1 < con_rows con" using ok by (simp add: con_ok_def word_less_nat_alt unat_sub word_le_nat_alt)
    then have "con_ok (?con\<lparr>con_cells := f\<rparr>)" for f using ok by (simp add: con_ok_def word_le_nat_alt)
    from this redraw_all_coherent [OF this] True show ?thesis
      by (simp add: next_line_def scroll_up_def Let_def con_wf_def con_ok_def)
  next
    case False
    then have "cur_row con + 1 < con_rows con" by simp
    with assms False show ?thesis by (auto simp: next_line_def Let_def intro: con_wf_cong)
  qed
qed

lemma wf_set_cell:
  assumes "con_wf con" and "cur_col con < con_cols con"
  shows "con_wf (set_cell con c)"
proof -
  have ok: "con_ok con" and co: "coherent con" using assms(1) by (simp_all add: con_wf_def)
  note b = con_ok_bounds [OF ok]
  have "con_ok (set_cell con c)" using ok by (simp add: con_ok_def set_cell_def)
  moreover have "coherent (set_cell con c)" unfolding coherent_def
  proof (intro allI impI)
    fix i j assume "i < 8 * unat (con_cols (set_cell con c))" "j < 16 * unat (con_rows (set_cell con c))"
    then have ij: "i < 8 * unat (con_cols con)" "j < 16 * unat (con_rows con)" by (simp_all add: set_cell_def)
    have "unat (cur_col con) \<le> 240" "unat (cur_row con) \<le> 67" using b by auto
    from draw_char_pixel [OF b(1) _ _ this, of i j] coherentD [OF co ij] ij b(2,3)
    show "pixel (con_fb (set_cell con c)) i j
      = cell_pixel (con_cells (set_cell con c) (j div 16) (i div 8)) (i mod 8) (j mod 16)"
      by (auto simp: set_cell_def cell_pixel_def)
  qed
  ultimately show ?thesis by (simp add: con_wf_def)
qed

lemma set_cell_fields [simp]:
  "con_cols (set_cell con c) = con_cols con" "con_rows (set_cell con c) = con_rows con"
  "cur_col (set_cell con c) = cur_col con" "cur_row (set_cell con c) = cur_row con"
  "con_fg (set_cell con c) = con_fg con" "con_bg (set_cell con c) = con_bg con"
  by (simp_all add: set_cell_def)

lemma next_line_cols [simp]: "con_cols (next_line con) = con_cols con" "con_fg (next_line con) = con_fg con"
  "con_bg (next_line con) = con_bg con" "con_rows (next_line con) = con_rows con"
  by (simp_all add: next_line_def scroll_up_def Let_def)

lemma wf_put_visible:
  assumes "con_wf con"
  shows "con_wf (put_visible con c)"
proof -
  let ?con = "if con_cols con \<le> cur_col con then next_line con else con"
  have wf: "con_wf ?con" using assms wf_next_line by simp
  then have "1 \<le> con_cols ?con" "cur_row ?con < con_rows ?con" by (simp_all only: con_wf_def con_ok_def)
  then have col: "cur_col ?con < con_cols ?con"
    using wf_next_line [OF assms] by (auto simp: word_le_nat_alt word_less_nat_alt)
  from col have "cur_col ?con + 1 \<le> con_cols ?con" by (rule inc_le)
  then show ?thesis using wf_set_cell [OF wf col, of c] \<open>cur_row ?con < con_rows ?con\<close>
    by (auto simp: put_visible_def Let_def intro: con_wf_cong)
qed

lemma wf_putc: "con_wf con \<Longrightarrow> con_wf (console_putc con c)"
proof -
  assume wf: "con_wf con"
  have tab: "con_wf (foldl (\<lambda>con _. put_visible con 32) con xs)" for xs :: "nat list"
    using wf by (induction xs arbitrary: con) (simp_all add: wf_put_visible)
  have bs: "con_wf (set_cell (con\<lparr>cur_col := cur_col con - 1\<rparr>) 32)" if "0 < cur_col con"
  proof -
    have "cur_col con - 1 < cur_col con" using that by (simp add: word_less_nat_alt unat_sub word_le_nat_alt)
    moreover have "cur_col con \<le> con_cols con" "cur_row con < con_rows con" using wf by (simp_all add: con_wf_def con_ok_def)
    ultimately show ?thesis using wf by (intro wf_set_cell) (auto intro: con_wf_cong)
  qed
  show ?thesis using wf wf_next_line tab wf_present [OF bs] wf_put_visible
    by (simp add: console_putc_def Let_def)
qed

lemma wf_puts: "con_wf con \<Longrightarrow> con_wf (console_puts con s)" "con_wf con \<Longrightarrow> con_wf (console_puts_color con s fg)"
proof -
  have f: "con_wf con \<Longrightarrow> con_wf (foldl console_putc con s)" for con by (induction s arbitrary: con) (simp_all add: wf_putc)
  then show p: "con_wf con \<Longrightarrow> con_wf (console_puts con s)" for con by (simp add: console_puts_def Let_def wf_present)
  show "con_wf con \<Longrightarrow> con_wf (console_puts_color con s fg)"
    by (simp add: console_puts_color_def wf_colors p)
qed

text \<open>What a client of the console can do.\<close>

datatype con_op = Put_char u8 | Put_text "u8 list" | Put_colored "u8 list" u32 | Clear_screen
  | Set_color u32 u32 | Set_cursor u64 u64

fun con_step :: "console \<Rightarrow> con_op \<Rightarrow> console" where
  "con_step con (Put_char c) = console_putc con c"
| "con_step con (Put_text s) = console_puts con s"
| "con_step con (Put_colored s fg) = console_puts_color con s fg"
| "con_step con Clear_screen = console_clear con"
| "con_step con (Set_color fg bg) = console_set_color con fg bg"
| "con_step con (Set_cursor col row) = console_set_cursor con col row"

lemma wf_run: "con_wf con \<Longrightarrow> con_wf (foldl con_step con ops)"
proof (induction ops arbitrary: con)
  case (Cons opn ops)
  then have "con_wf (con_step con opn)"
    by (cases opn) (simp_all add: wf_putc wf_puts wf_clear wf_colors wf_cursor)
  then show ?case using Cons.IH by simp
qed simp

text \<open>C7. On a screen that holds at least one cell, whatever is printed, cleared, coloured or moved to,
  the cursor stays in the grid, so that no cell outside the array is written, and the back
  buffer shows every cell of the grid as its character in its colours, scrolling included.\<close>

theorem console_display:
  fixes fb :: framebuffer and cells :: "nat \<Rightarrow> nat \<Rightarrow> cell" and ops :: "con_op list"
  assumes "fb_ok fb" and "8 \<le> fb_w fb" and "16 \<le> fb_h fb"
  defines "con \<equiv> foldl con_step (console_init fb cells) ops"
  shows "cur_row con < con_rows con \<and> cur_col con \<le> con_cols con \<and> con_rows con \<le> CON_MAX_ROWS \<and> con_cols con \<le> CON_MAX_COLS
    \<and> (\<forall>i < 8 * unat (con_cols con). \<forall>j < 16 * unat (con_rows con).
        pixel (con_fb con) i j = cell_pixel (con_cells con (j div 16) (i div 8)) (i mod 8) (j mod 16))"
proof -
  have "con_wf con" unfolding con_def by (rule wf_run [OF wf_init [OF assms(1-3)]])
  then show ?thesis unfolding con_wf_def con_ok_def coherent_def by blast
qed

theorem console_display_witness:
  "let con = foldl con_step (console_init (fb_init (\<lambda>_. 0) 640 480 2560 32) (\<lambda>_ _. undefined)) [Put_text (cs ''hello''), Set_cursor 3 29, Put_char 10]
   in cur_row con < con_rows con \<and> con_rows con \<le> 67"
proof -
  let ?fb = "fb_init (\<lambda>_. 0) 640 480 2560 32"
  have "8 \<le> fb_w ?fb" "16 \<le> fb_h ?fb" by (simp_all add: fb_init_def FB_MAX_WIDTH_def FB_MAX_HEIGHT_def)
  from console_display [OF fb_init_ok this] show ?thesis by (simp add: Let_def CON_MAX_ROWS_def del: foldl_Cons cs_simps)
qed

section \<open>Text on the grid\<close>

lemma puts_text_fold:
  assumes "con_wf con" and "set s \<inter> {8, 9, 10} = {}" and "unat (cur_col con) + length s \<le> unat (con_cols con)"
  shows "let con' = foldl console_putc con s
    in cur_row con' = cur_row con \<and> unat (cur_col con') = unat (cur_col con) + length s
      \<and> con_fg con' = con_fg con \<and> con_bg con' = con_bg con
      \<and> (\<forall>r c. con_cells con' r c =
          (if r = unat (cur_row con) \<and> unat (cur_col con) \<le> c \<and> c < unat (cur_col con) + length s
           then \<lparr>cell_ch = s ! (c - unat (cur_col con)), cell_fg = con_fg con, cell_bg = con_bg con\<rparr>
           else con_cells con r c))"
  using assms
proof (induction s arbitrary: con)
  case (Cons x s)
  then have x: "x \<noteq> 8" "x \<noteq> 9" "x \<noteq> 10" and len: "unat (cur_col con) < unat (con_cols con)" by auto
  then have col: "\<not> con_cols con \<le> cur_col con" "cur_col con < con_cols con" by (simp_all add: word_less_nat_alt word_le_nat_alt)
  let ?con = "console_putc con x"
  have step: "?con = (set_cell con x)\<lparr>cur_col := cur_col con + 1\<rparr>"
    using x col by (simp add: console_putc_def put_visible_def Let_def)
  have next_col: "unat (cur_col con + 1) = Suc (unat (cur_col con))" using unat_plus_1 [OF col(2)] by simp
  have "con_wf ?con" using Cons.prems(1) by (rule wf_putc)
  from Cons.IH [OF this] Cons.prems(2,3)
  show ?case by (auto simp: step Let_def next_col) (auto simp: set_cell_def nth_Cons')
qed (auto simp: Let_def)

text \<open>Text without control characters that fits on the cursor's row goes into the cells from the
  cursor on, in the current colours; the cursor moves behind it and no other cell changes.\<close>

theorem console_puts_text:
  assumes "con_wf con" and "set s \<inter> {8, 9, 10} = {}" and "unat (cur_col con) + length s \<le> unat (con_cols con)"
  shows "unat (cur_col (console_puts con s)) = unat (cur_col con) + length s \<and> cur_row (console_puts con s) = cur_row con
    \<and> con_cells (console_puts con s) r c
      = (if r = unat (cur_row con) \<and> unat (cur_col con) \<le> c \<and> c < unat (cur_col con) + length s
         then \<lparr>cell_ch = s ! (c - unat (cur_col con)), cell_fg = con_fg con, cell_bg = con_bg con\<rparr>
         else con_cells con r c)"
  using puts_text_fold [OF assms] by (simp add: console_puts_def Let_def)

definition vga :: console where
  "vga = console_init (fb_init (\<lambda>_. 0) 640 480 2560 32) (\<lambda>_ _. \<lparr>cell_ch = 0, cell_fg = 0, cell_bg = 0\<rparr>)"

lemma vga_wf: "con_wf vga" "cur_col vga = 0" "cur_row vga = 0" "con_cols vga = 80"
proof -
  let ?fb = "fb_init (\<lambda>_. 0) 640 480 2560 32"
  have "8 \<le> fb_w ?fb" "16 \<le> fb_h ?fb" by (simp_all add: fb_init_def FB_MAX_WIDTH_def FB_MAX_HEIGHT_def)
  then show "con_wf vga" unfolding vga_def by (rule wf_init [OF fb_init_ok])
qed (simp_all add: vga_def console_init_def Let_def cells_clear_def fb_width_def fb_init_def FB_MAX_WIDTH_def
    FONT_CHAR_W_def CON_MAX_COLS_def)

theorem console_puts_text_witness: "cell_ch (con_cells (console_puts vga (cs ''hi'')) 0 1) = of_char CHR ''i''"
  using console_puts_text [OF vga_wf(1), of "cs ''hi''" 0 1] by (simp add: vga_wf)

section \<open>Lines from the keyboard\<close>

text \<open>The effect of one character on the line, in a buffer of \<open>len\<close> bytes.\<close>

definition edit_key :: "nat \<Rightarrow> u8 list \<Rightarrow> u8 \<Rightarrow> u8 list" where
  "edit_key len line c =
    (if c = 8 then butlast line else if length line + 1 < len \<and> 32 \<le> sint c then line @ [c] else line)"

text \<open>A keyboard that waits: the last key was released and nothing is queued.\<close>

definition waits :: "keyboard \<Rightarrow> keyboard \<Rightarrow> bool" where
  "waits kb0 kb \<longleftrightarrow> kb_ok kb \<and> idle kb \<and> kb_keys kb = [] \<and> kb_flags kb = kb_flags kb0"

lemma waits_empty: "waits kb0 kb \<Longrightarrow> kb_head kb = kb_tail kb"
  using kb_fifo.pop_empty [of kb] by (auto simp: waits_def kb_pop_def keyboard_has_key_def split: if_splits)

lemma read_release:
  assumes "waits kb0 kb" and "plain_scancode c"
  shows "keyboard_read_char kb ((c + 0x80) # rest) = keyboard_read_char kb rest"
proof -
  have "keyboard_handle_irq kb (c + 0x80) = kb" using assms press_plain(2) by (simp add: waits_def)
  then have "keyboard_read_key kb ((c + 0x80) # rest) = keyboard_read_key kb rest"
    by (subst keyboard_read_key.simps) (simp add: waits_empty [OF assms(1)] del: keyboard_read_key.simps)
  then show ?thesis by (simp add: keyboard_read_char_def)
qed

lemma read_press:
  assumes "waits kb0 kb" and "plain_scancode c"
  shows "\<exists>kb'. keyboard_read_char kb (c # rest) = Some (kb', translate_normal_key kb0 c, rest) \<and> waits kb0 kb'"
proof -
  have kb: "kb_ok kb" "idle kb" "kb_keys kb = []" "kb_flags kb = kb_flags kb0" using assms(1) by (simp_all add: waits_def)
  let ?k = "ucast (translate_normal_key kb c) :: u16"
  have irq: "keyboard_handle_irq kb c = kb_buffer_push kb ?k" using press_plain(1) [OF assms(2) kb(2)] .
  from kb_fifo.pop_pushed [OF kb(1,3), of ?k] obtain kb1
    where kb1: "kb_pop (kb_buffer_push kb ?k) = Some (kb1, ?k)" "kb_ok kb1" "kb_keys kb1 = []" by auto
  then have tk: "take_key (kb_buffer_push kb ?k) = (kb1, ?k)"
    and has: "kb_head (kb_buffer_push kb ?k) \<noteq> kb_tail (kb_buffer_push kb ?k)"
    by (simp_all add: kb_pop_def keyboard_has_key_def split: if_splits)
  have "idle kb1" "kb_flags kb1 = kb_flags kb0"
    using kb(2,4) kb_flags_take [of "kb_buffer_push kb ?k"] tk
    by (auto simp: take_key_def idle_def)
  moreover have "keyboard_read_key kb (c # rest) = Some (kb1, ?k, rest)"
    using has tk by (subst keyboard_read_key.simps, simp add: waits_empty [OF assms(1)] irq)
      (subst keyboard_read_key.simps, simp)
  moreover have "?k < KEY_SPECIAL_BASE"
    using unat_bound [of "translate_normal_key kb c"] by (simp add: KEY_SPECIAL_BASE_def word_less_nat_alt unat_ucast_u16)
  moreover have "(ucast ?k :: u8) = translate_normal_key kb c" by (rule ucast_up_ucast_id) (simp add: is_up)
  ultimately show ?thesis using kb1(2,3) translate_cong [OF kb(4)]
    by (simp add: keyboard_read_char_def waits_def)
qed

lemma enter_newline: "plain_scancode 0x1C \<and> translate_normal_key kb 0x1C = 10"
proof -
  have "scancode_ascii ! unat (0x1C :: u8) = 10" "scancode_ascii_shift ! unat (0x1C :: u8) = 10" by code_simp+
  then show ?thesis by (simp add: plain_scancode_def translate_normal_key_def Let_def)
qed

lemma loop_release:
  assumes "waits kb0 kb" and "plain_scancode c"
  shows "readline_loop con kb ((c + 0x80) # arriving) len echo_mask line = readline_loop con kb arriving len echo_mask line"
  by (subst (1 2) readline_loop.simps) (simp add: read_release [OF assms])

lemma edit_key_length: "length line < len \<Longrightarrow> length (edit_key len line c) < len"
  by (auto simp: edit_key_def)

lemma loop_press:
  assumes "waits kb0 kb" and "plain_scancode c" and "translate_normal_key kb0 c \<noteq> 10" and "length line < unat len" and "con_wf con"
  shows "\<exists>con' kb'. readline_loop con kb (c # rest) len echo_mask line
      = readline_loop con' kb' rest len echo_mask (edit_key (unat len) line (translate_normal_key kb0 c))
    \<and> waits kb0 kb' \<and> con_wf con'"
proof -
  let ?t = "translate_normal_key kb0 c"
  from read_press [OF assms(1,2), of rest] obtain kb'
    where kb': "keyboard_read_char kb (c # rest) = Some (kb', ?t, rest)" "waits kb0 kb'" by blast
  have room: "(of_nat (length line) < len - 1) = (length line + 1 < unat len)"
  proof -
    have "unat (len - 1) = unat len - 1" using assms(4) by (simp add: unat_sub word_le_nat_alt)
    moreover have "unat (of_nat (length line) :: u64) = length line"
      using assms(4) unat_bound [of len] by (simp add: unat_of_nat take_bit_nat_eq_self)
    ultimately show ?thesis by (auto simp: word_less_nat_alt)
  qed
  let ?con = "if ?t = 8 then (if line \<noteq> [] then console_putc con 8 else con)
    else if length line + 1 < unat len \<and> 32 \<le> sint ?t
    then (let con1 = console_putc con (if echo_mask \<noteq> 0 then echo_mask else ?t) in con1\<lparr>con_fb := fb_present (con_fb con1)\<rparr>)
    else con"
  have "con_wf ?con" using assms(5) by (simp add: wf_putc wf_present Let_def)
  moreover have "readline_loop con kb (c # rest) len echo_mask line
      = readline_loop ?con kb' rest len echo_mask (edit_key (unat len) line ?t)"
    using assms(3) by (subst readline_loop.simps) (simp add: kb'(1) edit_key_def room Let_def)
  ultimately show ?thesis using kb'(2) by blast
qed

lemma readline_strokes:
  assumes "waits kb0 kb" and "\<forall>c \<in> set codes. plain_scancode c \<and> translate_normal_key kb0 c \<noteq> 10"
    and "length line < unat len" and "con_wf con"
  shows "\<exists>con' kb'. readline_loop con kb (strokes codes @ 0x1C # rest) len echo_mask line
      = Some (con', kb', rest, foldl (edit_key (unat len)) line (map (translate_normal_key kb0) codes))
    \<and> waits kb0 kb' \<and> con_wf con' \<and> cur_col con' = 0"
  using assms
proof (induction codes arbitrary: kb line con)
  case Nil
  from read_press [OF Nil.prems(1), of "0x1C" rest] enter_newline [of kb0] obtain kb'
    where "keyboard_read_char kb (0x1C # rest) = Some (kb', 10, rest)" "waits kb0 kb'" by auto
  with wf_next_line [OF Nil.prems(4)] show ?case
    by (subst readline_loop.simps) (simp add: strokes_def console_putc_def)
next
  case (Cons c codes)
  then have c: "plain_scancode c" "translate_normal_key kb0 c \<noteq> 10" by simp_all
  let ?arriving = "strokes codes @ 0x1C # rest" and ?line = "edit_key (unat len) line (translate_normal_key kb0 c)"
  from loop_press [OF Cons.prems(1) c Cons.prems(3,4), of "(c + 0x80) # ?arriving" echo_mask] obtain con1 kb1
    where step: "readline_loop con kb (c # (c + 0x80) # ?arriving) len echo_mask line
        = readline_loop con1 kb1 ((c + 0x80) # ?arriving) len echo_mask ?line"
      and w: "waits kb0 kb1" "con_wf con1" by blast
  have "strokes (c # codes) @ 0x1C # rest = c # (c + 0x80) # ?arriving" by (simp add: strokes_def)
  with Cons.IH [OF w(1) _ edit_key_length [OF Cons.prems(3)] w(2)] Cons.prems(2) show ?case
    by (simp add: step loop_release [OF w(1) c(1)])
qed

text \<open>C17. A line typed on a waiting keyboard and closed with Enter is read: the call returns, the buffer
  holds the characters with each backspace applied, cut at one byte less than its size, and the
  cursor is at the start of a line of a consistent screen.\<close>

theorem console_readline_edits:
  assumes "waits kb kb" and "con_wf con" and "1 \<le> len"
    and "\<forall>c \<in> set codes. plain_scancode c \<and> translate_normal_key kb c \<noteq> 10"
  shows "\<exists>con' kb'. console_readline con kb (strokes codes @ 0x1C # rest) len echo_mask
      = Some (con', kb', rest, foldl (edit_key (unat len)) [] (map (translate_normal_key kb) codes))
    \<and> waits kb kb' \<and> con_wf con' \<and> cur_col con' = 0"
  unfolding console_readline_def
  by (rule readline_strokes [OF assms(1,4) _ assms(2)]) (use assms(3) in \<open>simp add: word_le_nat_alt\<close>)

text \<open>Without a backspace or another control character, what is read is the start of the line.\<close>

lemma edit_printable:
  "\<forall>c \<in> set line. 32 \<le> sint c \<Longrightarrow> length pre < len \<Longrightarrow>
    foldl (edit_key len) pre line = take (len - 1) (pre @ line)"
proof (induction line arbitrary: pre)
  case (Cons c line)
  then have "edit_key len pre c = (if length pre + 1 < len then pre @ [c] else pre)" by (auto simp: edit_key_def)
  with Cons show ?case
    by (cases "length pre + 1 < len") (simp_all add: take_Cons' not_less)
qed simp

theorem console_readline_edits_witness:
  "map_option (\<lambda>(_, _, _, line). line) (console_readline vga kb_boot (strokes [0x26, 0x1F, 0x0E] @ [0x1C]) 8 0) = Some [0x6C]"
proof -
  have w: "waits kb_boot kb_boot"
    using boot_inv by (simp add: waits_def kb_inv_def)
  have p: "\<forall>c \<in> set [0x26, 0x1F, 0x0E]. plain_scancode c \<and> translate_normal_key kb_boot c \<noteq> 10" by code_simp
  have l: "foldl (edit_key (unat (8 :: u64))) [] (map (translate_normal_key kb_boot) [0x26, 0x1F, 0x0E]) = [0x6C]" by code_simp
  from console_readline_edits [OF w vga_wf(1) _ p, of 8 "[]" 0] show ?thesis unfolding l by auto
qed

end
