(* ===== verification/Scheduler.thy ===== *)
theory Scheduler
  imports Arch Pit Console Vmm
begin

text \<open>
  proc/scheduler.c: two tasks in ring 3 that the timer interrupt switches between, with a moving
  logo and the echo of typed characters to the log. The state of the kernel that interrupts see
  is one record. What is passed to the serial driver is the list of bytes \<open>k_log\<close>. A fatal error
  halts: its result is \<open>Inl\<close> of the state in which the processor stopped.
\<close>

section \<open>State\<close>

definition USER_CODE_BASE :: u64 where "USER_CODE_BASE = 0x400000"
definition USER_STACK_BASE :: u64 where "USER_STACK_BASE = 0x600000"
definition TASK_SLOT_STRIDE :: u64 where "TASK_SLOT_STRIDE = 0x20000"
definition TASK_COUNT :: nat where "TASK_COUNT = 2"
definition g_logo_size :: u64 where "g_logo_size = 4"

definition demo_spin_code :: "u8 list" where
  "demo_spin_code = [0xF3, 0x90, 0xEB, 0xFC]"

record process =
  p_used :: bool
  p_pid :: u64
  p_name :: "u8 list"
  code_phys :: u64
  stack_phys :: u64
  code_vaddr :: u64
  stack_vaddr :: u64
  p_frame :: interrupt_frame

definition zero_process :: process where
  "zero_process = \<lparr>p_used = False, p_pid = 0, p_name = [], code_phys = 0, stack_phys = 0, code_vaddr = 0,
    stack_vaddr = 0, p_frame = zero_frame\<rparr>"

text \<open>The signed variables of the animation are words read with \<open>sint\<close>.\<close>

record scheduler =
  g_tasks :: "process list"
  sched_hhdm :: u64
  g_task_count :: u64
  g_current_task :: u64
  g_next_pid :: u64
  g_switch_count :: u64
  g_scheduler_running :: bool
  g_anim_x :: u64
  g_anim_y :: u64
  g_anim_dx :: u64
  g_anim_dy :: u64
  g_anim_max_x :: u64
  g_anim_max_y :: u64
  g_last_tick_log :: u64

record kernel =
  k_sched :: scheduler
  k_vm :: vmm
  k_mem :: "u64 \<Rightarrow> u8"
  k_fb :: framebuffer
  k_kb :: keyboard
  k_pit :: pit
  k_io :: io
  k_log :: "u8 list"

definition klog :: "kernel \<Rightarrow> u8 list \<Rightarrow> kernel" where
  "klog k s = k\<lparr>k_log := k_log k @ s\<rparr>"

section \<open>Tasks\<close>

definition scheduler_fatal :: "kernel \<Rightarrow> string \<Rightarrow> kernel" where
  "scheduler_fatal k message = klog (klog k (cs message)) [10]"

definition init_frame :: "u64 \<Rightarrow> u64 \<Rightarrow> interrupt_frame" where
  "init_frame ip sp = zero_frame\<lparr>rip := ip, cs_sel := ucast (GDT_USER_CODE OR 3), rflags := 0x202, rsp := sp,
     ss_sel := ucast (GDT_USER_DATA OR 3)\<rparr>"

definition upd_task :: "kernel \<Rightarrow> nat \<Rightarrow> (process \<Rightarrow> process) \<Rightarrow> kernel" where
  "upd_task k n f = k\<lparr>k_sched := (k_sched k)\<lparr>g_tasks := (g_tasks (k_sched k))[n := f (g_tasks (k_sched k) ! n)]\<rparr>\<rparr>"

text \<open>A page from the allocator that the page tables use too.\<close>

definition k_alloc :: "kernel \<Rightarrow> kernel \<times> u64" where
  "k_alloc k = (case pmm_alloc_page (frames (k_vm k)) of (fr, a) \<Rightarrow> (k\<lparr>k_vm := (k_vm k)\<lparr>frames := fr\<rparr>\<rparr>, a))"

definition k_map :: "kernel \<Rightarrow> u64 \<Rightarrow> u64 \<Rightarrow> u64 \<Rightarrow> kernel \<times> int" where
  "k_map k vaddr phys flags =
    (case vmm_map (k_vm k) (vmm_kernel_space (k_vm k)) vaddr phys flags of (vm, r) \<Rightarrow> (k\<lparr>k_vm := vm\<rparr>, r))"

definition store_bytes :: "kernel \<Rightarrow> u64 \<Rightarrow> u8 list \<Rightarrow> kernel" where
  "store_bytes k addr bytes = k\<lparr>k_mem := (\<lambda>a. if unat (a - addr) < length bytes then bytes ! unat (a - addr) else k_mem k a)\<rparr>"

definition USER_PAGE :: u64 where
  "USER_PAGE = VMM_FLAG_PRESENT OR VMM_FLAG_WRITABLE OR VMM_FLAG_USER"

text \<open>The fields of a task that are set before its pages are mapped, and its start.\<close>

definition name_task :: "process \<Rightarrow> string \<Rightarrow> u64 \<Rightarrow> u64 \<Rightarrow> process" where
  "name_task t name slot pid = t\<lparr>code_vaddr := USER_CODE_BASE + slot * TASK_SLOT_STRIDE,
     stack_vaddr := USER_STACK_BASE + slot * TASK_SLOT_STRIDE, p_name := cs name, p_pid := pid, p_used := True\<rparr>"

definition setup_task :: "kernel \<Rightarrow> nat \<Rightarrow> string \<Rightarrow> u64 \<Rightarrow> kernel + kernel" where
  "setup_task k n name slot =
    (let (k1, code) = k_alloc k;
         (k2, stack) = k_alloc (upd_task k1 n (\<lambda>t. t\<lparr>code_phys := code\<rparr>));
         k3 = upd_task k2 n (\<lambda>t. t\<lparr>stack_phys := stack\<rparr>)
     in if code = 0 \<or> stack = 0 then Inl (scheduler_fatal k3 ''scheduler: failed to allocate demo task pages'')
        else
          (let pid = g_next_pid (k_sched k3);
               k4 = upd_task k3 n (\<lambda>t. name_task t name slot pid);
               k5 = k4\<lparr>k_sched := (k_sched k4)\<lparr>g_next_pid := pid + 1\<rparr>\<rparr>;
               task = g_tasks (k_sched k5) ! n;
               (k6, r1) = k_map k5 (code_vaddr task) (code_phys task) USER_PAGE
           in if r1 \<noteq> 0 then Inl (scheduler_fatal k6 ''scheduler: failed to map demo code page'')
              else
                (let (k7, r2) = k_map k6 (stack_vaddr task) (stack_phys task) USER_PAGE
                 in if r2 \<noteq> 0 then Inl (scheduler_fatal k7 ''scheduler: failed to map demo stack page'')
                    else
                      (let k8 = store_bytes k7 (code_phys task + sched_hhdm (k_sched k7)) demo_spin_code
                       in Inr (upd_task k8 n (\<lambda>t. t\<lparr>p_frame := init_frame (code_vaddr t) (stack_vaddr t + VMM_PAGE_SIZE)\<rparr>))))))"

definition anim_max :: "u64 \<Rightarrow> u64 \<Rightarrow> u64" where
  "anim_max dim img = (if img * g_logo_size < dim then dim - img * g_logo_size else 0)"

definition scheduler_reset :: "framebuffer \<Rightarrow> u64 \<Rightarrow> scheduler" where
  "scheduler_reset fb hhdm_offset = \<lparr>g_tasks = replicate TASK_COUNT zero_process, sched_hhdm = hhdm_offset, g_task_count = 0,
     g_current_task = 0, g_next_pid = 1, g_switch_count = 0, g_scheduler_running = False, g_anim_x = 100, g_anim_y = 100,
     g_anim_dx = 4, g_anim_dy = 3, g_anim_max_x = anim_max (fb_width fb) (img_width innovatios_logo_image),
     g_anim_max_y = anim_max (fb_height fb) (img_height innovatios_logo_image), g_last_tick_log = 0\<rparr>"

text \<open>The argument \<open>g_task_count++\<close> is counted before the call.\<close>

definition next_task :: "kernel \<Rightarrow> string \<Rightarrow> u64 \<Rightarrow> kernel + kernel" where
  "next_task k name slot =
    (let n = g_task_count (k_sched k)
     in setup_task (k\<lparr>k_sched := (k_sched k)\<lparr>g_task_count := n + 1\<rparr>\<rparr>) (unat n) name slot)"

definition scheduler_init :: "kernel \<Rightarrow> u64 \<Rightarrow> kernel + kernel" where
  "scheduler_init k hhdm_offset =
    (case next_task (k\<lparr>k_sched := scheduler_reset (k_fb k) hhdm_offset\<rparr>) ''ring3-alpha'' 0 of
       Inl k1 \<Rightarrow> Inl k1
     | Inr k1 \<Rightarrow> (case next_task k1 ''ring3-beta'' 1 of
         Inl k2 \<Rightarrow> Inl k2
       | Inr k2 \<Rightarrow> Inr (klog k2 (cs ''scheduler: demo tasks prepared'' @ [10]))))"

section \<open>The timer interrupt\<close>

text \<open>One coordinate of the animation: the position and the speed after a step.\<close>

definition bounce :: "u64 \<Rightarrow> u64 \<Rightarrow> u64 \<Rightarrow> u64 \<times> u64" where
  "bounce pos d limit =
    (let p = pos + d
     in if sint p \<le> 0 then (0, - d) else if limit \<le> p then (limit, - d) else (p, d))"

definition update_demo_overlay :: "kernel \<Rightarrow> kernel" where
  "update_demo_overlay k =
    (if fb_width (k_fb k) = 0 \<or> fb_height (k_fb k) = 0 then k
     else
       (let s = k_sched k;
            (x, dx) = bounce (g_anim_x s) (g_anim_dx s) (g_anim_max_x s);
            (y, dy) = bounce (g_anim_y s) (g_anim_dy s) (g_anim_max_y s)
        in k\<lparr>k_sched := s\<lparr>g_anim_x := x, g_anim_y := y, g_anim_dx := dx, g_anim_dy := dy\<rparr>,
             k_fb := fb_present (fb_draw_image (fb_clear (k_fb k) 0x00101014) x y (Some innovatios_logo_image) g_logo_size)\<rparr>))"

text \<open>No key arrives while the interrupt handler runs.\<close>

partial_function (option) poll_keyboard_demo :: "kernel \<Rightarrow> kernel option" where
  "poll_keyboard_demo k =
    (if keyboard_has_char (k_kb k)
     then (case keyboard_read_char (k_kb k) [] of
         None \<Rightarrow> None
       | Some (kb, c, _) \<Rightarrow> poll_keyboard_demo (klog (k\<lparr>k_kb := kb\<rparr>) (cs ''kernel: key: '' @ [c, 10])))
     else Some k)"

text \<open>The decimal digits of a number, from the end of a buffer of 21 bytes.\<close>

function dec_loop :: "u64 \<Rightarrow> u8 list \<Rightarrow> u8 list" where
  "dec_loop v acc = (if 0 < v then dec_loop (v div 10) ((48 + ucast (v mod 10)) # acc) else acc)"
  by auto
termination by (relation "measure (\<lambda>(v, _). unat v)") (auto simp: unat_div word_less_nat_alt)

declare dec_loop.simps [simp del]

definition dec_digits :: "u64 \<Rightarrow> u8 list" where
  "dec_digits v = (if v = 0 then [48] else dec_loop v [])"

definition log_tick :: "kernel \<Rightarrow> kernel" where
  "log_tick k =
    (let ticks = pit_get_ticks (k_pit k)
     in if 100 \<le> ticks - g_last_tick_log (k_sched k)
        then (klog k (cs ''kernel: tick'' @ [10]))\<lparr>k_sched := (k_sched k)\<lparr>g_last_tick_log := ticks\<rparr>\<rparr> else k)"

definition log_switch :: "kernel \<Rightarrow> process \<Rightarrow> process \<Rightarrow> kernel" where
  "log_switch k current nxt =
    (let n = g_switch_count (k_sched k)
     in if n \<le> 8 \<or> n mod 50 = 0
        then klog k (cs ''scheduler: switch #'' @ dec_digits n @ cs '': '' @ p_name current @ cs '' -> '' @ p_name nxt
               @ cs '' (pid '' @ dec_digits (p_pid nxt) @ cs '')'' @ [10])
        else k)"

text \<open>The frame of the interrupted code is kept, the next task's frame is loaded.\<close>

definition switch_task :: "kernel \<Rightarrow> interrupt_frame \<Rightarrow> kernel \<times> interrupt_frame" where
  "switch_task k frame =
    (let cur = unat (g_current_task (k_sched k));
         k1 = upd_task k cur (\<lambda>t. t\<lparr>p_frame := frame\<rparr>);
         s = k_sched k1;
         s1 = s\<lparr>g_current_task := (g_current_task s + 1) mod g_task_count s\<rparr>;
         s2 = s1\<lparr>g_switch_count := g_switch_count s1 + 1\<rparr>;
         nxt = g_tasks s2 ! unat (g_current_task s2)
     in (log_switch (k1\<lparr>k_sched := s2\<rparr>) (g_tasks s2 ! cur) nxt, p_frame nxt))"

definition scheduler_on_timer :: "kernel \<Rightarrow> interrupt_frame \<Rightarrow> (kernel \<times> interrupt_frame) option" where
  "scheduler_on_timer k frame =
    (if g_task_count (k_sched k) = 0 then Some (k, frame)
     else (case poll_keyboard_demo (update_demo_overlay k) of
         None \<Rightarrow> None
       | Some k1 \<Rightarrow>
           (let k2 = log_tick k1
            in if \<not> g_scheduler_running (k_sched k2) \<or> g_task_count (k_sched k2) < 2 then Some (k2, frame)
               else Some (switch_task k2 frame))))"

text \<open>\<open>enter_frame\<close> loads the registers from the frame of the first task and returns to it.\<close>

definition scheduler_start_demo :: "kernel \<Rightarrow> kernel + kernel \<times> interrupt_frame" where
  "scheduler_start_demo k =
    (if g_task_count (k_sched k) = 0 then Inl (scheduler_fatal k ''scheduler: no demo tasks available'')
     else Inr (klog (k\<lparr>k_sched := (k_sched k)\<lparr>g_scheduler_running := True\<rparr>\<rparr>) (cs ''scheduler: entering ring3 demo'' @ [10]),
               p_frame (g_tasks (k_sched k) ! 0)))"

section \<open>The digits of a number\<close>

definition dec_value :: "u8 list \<Rightarrow> nat" where
  "dec_value ds = foldl (\<lambda>n d. 10 * n + unat (d - 48)) 0 ds"

lemma dec_digit: "unat (ucast (v mod 10) :: u8) = unat (v :: u64) mod 10"
  "48 \<le> (48 + ucast (v mod 10) :: u8) \<and> (48 + ucast (v mod 10) :: u8) \<le> 57"
proof -
  have m: "unat (v mod 10) < 10" by (simp add: unat_mod)
  then have u: "unat (ucast (v mod 10) :: u8) = unat (v mod 10)"
    by (simp add: unsigned_ucast_eq take_bit_nat_eq_self)
  then show "unat (ucast (v mod 10) :: u8) = unat v mod 10" by (simp add: unat_mod)
  have "unat (48 + ucast (v mod 10) :: u8) = 48 + unat (v mod 10)" using m u by (subst unat_add_no_wrap) simp_all
  then show "48 \<le> (48 + ucast (v mod 10) :: u8) \<and> (48 + ucast (v mod 10) :: u8) \<le> 57"
    using m by (simp add: word_le_nat_alt)
qed

lemma dec_loop_digits:
  assumes "unat v < 10 ^ k"
  shows "\<exists>ds. dec_loop v acc = ds @ acc \<and> dec_value ds = unat v \<and> length ds \<le> k \<and> (\<forall>d \<in> set ds. 48 \<le> d \<and> d \<le> 57)"
  using assms
proof (induction k arbitrary: v acc)
  case 0
  then have "v = 0" by (simp add: unat_eq_0)
  then show ?case by (intro exI [of _ "[]"]) (simp add: dec_loop.simps dec_value_def)
next
  case (Suc k)
  show ?case
  proof (cases "v = 0")
    case True
    then show ?thesis by (intro exI [of _ "[]"]) (simp add: dec_loop.simps dec_value_def)
  next
    case False
    have "unat (v div 10) < 10 ^ k" using Suc.prems by (simp add: unat_div less_mult_imp_div_less mult.commute)
    from Suc.IH [OF this, of "(48 + ucast (v mod 10)) # acc"] obtain ds
      where ds: "dec_loop (v div 10) ((48 + ucast (v mod 10)) # acc) = ds @ (48 + ucast (v mod 10)) # acc"
        "dec_value ds = unat (v div 10)" "length ds \<le> k" "\<forall>d \<in> set ds. 48 \<le> d \<and> d \<le> 57" by blast
    have "dec_loop v acc = (ds @ [48 + ucast (v mod 10)]) @ acc"
      using False ds(1) by (subst dec_loop.simps) (simp add: word_neq_0_conv)
    moreover have "dec_value (ds @ [48 + ucast (v mod 10)]) = unat v"
      using ds(2) by (simp add: dec_value_def dec_digit unat_div)
    ultimately show ?thesis using ds(3,4) dec_digit(2) [of v] by (intro exI [of _ "ds @ [48 + ucast (v mod 10)]"]) auto
  qed
qed

text \<open>A decimal number in the log fits the 20 bytes before the end of its buffer, so that no store
  goes below it, consists of digits only and reads back as the number.\<close>

theorem dec_digits_fit:
  "length (dec_digits v) \<le> 20 \<and> dec_value (dec_digits v) = unat v \<and> (\<forall>d \<in> set (dec_digits v). 48 \<le> d \<and> d \<le> 57)"
proof -
  have "unat v < 10 ^ 20" using unat_bound [of v] by simp
  from dec_loop_digits [OF this, of "[]"] show ?thesis
    by (auto simp: dec_digits_def dec_value_def)
qed

section \<open>Switching\<close>

lemma klog_fields [simp]:
  "k_sched (klog k s) = k_sched k" "k_kb (klog k s) = k_kb k" "k_vm (klog k s) = k_vm k" "k_fb (klog k s) = k_fb k"
  "k_pit (klog k s) = k_pit k" "k_io (klog k s) = k_io k" "k_mem (klog k s) = k_mem k"
  by (simp_all add: klog_def)

lemma poll_returns:
  assumes "kb_ok (k_kb k)"
  shows "\<exists>kb log. poll_keyboard_demo k = Some (k\<lparr>k_kb := kb, k_log := log\<rparr>) \<and> kb_ok kb \<and> kb_keys kb = []"
  using assms
proof (induction "length (kb_keys (k_kb k))" arbitrary: k)
  case 0
  then have "\<not> keyboard_has_key (k_kb k)" using kb_fifo.pop_empty [of "k_kb k"] by (simp add: kb_pop_def split: if_splits)
  then show ?case using 0 by (subst poll_keyboard_demo.simps) (auto simp: keyboard_has_char_def intro!: exI [of _ "k_kb k"] exI [of _ "k_log k"])
next
  case (Suc n)
  then obtain x xs where x: "kb_keys (k_kb k) = x # xs" by (cases "kb_keys (k_kb k)") auto
  from kb_fifo.pop_contents [OF Suc.prems x] obtain kb
    where kb: "keyboard_has_key (k_kb k)" "take_key (k_kb k) = (kb, x)" "kb_ok kb" "kb_keys kb = xs"
    by (auto simp: kb_pop_def split: if_splits)
  then have "kb_head (k_kb k) \<noteq> kb_tail (k_kb k)" by (simp add: keyboard_has_key_def)
  with kb(2) obtain c where c: "keyboard_read_char (k_kb k) [] = Some (kb, c, [])"
    by (simp add: keyboard_read_char_def keyboard_read_key.simps)
  let ?k = "klog (k\<lparr>k_kb := kb\<rparr>) (cs ''kernel: key: '' @ [c, 10])"
  have "n = length (kb_keys (k_kb ?k))" "kb_ok (k_kb ?k)" using Suc.hyps(2) x kb by simp_all
  from Suc.hyps(1) [OF this] kb(1) show ?case
    by (subst poll_keyboard_demo.simps) (auto simp: keyboard_has_char_def c klog_def)
qed

text \<open>The scheduler runs its two tasks.\<close>

definition sched_ready :: "kernel \<Rightarrow> bool" where
  "sched_ready k \<longleftrightarrow> g_scheduler_running (k_sched k) \<and> g_task_count (k_sched k) = 2 \<and> length (g_tasks (k_sched k)) = 2
     \<and> g_current_task (k_sched k) < 2 \<and> kb_ok (k_kb k)"

definition other_frame :: "kernel \<Rightarrow> interrupt_frame" where
  "other_frame k = p_frame (g_tasks (k_sched k) ! (1 - unat (g_current_task (k_sched k))))"

lemma overlay_fields:
  "k_kb (update_demo_overlay k) = k_kb k" "g_tasks (k_sched (update_demo_overlay k)) = g_tasks (k_sched k)"
  "g_task_count (k_sched (update_demo_overlay k)) = g_task_count (k_sched k)"
  "g_current_task (k_sched (update_demo_overlay k)) = g_current_task (k_sched k)"
  "g_scheduler_running (k_sched (update_demo_overlay k)) = g_scheduler_running (k_sched k)"
  by (simp_all add: update_demo_overlay_def Let_def split: prod.split)

lemma tick_fields:
  "k_kb (log_tick k) = k_kb k" "g_tasks (k_sched (log_tick k)) = g_tasks (k_sched k)"
  "g_task_count (k_sched (log_tick k)) = g_task_count (k_sched k)"
  "g_current_task (k_sched (log_tick k)) = g_current_task (k_sched k)"
  "g_scheduler_running (k_sched (log_tick k)) = g_scheduler_running (k_sched k)"
  by (simp_all add: log_tick_def Let_def)

lemma log_switch_fields [simp]:
  "k_kb (log_switch k a b) = k_kb k" "k_sched (log_switch k a b) = k_sched k"
  by (simp_all add: log_switch_def Let_def)

lemma switch_two:
  assumes "sched_ready k"
  shows "snd (switch_task k f) = other_frame k \<and> sched_ready (fst (switch_task k f)) \<and> other_frame (fst (switch_task k f)) = f"
proof -
  have "g_current_task (k_sched k) = 0 \<or> g_current_task (k_sched k) = 1"
    using assms by (auto simp: sched_ready_def word_less_nat_alt word_unat_eq_iff)
  then show ?thesis
  proof
    assume "g_current_task (k_sched k) = 0"
    with assms show ?thesis by (simp add: switch_task_def Let_def upd_task_def sched_ready_def other_frame_def)
  next
    assume "g_current_task (k_sched k) = 1"
    with assms show ?thesis by (simp add: switch_task_def Let_def upd_task_def sched_ready_def other_frame_def)
  qed
qed

lemma timer_switches:
  assumes "sched_ready k"
  shows "\<exists>k'. scheduler_on_timer k f = Some (k', other_frame k) \<and> sched_ready k' \<and> other_frame k' = f"
proof -
  let ?k0 = "update_demo_overlay k"
  from poll_returns [of ?k0] assms obtain kb log
    where p: "poll_keyboard_demo ?k0 = Some (?k0\<lparr>k_kb := kb, k_log := log\<rparr>)" "kb_ok kb"
    by (auto simp: overlay_fields sched_ready_def)
  let ?k2 = "log_tick (?k0\<lparr>k_kb := kb, k_log := log\<rparr>)"
  have "sched_ready ?k2" "other_frame ?k2 = other_frame k"
    using assms p(2) by (simp_all add: tick_fields overlay_fields sched_ready_def other_frame_def)
  moreover from this have "scheduler_on_timer k f = Some (switch_task ?k2 f)"
    using assms by (simp add: scheduler_on_timer_def p(1) sched_ready_def)
  ultimately show ?thesis using switch_two [of ?k2 f] by (metis prod.collapse)
qed

text \<open>The interrupt handler returns whatever the state of the scheduler is, and leaves the clock and
  the ports alone.\<close>

lemma timer_returns:
  assumes "kb_ok (k_kb k)"
  shows "\<exists>k' g. scheduler_on_timer k f = Some (k', g) \<and> k_pit k' = k_pit k \<and> k_io k' = k_io k \<and> k_vm k' = k_vm k \<and> kb_ok (k_kb k')"
proof -
  let ?k0 = "update_demo_overlay k"
  from poll_returns [of ?k0] assms obtain kb log
    where p: "poll_keyboard_demo ?k0 = Some (?k0\<lparr>k_kb := kb, k_log := log\<rparr>)" "kb_ok kb"
    by (auto simp: overlay_fields)
  have "k_pit ?k0 = k_pit k" "k_io ?k0 = k_io k" "k_vm ?k0 = k_vm k"
    by (simp_all add: update_demo_overlay_def Let_def split: prod.split)
  then show ?thesis using p assms
    by (simp add: scheduler_on_timer_def switch_task_def log_switch_def log_tick_def Let_def upd_task_def)
qed

fun timer_run :: "kernel \<Rightarrow> interrupt_frame list \<Rightarrow> (kernel \<times> interrupt_frame list) option" where
  "timer_run k [] = Some (k, [])"
| "timer_run k (f # fs) = (case scheduler_on_timer k f of None \<Rightarrow> None
     | Some (k1, g) \<Rightarrow> map_option (\<lambda>(k2, gs). (k2, g # gs)) (timer_run k1 fs))"

text \<open>C9. Once the two tasks run, every timer interrupt returns, and the frame it returns to is the
  frame with which the other task was interrupted last, to the last register: over any sequence of
  interrupts the frames resumed are the frames interrupted, one interrupt later.\<close>

theorem scheduler_resumes:
  assumes "sched_ready k" and "fs \<noteq> []"
  shows "map_option snd (timer_run k fs) = Some (other_frame k # butlast fs)"
  using assms
proof (induction fs arbitrary: k)
  case (Cons f fs)
  from timer_switches [OF Cons.prems(1), of f] obtain k1
    where k1: "scheduler_on_timer k f = Some (k1, other_frame k)" "sched_ready k1" "other_frame k1 = f" by blast
  show ?case
  proof (cases "fs = []")
    case False
    from Cons.IH [OF k1(2) this] k1(3) obtain k2 where "timer_run k1 fs = Some (k2, f # butlast fs)" by auto
    with False show ?thesis by (simp add: k1(1))
  qed (simp add: k1(1))
qed simp

section \<open>The pages of the tasks\<close>

definition mem_ok :: "vmm \<Rightarrow> bool" where
  "mem_ok vm \<longleftrightarrow> (\<exists>tab. vmm_inv vm (g_kernel_space vm) tab)"

definition same_page :: "u64 \<Rightarrow> u64 \<Rightarrow> bool" where
  "same_page u v \<longleftrightarrow> vpath u = vpath v \<and> PT_INDEX u = PT_INDEX v"

definition translate :: "vmm \<Rightarrow> u64 \<Rightarrow> u64" where
  "translate vm u = vmm_translate vm (g_kernel_space vm) u"

definition free_pages :: "vmm \<Rightarrow> u64 set" where
  "free_pages vm = free_set (frames vm)"

lemma frames_cong:
  "entry_at (vm\<lparr>frames := fr\<rparr>) t i = entry_at vm t i" "get_table_or_null (vm\<lparr>frames := fr\<rparr>) t i = get_table_or_null vm t i"
  "phys_to_virt (vm\<lparr>frames := fr\<rparr>) p = phys_to_virt vm p"
  by (simp_all add: entry_at_def get_table_or_null_def phys_to_virt_def)

lemma translate_frames [simp]: "translate (vm\<lparr>frames := fr\<rparr>) u = translate vm u"
  by (simp add: translate_def vmm_translate_def frames_cong Let_def)

lemma alloc_mem:
  assumes "mem_ok vm" and "pmm_alloc_page (frames vm) = (fr, a)"
  shows "mem_ok (vm\<lparr>frames := fr\<rparr>)" and "free_set fr \<subseteq> free_pages vm"
    and "a \<noteq> 0 \<Longrightarrow> a div PMM_PAGE_SIZE \<in> free_pages vm \<and> a div PMM_PAGE_SIZE \<notin> free_set fr \<and> aligned a"
proof -
  from assms(1) obtain tab where inv: "vmm_inv vm (g_kernel_space vm) tab" by (auto simp: mem_ok_def)
  then have wf: "pmm_wf (frames vm)" by (simp add: vmm_inv_def)
  show sub: "free_set fr \<subseteq> free_pages vm" using pmm_pages.alloc_shrinks [OF wf assms(2)] by (simp add: free_pages_def)
  have "vmm_inv (vm\<lparr>frames := fr\<rparr>) (g_kernel_space vm) tab"
    by (rule vmm_inv_frames [OF inv pmm_pages.alloc_inv [OF wf assms(2)] sub [unfolded free_pages_def]])
  then show "mem_ok (vm\<lparr>frames := fr\<rparr>)" by (auto simp: mem_ok_def)
  assume "a \<noteq> 0"
  from pmm_pages.alloc_fresh [OF wf assms(2) this] aligned_page
  show "a div PMM_PAGE_SIZE \<in> free_pages vm \<and> a div PMM_PAGE_SIZE \<notin> free_set fr \<and> aligned a"
    by (metis free_pages_def)
qed

lemma map_mem:
  assumes "mem_ok vm" and "vmm_map vm (g_kernel_space vm) v pa fl = (vm', r)"
  shows "free_pages vm' \<subseteq> free_pages vm \<and> g_kernel_space vm' = g_kernel_space vm \<and> g_hhdm_offset vm' = g_hhdm_offset vm \<and> mem_ok vm'"
proof -
  from assms(1) obtain tab where inv: "vmm_inv vm (g_kernel_space vm) tab" by (auto simp: mem_ok_def)
  from vmm_map_leaf [OF inv assms(2)] show ?thesis unfolding mem_ok_def free_pages_def by metis
qed

lemma map_translate:
  assumes "mem_ok vm" and "vmm_map vm (g_kernel_space vm) v pa fl = (vm', r)" and "aligned pa"
    and "fl < 4096" and "fl AND VMM_FLAG_PRESENT \<noteq> 0"
  shows "translate vm' u = (if r = 0 \<and> same_page u v then pa OR (u AND 0xFFF) else translate vm u)" and "r = 0 \<or> r = - 1"
proof -
  from assms(1) obtain tab where inv: "vmm_inv vm (g_kernel_space vm) tab" by (auto simp: mem_ok_def)
  have "(pa OR fl) AND ADDR_MASK = pa"
    using assms(3) low_bits [OF assms(4)] by (simp add: bit.conj_disj_distrib2 aligned_def)
  with map_translates [OF inv assms(2,5)] map_mem [OF assms(1,2)]
  show "translate vm' u = (if r = 0 \<and> same_page u v then pa OR (u AND 0xFFF) else translate vm u)" "r = 0 \<or> r = - 1"
    by (simp_all add: translate_def same_page_def)
qed

lemma upd_task_fields [simp]:
  "k_vm (upd_task k n f) = k_vm k" "k_kb (upd_task k n f) = k_kb k" "k_fb (upd_task k n f) = k_fb k"
  "g_task_count (k_sched (upd_task k n f)) = g_task_count (k_sched k)"
  "g_next_pid (k_sched (upd_task k n f)) = g_next_pid (k_sched k)"
  "g_tasks (k_sched (upd_task k n f)) = (g_tasks (k_sched k))[n := f (g_tasks (k_sched k) ! n)]"
  by (simp_all add: upd_task_def)

lemma store_bytes_fields [simp]: "k_vm (store_bytes k a b) = k_vm k" "k_sched (store_bytes k a b) = k_sched k"
  by (simp_all add: store_bytes_def)

text \<open>A task with its two pages mapped.\<close>

definition fresh_task :: "string \<Rightarrow> u64 \<Rightarrow> u64 \<Rightarrow> u64 \<Rightarrow> u64 \<Rightarrow> process" where
  "fresh_task name slot pid code stack = \<lparr>p_used = True, p_pid = pid, p_name = cs name, code_phys = code, stack_phys = stack,
     code_vaddr = USER_CODE_BASE + slot * TASK_SLOT_STRIDE, stack_vaddr = USER_STACK_BASE + slot * TASK_SLOT_STRIDE,
     p_frame = init_frame (USER_CODE_BASE + slot * TASK_SLOT_STRIDE) (USER_STACK_BASE + slot * TASK_SLOT_STRIDE + VMM_PAGE_SIZE)\<rparr>"

lemma user_page: "USER_PAGE < 4096" "USER_PAGE AND VMM_FLAG_PRESENT \<noteq> 0"
  by (simp_all add: USER_PAGE_def VMM_FLAG_PRESENT_def VMM_FLAG_WRITABLE_def VMM_FLAG_USER_def)

text \<open>The code of a task is stored at the page's address in the direct map, and nothing else changes.\<close>

definition task_code :: "kernel \<Rightarrow> kernel \<Rightarrow> u64 \<Rightarrow> bool" where
  "task_code k k' code \<longleftrightarrow> sched_hhdm (k_sched k') = sched_hhdm (k_sched k)
     \<and> k_mem k' = k_mem (store_bytes k (code + sched_hhdm (k_sched k)) demo_spin_code)"

lemma setup_task_ok:
  assumes "mem_ok (k_vm k)" and "n < length (g_tasks (k_sched k))" and "setup_task k n name slot = Inr k'"
  shows "\<exists>code stack. g_tasks (k_sched k') = (g_tasks (k_sched k))[n := fresh_task name slot (g_next_pid (k_sched k)) code stack]
    \<and> mem_ok (k_vm k') \<and> g_task_count (k_sched k') = g_task_count (k_sched k)
    \<and> g_next_pid (k_sched k') = g_next_pid (k_sched k) + 1 \<and> aligned code \<and> aligned stack \<and> code div PMM_PAGE_SIZE \<noteq> stack div PMM_PAGE_SIZE
    \<and> {code div PMM_PAGE_SIZE, stack div PMM_PAGE_SIZE} \<subseteq> free_pages (k_vm k) - free_pages (k_vm k')
    \<and> free_pages (k_vm k') \<subseteq> free_pages (k_vm k)
    \<and> (\<forall>u. translate (k_vm k') u =
        (if same_page u (USER_STACK_BASE + slot * TASK_SLOT_STRIDE) then stack OR (u AND 0xFFF)
         else if same_page u (USER_CODE_BASE + slot * TASK_SLOT_STRIDE) then code OR (u AND 0xFFF)
         else translate (k_vm k) u))
    \<and> task_code k k' code"
proof -
  let ?vm = "k_vm k" and ?cv = "USER_CODE_BASE + slot * TASK_SLOT_STRIDE" and ?sv = "USER_STACK_BASE + slot * TASK_SLOT_STRIDE"
  obtain fr1 code where a1: "pmm_alloc_page (frames ?vm) = (fr1, code)" by fastforce
  let ?vm1 = "?vm\<lparr>frames := fr1\<rparr>"
  obtain fr2 stack where a2: "pmm_alloc_page (frames ?vm1) = (fr2, stack)" by fastforce
  let ?vm2 = "?vm1\<lparr>frames := fr2\<rparr>"
  obtain vm3 r1 where m1: "vmm_map ?vm2 (g_kernel_space ?vm2) ?cv code USER_PAGE = (vm3, r1)" by fastforce
  obtain vm4 r2 where m2: "vmm_map vm3 (g_kernel_space vm3) ?sv stack USER_PAGE = (vm4, r2)" by fastforce
  have "code \<noteq> 0 \<and> stack \<noteq> 0 \<and> r1 = 0 \<and> r2 = 0 \<and> k_vm k' = vm4
    \<and> g_tasks (k_sched k') = (g_tasks (k_sched k))[n := fresh_task name slot (g_next_pid (k_sched k)) code stack]
    \<and> g_task_count (k_sched k') = g_task_count (k_sched k) \<and> g_next_pid (k_sched k') = g_next_pid (k_sched k) + 1
    \<and> task_code k k' code"
    using assms(2,3) a1 a2 m1 m2
    by (cases "g_tasks (k_sched k) ! n")
      (auto simp: task_code_def store_bytes_def upd_task_def setup_task_def Let_def k_alloc_def k_map_def vmm_kernel_space_def name_task_def fresh_task_def split: if_splits)
  note r = this
  have f1: "free_pages ?vm1 = free_set fr1" and f2: "free_pages ?vm2 = free_set fr2" by (simp_all add: free_pages_def)
  note o1 = alloc_mem [OF assms(1) a1]
  note o2 = alloc_mem [OF o1(1) a2, unfolded f1]
  note o3 = map_mem [OF o2(1) m1, unfolded f2]
  then have "mem_ok vm3" by blast
  note o4 = map_mem [OF this m2]
  have code: "code div PMM_PAGE_SIZE \<in> free_pages ?vm" "code div PMM_PAGE_SIZE \<notin> free_set fr1" "aligned code"
    and stack: "stack div PMM_PAGE_SIZE \<in> free_set fr1" "stack div PMM_PAGE_SIZE \<notin> free_set fr2" "aligned stack"
    using o1(3) o2(3) r by blast+
  have shrink: "free_pages vm4 \<subseteq> free_set fr2" "free_set fr2 \<subseteq> free_set fr1" "free_set fr1 \<subseteq> free_pages ?vm"
    using o4 o3 o2(2) o1(2) by blast+
  have "translate vm4 u = (if same_page u ?sv then stack OR (u AND 0xFFF)
      else if same_page u ?cv then code OR (u AND 0xFFF) else translate ?vm u)" for u
    using map_translate(1) [OF \<open>mem_ok vm3\<close> m2 stack(3) user_page, of u]
      map_translate(1) [OF o2(1) m1 code(3) user_page, of u] r by simp
  then show ?thesis using r o4 code stack shrink
    by (intro exI [of _ code] exI [of _ stack]) auto
qed


lemma task_pages:
  "\<not> same_page 0x400000 0x600000" "\<not> same_page 0x400000 0x420000" "\<not> same_page 0x400000 0x620000"
  "\<not> same_page 0x600000 0x420000" "\<not> same_page 0x600000 0x620000" "\<not> same_page 0x420000 0x620000"
  by (simp_all add: same_page_def vpath_def PML4_INDEX_def PDPT_INDEX_def PD_INDEX_def PT_INDEX_def)

lemma same_page_refl [simp]: "same_page u u"
  by (simp add: same_page_def)

text \<open>What one task adds: two frames taken from the free ones and mapped at its two pages.\<close>

definition task_mapped :: "vmm \<Rightarrow> vmm \<Rightarrow> u64 \<Rightarrow> u64 \<Rightarrow> u64 \<Rightarrow> u64 \<Rightarrow> bool" where
  "task_mapped vm vm' cv sv code stack \<longleftrightarrow> mem_ok vm' \<and> aligned code \<and> aligned stack
     \<and> code div PMM_PAGE_SIZE \<noteq> stack div PMM_PAGE_SIZE
     \<and> {code div PMM_PAGE_SIZE, stack div PMM_PAGE_SIZE} \<subseteq> free_pages vm - free_pages vm' \<and> free_pages vm' \<subseteq> free_pages vm
     \<and> (\<forall>u. translate vm' u = (if same_page u sv then stack OR (u AND 0xFFF)
          else if same_page u cv then code OR (u AND 0xFFF) else translate vm u))"

lemma next_task_ok:
  assumes "mem_ok (k_vm k)" and "unat (g_task_count (k_sched k)) < length (g_tasks (k_sched k))"
    and "next_task k name slot = Inr k'"
  shows "\<exists>code stack. g_tasks (k_sched k') = (g_tasks (k_sched k))[unat (g_task_count (k_sched k)) :=
        fresh_task name slot (g_next_pid (k_sched k)) code stack]
    \<and> g_task_count (k_sched k') = g_task_count (k_sched k) + 1 \<and> g_next_pid (k_sched k') = g_next_pid (k_sched k) + 1
    \<and> task_mapped (k_vm k) (k_vm k') (USER_CODE_BASE + slot * TASK_SLOT_STRIDE) (USER_STACK_BASE + slot * TASK_SLOT_STRIDE) code stack
    \<and> task_code k k' code"
proof -
  let ?k = "k\<lparr>k_sched := (k_sched k)\<lparr>g_task_count := g_task_count (k_sched k) + 1\<rparr>\<rparr>"
  have "mem_ok (k_vm ?k)" "unat (g_task_count (k_sched k)) < length (g_tasks (k_sched ?k))"
    "setup_task ?k (unat (g_task_count (k_sched k))) name slot = Inr k'"
    using assms by (simp_all add: next_task_def Let_def)
  from setup_task_ok [OF this] obtain code stack where
    "g_tasks (k_sched k') = (g_tasks (k_sched ?k))[unat (g_task_count (k_sched k)) := fresh_task name slot (g_next_pid (k_sched ?k)) code stack]"
    "g_task_count (k_sched k') = g_task_count (k_sched ?k)" "g_next_pid (k_sched k') = g_next_pid (k_sched ?k) + 1"
    "task_mapped (k_vm ?k) (k_vm k') (USER_CODE_BASE + slot * TASK_SLOT_STRIDE) (USER_STACK_BASE + slot * TASK_SLOT_STRIDE) code stack"
    "task_code ?k k' code"
    unfolding task_mapped_def by blast
  moreover have "task_code ?k k' code \<longleftrightarrow> task_code k k' code" by (simp add: task_code_def store_bytes_def fun_eq_iff)
  ultimately show ?thesis by (intro exI conjI) simp_all
qed

lemma aligned_take_bit: "aligned t \<Longrightarrow> take_bit 12 t = 0"
proof -
  assume "aligned t"
  then have "take_bit 12 t = take_bit 12 (t AND ADDR_MASK)" by (simp add: aligned_def)
  also have "\<dots> = 0" by (simp add: take_bit_and ADDR_MASK_def)
  finally show ?thesis .
qed

text \<open>Stores into two different pages do not overlap.\<close>

lemma code_apart:
  assumes "aligned c" and "aligned d" and "c \<noteq> d" and "i < 4"
  shows "\<not> unat (c + h + of_nat i - (d + h)) < 4"
proof
  let ?x = "c + h + of_nat i - (d + h)"
  assume "unat ?x < 4"
  moreover define j where "j = unat ?x"
  ultimately have j: "j < 4" "?x = of_nat j" by simp_all
  have "c - d = of_nat j - of_nat i" using j(2) by (simp add: algebra_simps)
  moreover have "push_bit 12 (drop_bit 12 t) = t" if "aligned t" for t
    using bits_ident [of 12 t] aligned_take_bit [OF that] by simp
  from this [OF assms(1)] this [OF assms(2)] have "c - d = push_bit 12 (drop_bit 12 c - drop_bit 12 d)"
    by (simp add: push_bit_eq_mult left_diff_distrib)
  then have "take_bit 12 (c - d) = 0" by (simp add: take_bit_push_bit)
  ultimately have "take_bit 12 (of_nat j - of_nat i :: u64) = 0" by simp
  moreover have "j = 0 \<or> j = 1 \<or> j = 2 \<or> j = 3" "i = 0 \<or> i = 1 \<or> i = 2 \<or> i = 3" using j(1) assms(4) by auto
  ultimately have "i = j" by (elim disjE) simp_all
  with \<open>c - d = of_nat j - of_nat i\<close> assms(3) show False by simp
qed

lemma two_codes:
  assumes "task_code k k1 c0" and "task_code k1 k2 c1" and "aligned c0" and "aligned c1" and "c0 \<noteq> c1"
    and "c \<in> {c0, c1}" and "i < 4"
  shows "k_mem k2 (c + sched_hhdm (k_sched k) + of_nat i) = demo_spin_code ! i"
proof -
  have i: "unat (of_nat i :: u64) = i" using assms(7) by (simp add: unat_of_nat take_bit_nat_eq_self)
  have "c + h + of_nat i - (c + h) = of_nat i" for h :: u64 by simp
  with assms i code_apart [OF assms(3,4,5,7)] show ?thesis
    by (auto simp: task_code_def store_bytes_def demo_spin_code_def)
qed

text \<open>C12. When the demo is prepared, there are two tasks, each with a frame that starts its code in
  ring 3 with interrupts on and the stack pointer at the end of its stack page; the four virtual
  pages translate to four distinct frames that were free and are not free any more, every other
  address translates as before, and each code page begins with the code of the spin loop.\<close>

theorem scheduler_init_tasks:
  assumes "mem_ok (k_vm k)" and "scheduler_init k hhdm_offset = Inr k'"
  shows "\<exists>c0 s0 c1 s1. g_tasks (k_sched k') = [fresh_task ''ring3-alpha'' 0 1 c0 s0, fresh_task ''ring3-beta'' 1 2 c1 s1]
    \<and> g_task_count (k_sched k') = 2 \<and> mem_ok (k_vm k')
    \<and> distinct (map (\<lambda>a. a div PMM_PAGE_SIZE) [c0, s0, c1, s1])
    \<and> set (map (\<lambda>a. a div PMM_PAGE_SIZE) [c0, s0, c1, s1]) \<subseteq> free_pages (k_vm k) - free_pages (k_vm k')
    \<and> map (translate (k_vm k')) [0x400000, 0x600000, 0x420000, 0x620000] = [c0, s0, c1, s1]
    \<and> (\<forall>u. (\<forall>v \<in> {0x400000, 0x600000, 0x420000, 0x620000}. \<not> same_page u v) \<longrightarrow> translate (k_vm k') u = translate (k_vm k) u)
    \<and> (\<forall>c \<in> {c0, c1}. \<forall>i < 4. k_mem k' (c + hhdm_offset + of_nat i) = demo_spin_code ! i)"
proof -
  let ?k0 = "k\<lparr>k_sched := scheduler_reset (k_fb k) hhdm_offset\<rparr>"
  have r: "g_tasks (scheduler_reset fb h) = [zero_process, zero_process]" "g_task_count (scheduler_reset fb h) = 0"
    "g_next_pid (scheduler_reset fb h) = 1" for fb h
    by (simp_all add: scheduler_reset_def TASK_COUNT_def numeral_2_eq_2)
  obtain k1 where n1: "next_task ?k0 ''ring3-alpha'' 0 = Inr k1" using assms(2)
    by (auto simp: scheduler_init_def split: sum.splits)
  obtain k2 where n2: "next_task k1 ''ring3-beta'' 1 = Inr k2" and k': "k' = klog k2 (cs ''scheduler: demo tasks prepared'' @ [10])"
    using assms(2) n1 by (auto simp: scheduler_init_def split: sum.splits)
  have m0: "mem_ok (k_vm ?k0)" "unat (g_task_count (k_sched ?k0)) < length (g_tasks (k_sched ?k0))"
    using assms(1) by (simp_all add: r)
  from next_task_ok [OF m0 n1] obtain c0 s0 where
    t0: "g_tasks (k_sched k1) = [fresh_task ''ring3-alpha'' 0 1 c0 s0, zero_process]" "g_task_count (k_sched k1) = 1"
      "g_next_pid (k_sched k1) = 2" and p0: "task_mapped (k_vm k) (k_vm k1) 0x400000 0x600000 c0 s0" and q0: "task_code ?k0 k1 c0"
    by (auto simp: r USER_CODE_BASE_def USER_STACK_BASE_def)
  have m1: "mem_ok (k_vm k1)" "unat (g_task_count (k_sched k1)) < length (g_tasks (k_sched k1))"
    using p0 by (simp_all add: t0 task_mapped_def)
  from next_task_ok [OF m1 n2] obtain c1 s1 where
    t1: "g_tasks (k_sched k2) = [fresh_task ''ring3-alpha'' 0 1 c0 s0, fresh_task ''ring3-beta'' 1 2 c1 s1]"
      "g_task_count (k_sched k2) = 2" and p1: "task_mapped (k_vm k1) (k_vm k2) 0x420000 0x620000 c1 s1" and q1: "task_code k1 k2 c1"
    by (auto simp: t0 USER_CODE_BASE_def USER_STACK_BASE_def TASK_SLOT_STRIDE_def)
  have u0: "translate (k_vm k1) u = (if same_page u 0x600000 then s0 OR (u AND 0xFFF)
      else if same_page u 0x400000 then c0 OR (u AND 0xFFF) else translate (k_vm k) u)"
    and u1: "translate (k_vm k2) u = (if same_page u 0x620000 then s1 OR (u AND 0xFFF)
      else if same_page u 0x420000 then c1 OR (u AND 0xFFF) else translate (k_vm k1) u)" for u
    using p0 p1 by (simp_all only: task_mapped_def)
  have "distinct (map (\<lambda>a. a div PMM_PAGE_SIZE) [c0, s0, c1, s1])
    \<and> set (map (\<lambda>a. a div PMM_PAGE_SIZE) [c0, s0, c1, s1]) \<subseteq> free_pages (k_vm k) - free_pages (k_vm k')"
    using p0 p1 by (auto simp: k' task_mapped_def)
  moreover have "map (translate (k_vm k')) [0x400000, 0x600000, 0x420000, 0x620000] = [c0, s0, c1, s1]"
    using task_pages by (simp add: k' u1 u0)
  moreover have "translate (k_vm k') u = translate (k_vm k) u"
    if "\<forall>v \<in> {0x400000, 0x600000, 0x420000, 0x620000}. \<not> same_page u v" for u
    using that by (simp add: k' u1 u0)
  moreover have "mem_ok (k_vm k')" "g_task_count (k_sched k') = 2"
    "g_tasks (k_sched k') = [fresh_task ''ring3-alpha'' 0 1 c0 s0, fresh_task ''ring3-beta'' 1 2 c1 s1]"
    using p1 t1 by (simp_all add: k' task_mapped_def)
  moreover have "aligned c0" "aligned c1" "c0 \<noteq> c1" using p0 p1 by (auto simp: task_mapped_def)
  from two_codes [OF q0 q1 this] have "\<forall>c \<in> {c0, c1}. \<forall>i < 4. k_mem k' (c + hhdm_offset + of_nat i) = demo_spin_code ! i"
    by (simp add: k' scheduler_reset_def)
  ultimately show ?thesis by (intro exI conjI allI impI) (assumption | elim conjE)+
qed

section \<open>Examples\<close>

definition vm16 :: vmm where
  "vm16 = \<lparr>g_hhdm_offset = 65536, g_kernel_space = 0, words = (\<lambda>_. 0),
    frames = \<lparr>bitmap = (\<lambda>i. if i = 0 then 3 else 0), total_pages = 16, free_pages_c = 14, hhdm = 65536, scan_hint = 0\<rparr>\<rparr>"

lemma below_16: "i < (16 :: u64) \<longleftrightarrow> i \<in> {0, 1, 2, 3, 4, 5, 6, 7, 8, 9, 10, 11, 12, 13, 14, 15}"
proof -
  have "n < 16 \<longleftrightarrow> n \<in> {0, 1, 2, 3, 4, 5, 6, 7, 8, 9, 10, 11, 12, 13, 14, 15}" for n :: nat
    by (simp add: numeral_eq_Suc less_Suc_eq disj_commute disj_left_commute)
  from this [of "unat i"] show ?thesis by (simp add: word_less_nat_alt word_unat_eq_iff)
qed

lemma vm16_free: "free_set (frames vm16) = {2, 3, 4, 5, 6, 7, 8, 9, 10, 11, 12, 13, 14, 15}"
  by (auto simp: free_set_def vm16_def below_16 bitmap_test_def)

lemma vm16_ok: "mem_ok vm16"
proof -
  have "pmm_wf (frames vm16)"
    unfolding pmm_wf_def vm16_free by (simp add: vm16_def)
  then have "vmm_inv vm16 0 [[] \<mapsto> 0]"
    unfolding vmm_inv_def tab_ok_def vm16_free
    by (auto simp: vm16_def aligned_def entry_at_def PMM_PAGE_SIZE_def)
  then show ?thesis by (auto simp: mem_ok_def vm16_def)
qed

definition demo_kernel :: kernel where
  "demo_kernel = \<lparr>k_sched = scheduler_reset (fb_init (\<lambda>_. 0) 640 480 2560 32) 65536, k_vm = vm16, k_mem = (\<lambda>_. 0),
     k_fb = fb_init (\<lambda>_. 0) 640 480 2560 32, k_kb = kb_boot, k_pit = pit_boot, k_io = idle_io, k_log = []\<rparr>"

lemma demo_init: "\<exists>k'. scheduler_init demo_kernel 65536 = Inr k'"
proof -
  have "(case scheduler_init demo_kernel 65536 of Inl _ \<Rightarrow> False | Inr _ \<Rightarrow> True)" by code_simp
  then show ?thesis by (simp split: sum.splits)
qed

theorem scheduler_init_tasks_witness:
  "\<exists>k'. scheduler_init demo_kernel 65536 = Inr k' \<and> translate (k_vm k') 0x400000 \<noteq> translate (k_vm k') 0x420000"
proof -
  from demo_init obtain k' where k': "scheduler_init demo_kernel 65536 = Inr k'" ..
  have "mem_ok (k_vm demo_kernel)" using vm16_ok by (simp add: demo_kernel_def)
  from scheduler_init_tasks [OF this k'] k' show ?thesis by auto
qed

definition running_kernel :: kernel where
  "running_kernel = demo_kernel\<lparr>k_sched := (k_sched demo_kernel)\<lparr>
     g_tasks := [fresh_task ''ring3-alpha'' 0 1 0x2000 0x3000, fresh_task ''ring3-beta'' 1 2 0x4000 0x5000],
     g_task_count := 2, g_scheduler_running := True\<rparr>\<rparr>"

lemma running_ready: "sched_ready running_kernel"
  using boot_inv by (simp add: sched_ready_def running_kernel_def demo_kernel_def scheduler_reset_def kb_inv_def)

theorem scheduler_resumes_witness:
  "map_option snd (timer_run running_kernel [init_frame 1 2, init_frame 3 4, init_frame 5 6])
    = Some [init_frame 0x420000 0x621000, init_frame 1 2, init_frame 3 4]"
  using scheduler_resumes [OF running_ready, of "[init_frame 1 2, init_frame 3 4, init_frame 5 6]"]
  by (simp add: other_frame_def running_kernel_def demo_kernel_def scheduler_reset_def fresh_task_def
      USER_CODE_BASE_def USER_STACK_BASE_def TASK_SLOT_STRIDE_def VMM_PAGE_SIZE_def del: timer_run.simps)

text \<open>The logo keeps within the screen, if it fits at all.\<close>

lemma bounce_le: "fst (bounce pos d limit) \<le> limit"
  by (auto simp: bounce_def Let_def)

lemma overlay_on_screen:
  assumes "g_anim_max_x (k_sched k) = anim_max (fb_width (k_fb k)) 16" and "64 \<le> fb_width (k_fb k)" and "fb_height (k_fb k) \<noteq> 0"
  shows "g_anim_x (k_sched (update_demo_overlay k)) \<le> fb_width (k_fb k) - 64"
proof -
  have "fb_width (k_fb k) \<noteq> 0" using assms(2) by auto
  then have "g_anim_x (k_sched (update_demo_overlay k))
      = fst (bounce (g_anim_x (k_sched k)) (g_anim_dx (k_sched k)) (g_anim_max_x (k_sched k)))"
    using assms(3) by (simp add: update_demo_overlay_def Let_def split: prod.split)
  also have "\<dots> \<le> g_anim_max_x (k_sched k)" by (rule bounce_le)
  also have "\<dots> = anim_max (fb_width (k_fb k)) 16" by (rule assms(1))
  also have "\<dots> \<le> fb_width (k_fb k) - 64" by (simp add: anim_max_def g_logo_size_def)
  finally show ?thesis .
qed

end
