(* ===== verification/Interrupts.thy ===== *)
theory Interrupts
  imports Scheduler
begin

text \<open>
  arch/x86_64/interrupts.c: the report of an exception and the dispatch of an interrupt frame by its
  vector. The faulting address register is an argument. A handler that halts has the result
  \<open>Inl\<close>; one that returns gives the frame from which the stub restores the registers.
\<close>

section \<open>Reports\<close>

definition hex_digits :: "u8 list" where
  "hex_digits = cs ''0123456789abcdef''"

definition hex64 :: "u64 \<Rightarrow> u8 list" where
  "hex64 v = cs ''0x'' @ map (\<lambda>i. hex_digits ! unat (drop_bit (60 - i * 4) v AND 0xF)) [0..<16]"

definition serial_write_hex64 :: "kernel \<Rightarrow> u64 \<Rightarrow> kernel" where
  "serial_write_hex64 k v = klog k (hex64 v)"

definition exception_names :: "string list" where
  "exception_names = [''#DE divide error'', ''#DB debug'', ''NMI'', ''#BP breakpoint'', ''#OF overflow'', ''#BR bound range'',
     ''#UD invalid opcode'', ''#NM device not available'', ''#DF double fault'', ''coprocessor segment overrun'',
     ''#TS invalid TSS'', ''#NP segment not present'', ''#SS stack segment fault'', ''#GP general protection'',
     ''#PF page fault'', ''reserved'', ''x87 floating-point'', ''#AC alignment check'', ''#MC machine check'',
     ''#XM SIMD floating-point'', ''#VE virtualization'', ''#CP control protection'']"

definition exception_name :: "u64 \<Rightarrow> u8 list" where
  "exception_name v = (if v < of_nat (length exception_names) then cs (exception_names ! unat v) else cs ''unknown'')"

text \<open>One value behind its label.\<close>

definition labelled :: "string \<times> u64 \<Rightarrow> u8 list" where
  "labelled f = cs (fst f) @ hex64 (snd f)"

definition frame_line :: "(string \<times> u64) list \<Rightarrow> u8 list" where
  "frame_line fs = concat (map labelled fs) @ [10]"

definition print_frame :: "kernel \<Rightarrow> u64 \<Rightarrow> interrupt_frame \<Rightarrow> kernel" where
  "print_frame k cr2 f =
    (let k1 = klog k (cs ''interrupt: vector='' @ hex64 (vector f) @ cs '' '' @ exception_name (vector f) @ [10]);
         k2 = klog k1 (frame_line [(''interrupt: error='', error_code f), ('' rip='', rip f), ('' cs='', cs_sel f), ('' rflags='', rflags f)]);
         k3 = (if cs_sel f AND 3 = 3 then klog k2 (frame_line [(''interrupt: rsp='', rsp f), ('' ss='', ss_sel f)]) else k2);
         k4 = klog k3 (frame_line [(''interrupt: rax='', rax f), ('' rbx='', rbx f), ('' rcx='', rcx f), ('' rdx='', rdx f)]);
         k5 = klog k4 (frame_line [(''interrupt: rsi='', rsi f), ('' rdi='', rdi f), ('' rbp='', rbp f), ('' r8='', r8 f)]);
         k6 = klog k5 (frame_line [(''interrupt: r9='', r9 f), ('' r10='', r10 f), ('' r11='', r11 f), ('' r12='', r12 f)]);
         k7 = klog k6 (frame_line [(''interrupt: r13='', r13 f), ('' r14='', r14 f), ('' r15='', r15 f)])
     in if vector f = 14 then klog k7 (frame_line [(''interrupt: cr2='', cr2)]) else k7)"

definition handle_exception :: "kernel \<Rightarrow> u64 \<Rightarrow> interrupt_frame \<Rightarrow> bool \<Rightarrow> kernel + kernel" where
  "handle_exception k cr2 f halt =
    (let k1 = print_frame k cr2 f
     in if halt then Inl (klog k1 (cs ''interrupt: fatal exception, halting'' @ [10])) else Inr k1)"

definition exception_demo_showcase :: "kernel \<Rightarrow> u64 \<Rightarrow> kernel + kernel" where
  "exception_demo_showcase k cr2 =
    (let demo = zero_frame\<lparr>vector := 14, error_code := 2, rip := 0xbad000, cs_sel := ucast (GDT_USER_CODE OR 3),
           rflags := 0x202, rsp := 0xcaf000, ss_sel := ucast (GDT_USER_DATA OR 3)\<rparr>
     in handle_exception (klog k (cs ''kernel: exception demo follows'' @ [10])) cr2 demo False)"

section \<open>Dispatch\<close>

definition k_eoi :: "kernel \<Rightarrow> u8 \<Rightarrow> kernel" where
  "k_eoi k irq = k\<lparr>k_io := pic_send_eoi (k_io k) irq\<rparr>"

definition keyboard_irq :: "kernel \<Rightarrow> kernel" where
  "keyboard_irq k =
    (let (io, sc) = inb (k_io k) 0x60 in k\<lparr>k_io := io, k_kb := keyboard_handle_irq (k_kb k) sc\<rparr>)"

definition arch_interrupt_dispatch ::
  "kernel \<Rightarrow> u64 \<Rightarrow> interrupt_frame \<Rightarrow> (kernel + kernel \<times> interrupt_frame) option" where
  "arch_interrupt_dispatch k cr2 frame =
    (if vector frame = 32 then
       (case scheduler_on_timer (k\<lparr>k_pit := pit_handle_irq (k_pit k)\<rparr>) frame of
         None \<Rightarrow> None | Some (k1, frame1) \<Rightarrow> Some (Inr (k_eoi k1 0, frame1)))
     else if vector frame = 33 then Some (Inr (k_eoi (keyboard_irq k) 1, frame))
     else if vector frame < 32 then
       (case handle_exception k cr2 frame True of Inl k1 \<Rightarrow> Some (Inl k1) | Inr k1 \<Rightarrow> Some (Inr (k1, frame)))
     else Some (Inl (klog k (cs ''interrupt: unexpected vector '' @ hex64 (vector frame) @ [10]))))"

section \<open>Properties\<close>

definition hex_digit_value :: "u8 \<Rightarrow> nat" where
  "hex_digit_value d = (if d \<le> 57 then unat d - 48 else unat d - 87)"

definition hex_value :: "u8 list \<Rightarrow> nat" where
  "hex_value ds = foldl (\<lambda>n d. 16 * n + hex_digit_value d) 0 ds"

lemma hex_digit: "n < 16 \<Longrightarrow> hex_digit_value (hex_digits ! n) = n"
proof -
  assume "n < 16"
  moreover have "\<forall>n \<in> set [0..<16]. hex_digit_value (hex_digits ! n) = n" by code_simp
  ultimately show ?thesis by auto
qed

lemma nibble: "unat (drop_bit k v AND (0xF :: u64)) = unat v div 2 ^ k mod 16"
proof -
  have "(0xF :: u64) = mask 4" by (simp add: mask_eq_exp_minus_1)
  moreover have "unat v < 18446744073709551616" using unat_bound [of v] by simp
  ultimately show ?thesis
    by (simp only: take_bit_eq_mask [symmetric] unsigned_take_bit_eq unsigned_drop_bit_eq)
       (simp add: take_bit_eq_mod drop_bit_eq_div)
qed

lemma hex_prefix:
  "n \<le> 16 \<Longrightarrow> hex_value (map (\<lambda>i. hex_digits ! unat (drop_bit (60 - i * 4) v AND 0xF)) [0..<n]) = unat (v :: u64) div 2 ^ (64 - 4 * n)"
proof (induction n)
  case 0
  have "unat v < 2 ^ 64" using unat_bound [of v] by simp
  then show ?case by (simp add: hex_value_def)
next
  case (Suc n)
  let ?m = "60 - n * 4"
  have e: "64 - 4 * n = 4 + ?m" "64 - 4 * Suc n = ?m" using Suc.prems by auto
  have "hex_value (map (\<lambda>i. hex_digits ! unat (drop_bit (60 - i * 4) v AND 0xF)) [0..<Suc n])
      = 16 * (unat v div 2 ^ (4 + ?m)) + unat v div 2 ^ ?m mod 16"
    using Suc by (simp add: hex_value_def hex_digit nibble e(1))
  also have "unat v div 2 ^ (4 + ?m) = unat v div 2 ^ ?m div 16" by (simp add: power_add div_mult2_eq [symmetric] mult.commute)
  finally show ?case unfolding e(2) by simp
qed

text \<open>A number in a report is its 16 hexadecimal digits behind \<open>0x\<close>, and the digits read back as the
  number.\<close>

theorem hex64_roundtrip:
  "length (hex64 v) = 18 \<and> take 2 (hex64 v) = cs ''0x'' \<and> hex_value (drop 2 (hex64 v)) = unat v"
  using hex_prefix [of 16 v] by (simp add: hex64_def)

text \<open>C10. The dispatch returns for the timer and the keyboard only, after exactly one end of interrupt to
  the first controller; the timer's tick is counted once, the keyboard's byte goes to the decoder and
  the interrupted frame is untouched. Every other vector stops the processor, without an end of
  interrupt.\<close>

theorem interrupt_dispatch_cases:
  assumes "kb_ok (k_kb k)"
  shows "(vector f = 32 \<longrightarrow> (\<exists>k' g. arch_interrupt_dispatch k cr2 f = Some (Inr (k', g))
        \<and> g_ticks (k_pit k') = g_ticks (k_pit k) + 1 \<and> io_out (k_io k') = io_out (k_io k) @ [(0x20, 0x20)]))
    \<and> (vector f = 33 \<longrightarrow> (\<exists>k'. arch_interrupt_dispatch k cr2 f = Some (Inr (k', f))
        \<and> k_kb k' = keyboard_handle_irq (k_kb k) (snd (inb (k_io k) 0x60)) \<and> io_out (k_io k') = io_out (k_io k) @ [(0x20, 0x20)]))
    \<and> (vector f \<noteq> 32 \<and> vector f \<noteq> 33 \<longrightarrow> (\<exists>k'. arch_interrupt_dispatch k cr2 f = Some (Inl k') \<and> k_io k' = k_io k))"
proof (intro conjI impI)
  assume v: "vector f = 32"
  let ?k = "k\<lparr>k_pit := pit_handle_irq (k_pit k)\<rparr>"
  obtain k1 g where t: "scheduler_on_timer ?k f = Some (k1, g)" "k_pit k1 = k_pit ?k" "k_io k1 = k_io ?k"
    using timer_returns [of ?k f] assms by auto
  then show "\<exists>k' g. arch_interrupt_dispatch k cr2 f = Some (Inr (k', g))
        \<and> g_ticks (k_pit k') = g_ticks (k_pit k) + 1 \<and> io_out (k_io k') = io_out (k_io k) @ [(0x20, 0x20)]"
    using v by (simp add: arch_interrupt_dispatch_def k_eoi_def pic_send_eoi_def outb_def pit_handle_irq_def PIC1_CMD_def Let_def)
next
  assume "vector f = 33"
  then show "\<exists>k'. arch_interrupt_dispatch k cr2 f = Some (Inr (k', f))
        \<and> k_kb k' = keyboard_handle_irq (k_kb k) (snd (inb (k_io k) 0x60)) \<and> io_out (k_io k') = io_out (k_io k) @ [(0x20, 0x20)]"
    by (simp add: arch_interrupt_dispatch_def k_eoi_def pic_send_eoi_def outb_def inb_def keyboard_irq_def PIC1_CMD_def Let_def word_le_nat_alt)
next
  assume "vector f \<noteq> 32 \<and> vector f \<noteq> 33"
  then show "\<exists>k'. arch_interrupt_dispatch k cr2 f = Some (Inl k') \<and> k_io k' = k_io k"
    by (simp add: arch_interrupt_dispatch_def handle_exception_def print_frame_def Let_def)
qed

theorem interrupt_dispatch_cases_witness:
  "\<exists>k' g. arch_interrupt_dispatch running_kernel 0 (zero_frame\<lparr>vector := 32\<rparr>) = Some (Inr (k', g)) \<and> g_ticks (k_pit k') = 1"
proof -
  have "kb_ok (k_kb running_kernel)" using running_ready by (simp add: sched_ready_def)
  from interrupt_dispatch_cases [OF this, of "zero_frame\<lparr>vector := 32\<rparr>" 0] show ?thesis
    by (auto simp: running_kernel_def demo_kernel_def pit_boot_def)
qed

end
