(* ===== verification/Boot.thy ===== *)
theory Boot
  imports Scheduler Heap Shell
begin

text \<open>
  main.c: the boot sequence, the self test of the page tables and the login loop, in the default
  configuration. The answers of the boot loader and the addresses that the linker chooses are the
  record \<open>boot_info\<close>. The boot sequence ends in the login loop (\<open>Inr\<close>) or in a halted machine
  (\<open>Inl\<close>); it is \<open>None\<close> when a wait for the timer or a walk of the file system does not end.
\<close>

section \<open>The self test of the page tables\<close>

definition VMM_TEST_VADDR :: u64 where "VMM_TEST_VADDR = 0xffffff0000000000"

text \<open>A byte that the processor writes or reads through the page tables.\<close>

definition cpu_store :: "vmm \<Rightarrow> (u64 \<Rightarrow> u8) \<Rightarrow> u64 \<Rightarrow> u8 \<Rightarrow> u64 \<Rightarrow> u8" where
  "cpu_store vm mem vaddr v = mem(translate vm vaddr := v)"

definition vmm_smoke_test :: "vmm \<Rightarrow> (u64 \<Rightarrow> u8) \<Rightarrow> vmm \<times> (u64 \<Rightarrow> u8) \<times> bool" where
  "vmm_smoke_test vm mem =
    (let (fr, test_phys) = pmm_alloc_page (frames vm); vm1 = vm\<lparr>frames := fr\<rparr>
     in if test_phys = 0 then (vm1, mem, False)
        else
          (let (vm2, r) = vmm_map vm1 (vmm_kernel_space vm1) VMM_TEST_VADDR test_phys (VMM_FLAG_PRESENT OR VMM_FLAG_WRITABLE)
           in if r \<noteq> 0 then (vm2\<lparr>frames := pmm_free_page (frames vm2) test_phys\<rparr>, mem, False)
              else
                (let mem1 = cpu_store vm2 mem VMM_TEST_VADDR 0xAB;
                     mem2 = cpu_store vm2 mem1 (VMM_TEST_VADDR + 4095) 0xCD;
                     translated = vmm_translate vm2 (vmm_kernel_space vm2) VMM_TEST_VADDR;
                     ok = (translated = test_phys \<and> mem2 (translate vm2 VMM_TEST_VADDR) = 0xAB
                       \<and> mem2 (translate vm2 (VMM_TEST_VADDR + 4095)) = 0xCD);
                     vm3 = vmm_unmap vm2 (vmm_kernel_space vm2) VMM_TEST_VADDR;
                     translated_after = vmm_translate vm3 (vmm_kernel_space vm3) VMM_TEST_VADDR
                 in (vm3\<lparr>frames := pmm_free_page (frames vm3) test_phys\<rparr>, mem2, ok \<and> translated_after = 0))))"

lemma release_mem:
  assumes inv: "vmm_inv vm space tab" and unused: "\<forall>q s. tab q = Some s \<longrightarrow> s div PMM_PAGE_SIZE \<noteq> a div PMM_PAGE_SIZE"
    and a: "a div PMM_PAGE_SIZE * PMM_PAGE_SIZE + g_hhdm_offset vm \<noteq> 0"
  shows "vmm_inv (vm\<lparr>frames := pmm_free_page (frames vm) a\<rparr>) space tab"
proof -
  have "pmm_wf (pmm_free_page (frames vm) a)" using inv by (intro pmm_free_page_wf) (simp add: vmm_inv_def)
  moreover have "free_set (pmm_free_page (frames vm) a) \<subseteq> insert (a div PMM_PAGE_SIZE) (free_set (frames vm))"
    by (auto simp: free_set_free_page)
  ultimately show ?thesis using inv unused a
    unfolding vmm_inv_def tab_ok_def by (auto simp: frames_cong Let_def)
qed

lemma smoke_pages: "same_page VMM_TEST_VADDR VMM_TEST_VADDR" "same_page (VMM_TEST_VADDR + 4095) VMM_TEST_VADDR"
  "VMM_TEST_VADDR AND 0xFFF = 0" "(VMM_TEST_VADDR + 4095) AND 0xFFF = 0xFFF"
  by (simp_all add: same_page_def vpath_def VMM_TEST_VADDR_def PML4_INDEX_def PDPT_INDEX_def PD_INDEX_def PT_INDEX_def)

lemma aligned_low: "aligned a \<Longrightarrow> a AND 0xFFF = (0 :: u64)"
proof -
  assume "aligned a"
  then have "a AND 0xFFF = a AND (ADDR_MASK AND 0xFFF)" by (metis aligned_def and.assoc)
  then show ?thesis using low_bits [of "0xFFF"] by (simp add: and.commute)
qed

lemma smoke_test_spec:
  assumes "mem_ok vm" and "vmm_smoke_test vm mem = (vm', mem', ok)"
  shows "(ok \<longleftrightarrow> (\<exists>fr a. pmm_alloc_page (frames vm) = (fr, a) \<and> a \<noteq> 0
        \<and> snd (vmm_map (vm\<lparr>frames := fr\<rparr>) (g_kernel_space vm) VMM_TEST_VADDR a 3) = 0))
    \<and> mem_ok vm' \<and> free_pages vm' \<subseteq> free_pages vm \<and> g_hhdm_offset vm' = g_hhdm_offset vm \<and> (\<forall>u. translate vm' u = (if ok \<and> same_page u VMM_TEST_VADDR then 0 else translate vm u))"
proof -
  from assms(1) obtain tab where inv: "vmm_inv vm (g_kernel_space vm) tab" by (auto simp: mem_ok_def)
  obtain fr a where al: "pmm_alloc_page (frames vm) = (fr, a)" by fastforce
  let ?vm1 = "vm\<lparr>frames := fr\<rparr>"
  note m1 = alloc_mem [OF assms(1) al]
  have fl: "VMM_FLAG_PRESENT OR VMM_FLAG_WRITABLE = 3" by (simp add: VMM_FLAG_PRESENT_def VMM_FLAG_WRITABLE_def)
  have wf: "pmm_wf (frames vm)" using inv by (simp add: vmm_inv_def)
  have inv1: "vmm_inv ?vm1 (g_kernel_space ?vm1) tab"
    using vmm_inv_frames [OF inv pmm_pages.alloc_inv [OF wf al] pmm_pages.alloc_shrinks [OF wf al]] by simp
  show ?thesis
  proof (cases "a = 0")
    case True
    with assms(2) m1(1,2) show ?thesis by (auto simp: vmm_smoke_test_def al free_pages_def)
  next
    case False
    from m1(3) [OF this] have page: "a div PMM_PAGE_SIZE \<in> free_pages vm" "a div PMM_PAGE_SIZE \<notin> free_set fr" "aligned a" by auto
    obtain vm2 r where map: "vmm_map ?vm1 (g_kernel_space ?vm1) VMM_TEST_VADDR a 3 = (vm2, r)" by fastforce
    from vmm_map_leaf [OF inv1 map] obtain tab2 where t2: "vmm_inv vm2 (g_kernel_space vm2) tab2" "tables_grow tab tab2 (free_set fr)"
      "g_hhdm_offset vm2 = g_hhdm_offset vm" "g_kernel_space vm2 = g_kernel_space vm" "free_set (frames vm2) \<subseteq> free_set fr" by auto
    have give_back: "free_pages (w\<lparr>frames := pmm_free_page (frames vm2) a\<rparr>) \<subseteq> free_pages vm" for w :: vmm
      using t2(5) m1(2) page(1) by (auto simp: free_pages_def free_set_free_page)
    have unused: "\<forall>q s. tab2 q = Some s \<longrightarrow> s div PMM_PAGE_SIZE \<noteq> a div PMM_PAGE_SIZE"
      using t2(2) tab_table(4) [OF inv] page by (metis free_pages_def tables_grow_def)
    have nz: "a div PMM_PAGE_SIZE * PMM_PAGE_SIZE + g_hhdm_offset vm \<noteq> 0"
      using inv page(1) by (simp add: vmm_inv_def free_pages_def)
    note tr = map_translate [OF m1(1) map page(3)]
    have tr2: "translate vm2 u = (if r = 0 \<and> same_page u VMM_TEST_VADDR then a OR (u AND 0xFFF) else translate vm u)"
      and r: "r = 0 \<or> r = - 1" for u
      using tr(1) [of u] tr(2) by (simp_all add: VMM_FLAG_PRESENT_def)
    show ?thesis
    proof (cases "r = 0")
      case False
      then have "ok = False" "vm' = vm2\<lparr>frames := pmm_free_page (frames vm2) a\<rparr>"
        using assms(2) \<open>a \<noteq> 0\<close> map by (simp_all add: vmm_smoke_test_def al vmm_kernel_space_def fl)
      moreover have "mem_ok (vm2\<lparr>frames := pmm_free_page (frames vm2) a\<rparr>)"
        using release_mem [OF t2(1) unused] nz t2(3) by (auto simp: mem_ok_def)
      ultimately show ?thesis using False map tr2 al give_back t2(3) by simp
    next
      case True
      let ?vm3 = "vmm_unmap vm2 (g_kernel_space vm2) VMM_TEST_VADDR"
      have sp3: "g_kernel_space ?vm3 = g_kernel_space vm2" "frames ?vm3 = frames vm2" "g_hhdm_offset ?vm3 = g_hhdm_offset vm2"
        by (simp_all add: vmm_unmap_def Let_def)
      have inv3: "vmm_inv ?vm3 (g_kernel_space vm2) tab2" and tr3: "translate ?vm3 u = (if same_page u VMM_TEST_VADDR then 0 else translate vm2 u)" for u
        using unmap_translates [OF t2(1), of VMM_TEST_VADDR u] by (simp_all add: translate_def same_page_def sp3)
      have low: "translate vm2 VMM_TEST_VADDR = a" "translate vm2 (VMM_TEST_VADDR + 4095) = a OR 0xFFF"
        using tr2 True smoke_pages by simp_all
      have "a \<noteq> a OR 0xFFF"
      proof
        assume "a = a OR 0xFFF"
        then have "a AND 0xFFF = (a OR 0xFFF) AND 0xFFF" by simp
        then show False using aligned_low [OF page(3)] by (simp add: bit.conj_disj_distrib2)
      qed
      then have "ok" "vm' = ?vm3\<lparr>frames := pmm_free_page (frames ?vm3) a\<rparr>"
        using assms(2) \<open>a \<noteq> 0\<close> map True low tr3 [of VMM_TEST_VADDR] smoke_pages(1)
        by (auto simp: vmm_smoke_test_def al vmm_kernel_space_def fl cpu_store_def translate_def [symmetric] Let_def)
      moreover have "mem_ok (?vm3\<lparr>frames := pmm_free_page (frames ?vm3) a\<rparr>)"
        using release_mem [OF inv3 unused] nz t2(3) sp3 by (auto simp: mem_ok_def)
      ultimately show ?thesis using \<open>a \<noteq> 0\<close> map True tr2 tr3 al give_back t2(3) sp3 by simp
    qed
  qed
qed



section \<open>The boot sequence\<close>

record boot_info =
  bi_fb :: "(buf \<times> u64 \<times> u64 \<times> u64 \<times> u16) option"
  bi_memmap :: "memmap_entry list option"
  bi_hhdm :: "u64 option"
  bi_cr3 :: u64
  bi_kernel_stack :: u64
  bi_tss :: u64
  bi_gdt :: u64
  bi_idt :: u64
  bi_stubs :: stubs

text \<open>What the stages of the boot sequence set up. \<open>m_wakes\<close> are the interrupts to come.\<close>

record machine =
  m_log :: "u8 list"
  m_screen :: "console option"
  m_cpu :: cpu
  m_gdt :: "gdt_state option"
  m_idt :: "idt_entry list"
  m_pit :: pit
  m_io :: io
  m_wakes :: "bool list"
  m_sti :: bool
  g_boot_line :: u32
  g_boot_delay_ready :: bool
  m_vm :: vmm
  m_mem :: "u64 \<Rightarrow> u8"
  m_heap :: heap
  m_sh :: shell

definition mlog :: "machine \<Rightarrow> string \<Rightarrow> machine" where
  "mlog m s = m\<lparr>m_log := m_log m @ cs s @ [10]\<rparr>"

definition print_colored :: "machine \<Rightarrow> string \<Rightarrow> u32 \<Rightarrow> machine" where
  "print_colored m s fg = m\<lparr>m_screen := map_option (\<lambda>c. console_puts_color c (cs s) fg) (m_screen m)\<rparr>"

definition print_newline :: "machine \<Rightarrow> machine" where
  "print_newline m = m\<lparr>m_screen := map_option (\<lambda>c. console_puts c [10]) (m_screen m)\<rparr>"

definition draw_boot_logo :: "framebuffer \<Rightarrow> framebuffer" where
  "draw_boot_logo fb =
    (let logo_size = 4; box_w = img_width innovatios_logo_image * logo_size;
         x = (if box_w + 16 < fb_width fb then fb_width fb - box_w - 16 else 0)
     in fb_present (fb_draw_image fb x 8 (Some innovatios_logo_image) logo_size))"

definition boot_draw_logo :: "machine \<Rightarrow> machine" where
  "boot_draw_logo m = m\<lparr>m_screen := map_option (\<lambda>c. c\<lparr>con_fb := draw_boot_logo (con_fb c)\<rparr>) (m_screen m)\<rparr>"

definition m_sleep :: "machine \<Rightarrow> u32 \<Rightarrow> machine option" where
  "m_sleep m ms =
    map_option (\<lambda>(p, rest). m\<lparr>m_pit := p, m_wakes := rest\<rparr>) (pit_sleep_ms (m_pit m) ms (m_wakes m))"

text \<open>Without a screen nothing is reported.\<close>

definition boot_status :: "machine \<Rightarrow> string \<Rightarrow> bool \<Rightarrow> string option \<Rightarrow> machine option" where
  "boot_status m msg ok err_detail =
    (if m_screen m = None then Some m
     else
       (let m1 = (if ok then print_colored m ''[ OK ] '' CON_COLOR_GREEN else print_colored m ''[FAIL] '' CON_COLOR_RED);
            m2 = print_newline (print_colored m1 msg CON_COLOR_WHITE);
            m3 = (case err_detail of
                Some e \<Rightarrow> if ok then m2
                  else print_newline (print_colored (print_colored m2 ''       '' CON_COLOR_RED) e CON_COLOR_RED)
              | None \<Rightarrow> m2);
            m4 = (boot_draw_logo m3)\<lparr>g_boot_line := g_boot_line m3 + 1\<rparr>
        in if g_boot_delay_ready m4 then m_sleep m4 150 else Some m4))"

text \<open>The screen, the descriptor tables, the timer and the keyboard.\<close>

definition init_screen :: "boot_info \<Rightarrow> (nat \<Rightarrow> nat \<Rightarrow> cell) \<Rightarrow> machine \<Rightarrow> machine" where
  "init_screen bi cells m =
    (case bi_fb bi of
      None \<Rightarrow> m\<lparr>m_screen := None\<rparr>
    | Some (screen, w, h, pitch, bpp) \<Rightarrow>
        print_colored (print_colored
          (boot_draw_logo (m\<lparr>m_screen := Some (console_init (fb_init screen w h pitch bpp) cells)\<rparr>))
            (CHR 0x0A # ''  InnovatiOS v0.1'' @ [CHR 0x0A]) CON_COLOR_CYAN)
            (''  =========================='' @ [CHR 0x0A, CHR 0x0A]) CON_COLOR_GREY)"

definition boot_gdt :: "boot_info \<Rightarrow> machine \<Rightarrow> machine option" where
  "boot_gdt bi m =
    (let (g, cpu) = gdt_init (m_cpu m) (bi_kernel_stack bi) (bi_tss bi) (bi_gdt bi)
     in boot_status (mlog (m\<lparr>m_gdt := Some g, m_cpu := cpu\<rparr>) ''kernel: GDT initialized'') ''Global Descriptor Table (GDT)'' True None)"

definition boot_idt :: "boot_info \<Rightarrow> machine \<Rightarrow> machine option" where
  "boot_idt bi m =
    (let (idt, cpu) = idt_init (m_cpu m) (m_idt m) (bi_stubs bi) (bi_idt bi)
     in boot_status (mlog (m\<lparr>m_idt := idt, m_cpu := cpu, m_io := pic_remap (m_io m)\<rparr>) ''kernel: IDT + PIC initialized'')
          ''Interrupt Descriptor Table'' True None)"

definition boot_pit :: "machine \<Rightarrow> machine option" where
  "boot_pit m =
    (case pit_init (m_pit m) (m_io m) 100 of
      None \<Rightarrow> None
    | Some (p, io) \<Rightarrow> boot_status (mlog (m\<lparr>m_pit := p, m_io := io\<rparr>) ''kernel: PIT initialized (100 Hz)'')
        ''Programmable Interval Timer'' True None)"

definition boot_keyboard :: "machine \<Rightarrow> machine option" where
  "boot_keyboard m =
    boot_status (mlog (m\<lparr>m_io := keyboard_init (m_io m)\<rparr>) ''kernel: keyboard initialized'') ''PS/2 Keyboard driver'' True None"

definition boot_devices :: "boot_info \<Rightarrow> (nat \<Rightarrow> nat \<Rightarrow> cell) \<Rightarrow> machine \<Rightarrow> machine option" where
  "boot_devices bi cells m =
    do {
      m2 \<leftarrow> boot_status (init_screen bi cells (mlog m ''kernel: boot ok, kmain() reached'')) ''Serial port (COM1)'' True None;
      m3 \<leftarrow> boot_gdt bi m2;
      m4 \<leftarrow> boot_idt bi m3;
      m5 \<leftarrow> boot_pit m4;
      m6 \<leftarrow> boot_keyboard m5;
      Some ((mlog (m6\<lparr>m_sti := True\<rparr>) ''kernel: interrupts enabled'')\<lparr>g_boot_delay_ready := True\<rparr>)
    }"

text \<open>The memory managers; \<open>Inl\<close> is a halted machine. Memory is read for the bytes of the page
  allocator's bitmap.\<close>

definition log_pages :: "machine \<Rightarrow> machine" where
  "log_pages m = m\<lparr>m_log := m_log m @ cs ''kernel: pmm total pages: '' @ dec_digits (pmm_total_pages (frames (m_vm m)))
     @ [10] @ cs ''kernel: pmm free pages:  '' @ dec_digits (pmm_free_pages_count (frames (m_vm m))) @ [10]\<rparr>"

definition boot_memory :: "machine \<Rightarrow> memmap_entry list \<Rightarrow> u64 \<Rightarrow> u64 \<Rightarrow> u8" where
  "boot_memory m es off = (\<lambda>b. m_mem m (bitmap_region es (bitmap_bytes es) + b))"

definition boot_pmm :: "boot_info \<Rightarrow> machine \<Rightarrow> (machine + machine) option" where
  "boot_pmm bi m =
    (case (bi_memmap bi, bi_hhdm bi) of
      (Some es, Some off) \<Rightarrow>
        (case pmm_init (boot_memory m es off) es off of
          None \<Rightarrow> Some (Inl (mlog m ''pmm: FATAL - no usable region big enough for the bitmap''))
        | Some p \<Rightarrow> map_option Inr (boot_status (log_pages (m\<lparr>m_vm := (m_vm m)\<lparr>frames := p\<rparr>\<rparr>)) ''Physical Memory Manager'' True None))
    | _ \<Rightarrow> map_option Inl (boot_status (mlog m ''kernel: missing memmap or hhdm response, halting'')
        ''Physical Memory Manager'' False (Some ''Missing Limine memmap/hhdm response'')))"

definition boot_vmm :: "boot_info \<Rightarrow> u64 \<Rightarrow> machine \<Rightarrow> machine option" where
  "boot_vmm bi off m =
    (let m1 = mlog (mlog (m\<lparr>m_vm := vmm_init (m_vm m) off (bi_cr3 bi)\<rparr>)
           ''vmm: adopted existing CR3 as the kernel address space'') ''kernel: VMM initialized''
     in if m_screen m1 = None then Some m1
        else
          (let (vm, mem, ok) = vmm_smoke_test (m_vm m1) (m_mem m1)
           in boot_status (m1\<lparr>m_vm := vm, m_mem := mem\<rparr>) ''Virtual Memory Manager'' ok (if ok then None else Some ''Smoke test failed'')))"

text \<open>The 64 bytes that the test of the heap fills lie in its payload, which no header shares.\<close>

definition boot_heap :: "u64 \<Rightarrow> machine \<Rightarrow> (machine + machine) option" where
  "boot_heap off m =
    (case heap_init (frames (m_vm m)) (hdr (m_heap m)) off 64 of
      None \<Rightarrow> Some (Inl (mlog m ''heap: FATAL - could not reserve initial heap pages''))
    | Some (p, h) \<Rightarrow>
        (let m1 = mlog (mlog (m\<lparr>m_vm := (m_vm m)\<lparr>frames := p\<rparr>, m_heap := h\<rparr>) ''heap: initialized'') ''kernel: heap initialized''
         in if m_screen m1 = None then Some (Inr m1)
            else (case kmalloc h 64 of
                None \<Rightarrow> None
              | Some (h1, test) \<Rightarrow>
                  map_option Inr (boot_status (m1\<lparr>m_heap := (if test \<noteq> 0 then kfree h1 test else h1)\<rparr>) ''Kernel heap allocator''
                    (test \<noteq> 0) (if test \<noteq> 0 then None else Some ''kmalloc returned NULL'')))))"

definition boot_files :: "machine \<Rightarrow> machine option" where
  "boot_files m =
    do {
      m1 \<leftarrow> boot_status (m\<lparr>m_log := m_log m @ cs ''ata: initializing primary IDE channel...'' @ [10]\<rparr>) ''ATA PIO Storage Driver'' True None;
      (v, vfs_ret) \<leftarrow> vfs_init (sh_vfs (m_sh m1));
      let m2 = m1\<lparr>m_sh := set_vfs (m_sh m1) v\<rparr>;
      m3 \<leftarrow> (if vfs_ret = 0 then boot_status m2 ''Virtual File System & InnoFS'' True (Some ''Mounted existing FS'')
             else if vfs_ret = 1 then boot_status m2 ''Virtual File System & InnoFS'' True (Some ''Formatted new FS'')
             else boot_status m2 ''Virtual File System & InnoFS'' False (Some ''No FS found (Run mkfs)''));
      u \<leftarrow> user_init (sh_users (m_sh m3));
      boot_status (m3\<lparr>m_sh := (m_sh m3)\<lparr>sh_users := u\<rparr>\<rparr>) ''User management subsystem'' True None
    }"

definition boot_dots :: "machine \<Rightarrow> machine option" where
  "boot_dots m =
    do {
      m1 \<leftarrow> m_sleep (print_colored (print_colored m (CHR 0x0A # ''Loading GUI fonts'') CON_COLOR_WHITE) ''.'' CON_COLOR_WHITE) 600;
      m2 \<leftarrow> m_sleep (print_colored m1 ''.'' CON_COLOR_WHITE) 600;
      m3 \<leftarrow> m_sleep (print_colored m2 ''.'' CON_COLOR_WHITE) 600;
      m4 \<leftarrow> boot_status (print_newline m3) ''GUI Fonts & Assets'' True None;
      m_sleep (print_colored m4 (CHR 0x0A # ''  Boot complete. All systems operational.'' @ [CHR 0x0A, CHR 0x0A]) CON_COLOR_GREEN) 1500
    }"

text \<open>The stages up to the heap.\<close>

definition boot_core :: "boot_info \<Rightarrow> (nat \<Rightarrow> nat \<Rightarrow> cell) \<Rightarrow> machine \<Rightarrow> (machine + machine) option" where
  "boot_core bi cells m =
    do {
      m1 \<leftarrow> boot_devices bi cells m;
      r2 \<leftarrow> boot_pmm bi m1;
      (case (r2, bi_hhdm bi) of
        (Inr m2, Some off) \<Rightarrow> do { m3 \<leftarrow> boot_vmm bi off m2; boot_heap off m3 }
      | (Inr m2, None) \<Rightarrow> Some (Inl m2)
      | (Inl m2, _) \<Rightarrow> Some (Inl m2))
    }"

text \<open>\<open>Inr\<close> is the machine that enters the login loop. Without a screen there is no login, and the
  machine halts.\<close>

definition kmain_boot :: "boot_info \<Rightarrow> (nat \<Rightarrow> nat \<Rightarrow> cell) \<Rightarrow> machine \<Rightarrow> (machine + machine) option" where
  "kmain_boot bi cells m =
    do {
      r4 \<leftarrow> boot_core bi cells m;
      (case r4 of
        Inl m4 \<Rightarrow> Some (Inl m4)
      | Inr m4 \<Rightarrow> do { m5 \<leftarrow> boot_files m4; if m_screen m5 = None then Some (Inl m5) else map_option Inr (boot_dots m5) })
    }"

section \<open>What the boot sequence establishes\<close>

text \<open>A report changes the screen, the log of the timer and nothing else.\<close>

definition same_state :: "machine \<Rightarrow> machine \<Rightarrow> bool" where
  "same_state m m' \<longleftrightarrow> m_vm m' = m_vm m \<and> m_mem m' = m_mem m \<and> m_heap m' = m_heap m \<and> m_sh m' = m_sh m \<and> m_idt m' = m_idt m
     \<and> m_gdt m' = m_gdt m \<and> m_cpu m' = m_cpu m \<and> m_sti m' = m_sti m \<and> (m_screen m' = None \<longleftrightarrow> m_screen m = None)"

lemma same_state_refl [simp]: "same_state m m"
  by (simp add: same_state_def)

lemma same_state_trans: "same_state a b \<Longrightarrow> same_state b c \<Longrightarrow> same_state a c"
  by (simp add: same_state_def)

lemma same_mlog [simp]: "same_state m (mlog m s)"
  by (simp add: same_state_def mlog_def)

lemma print_same:
  "same_state m (print_colored m s c)" "same_state m (print_newline m)" "same_state m (boot_draw_logo m)"
  "same_state m (log_pages m)"
  by (simp_all add: same_state_def print_colored_def print_newline_def boot_draw_logo_def log_pages_def)

lemma sleep_same: "m_sleep m ms = Some m' \<Longrightarrow> same_state m m'"
  by (auto simp: m_sleep_def same_state_def)

lemma status_same: "boot_status m msg ok e = Some m' \<Longrightarrow> same_state m m'"
  by (auto simp: boot_status_def Let_def same_state_def print_colored_def print_newline_def boot_draw_logo_def m_sleep_def
      split: if_splits option.splits)

lemma dots_same: "boot_dots m = Some m' \<Longrightarrow> same_state m m'"
  unfolding boot_dots_def
  by (auto simp: bind_eq_Some_conv dest!: sleep_same status_same)
     (auto simp: same_state_def print_colored_def print_newline_def)

text \<open>The memory, the heap, the shell's state and the screen do not change while the devices are set up.\<close>

definition same_memory :: "machine \<Rightarrow> machine \<Rightarrow> bool" where
  "same_memory m m' \<longleftrightarrow> m_vm m' = m_vm m \<and> m_mem m' = m_mem m \<and> m_heap m' = m_heap m \<and> m_sh m' = m_sh m
     \<and> (m_screen m' = None \<longleftrightarrow> m_screen m = None)"

lemma same_memory_trans: "same_memory a b \<Longrightarrow> same_memory b c \<Longrightarrow> same_memory a c"
  by (simp add: same_memory_def)

lemma stage_same:
  "boot_gdt bi m = Some m' \<Longrightarrow> same_memory m m' \<and> m_idt m' = m_idt m"
  "boot_idt bi m = Some m' \<Longrightarrow> same_memory m m' \<and> m_idt m' = fst (idt_init (m_cpu m) (m_idt m) (bi_stubs bi) (bi_idt bi))"
  "boot_pit m = Some m' \<Longrightarrow> same_memory m m' \<and> m_idt m' = m_idt m"
  "boot_keyboard m = Some m' \<Longrightarrow> same_memory m m' \<and> m_idt m' = m_idt m"
  by (auto simp: boot_gdt_def boot_idt_def boot_pit_def boot_keyboard_def same_memory_def same_state_def mlog_def
      split: prod.splits option.splits dest!: status_same)

lemma devices_establish:
  assumes "boot_devices bi cells m = Some m'" and "length (m_idt m) = 256"
  shows "m_vm m' = m_vm m \<and> m_mem m' = m_mem m \<and> m_heap m' = m_heap m \<and> m_sh m' = m_sh m \<and> m_sti m'
    \<and> (m_screen m' = None \<longleftrightarrow> bi_fb bi = None) \<and> (\<exists>cpu idt. length idt = 256 \<and> m_idt m' = fst (idt_init cpu idt (bi_stubs bi) (bi_idt bi)))"
proof -
  let ?m1 = "init_screen bi cells (mlog m ''kernel: boot ok, kmain() reached'')"
  from assms(1) obtain m2 m3 m4 m5 m6 where s: "boot_status ?m1 ''Serial port (COM1)'' True None = Some m2"
    "boot_gdt bi m2 = Some m3" "boot_idt bi m3 = Some m4" "boot_pit m4 = Some m5" "boot_keyboard m5 = Some m6"
    and m': "m' = (mlog (m6\<lparr>m_sti := True\<rparr>) ''kernel: interrupts enabled'')\<lparr>g_boot_delay_ready := True\<rparr>"
    by (auto simp: boot_devices_def bind_eq_Some_conv)
  have s1: "m_vm ?m1 = m_vm m \<and> m_mem ?m1 = m_mem m \<and> m_heap ?m1 = m_heap m \<and> m_sh ?m1 = m_sh m \<and> m_idt ?m1 = m_idt m
      \<and> (m_screen ?m1 = None \<longleftrightarrow> bi_fb bi = None)"
    by (auto simp: init_screen_def mlog_def print_colored_def boot_draw_logo_def split: option.split)
  note same = status_same [OF s(1)] stage_same(1) [OF s(2)] stage_same(2) [OF s(3)] stage_same(3) [OF s(4)] stage_same(4) [OF s(5)]
  have "same_memory m2 m6" using same(2-5) same_memory_trans by blast
  moreover have "length (m_idt m3) = 256" using same(1,2) s1 assms(2) by (simp add: same_state_def)
  moreover have "m_idt m' = fst (idt_init (m_cpu m3) (m_idt m3) (bi_stubs bi) (bi_idt bi))"
    using same(3-5) by (simp add: m' mlog_def)
  ultimately show ?thesis using same(1) s1 by (auto simp: m' same_state_def same_memory_def mlog_def)
qed

text \<open>Without the boot loader's memory map, or without the offset of its direct map, the kernel stops
  before it touches the memory managers, the file system or the accounts: it never reaches the
  login.\<close>

theorem kmain_needs_memmap:
  assumes "kmain_boot bi cells m = Some r" and "length (m_idt m) = 256" and "bi_memmap bi = None \<or> bi_hhdm bi = None"
  shows "\<exists>m'. r = Inl m' \<and> m_vm m' = m_vm m \<and> m_heap m' = m_heap m \<and> m_sh m' = m_sh m \<and> m_mem m' = m_mem m"
proof -
  from assms(1) obtain m1 r2 where m1: "boot_devices bi cells m = Some m1" and r2: "boot_pmm bi m1 = Some r2"
    by (auto simp: kmain_boot_def boot_core_def bind_eq_Some_conv)
  have "boot_pmm bi m1 = map_option Inl (boot_status (mlog m1 ''kernel: missing memmap or hhdm response, halting'')
      ''Physical Memory Manager'' False (Some ''Missing Limine memmap/hhdm response''))"
    using assms(3) by (auto simp: boot_pmm_def split: option.split)
  with r2 obtain m2 where m2: "boot_status (mlog m1 ''kernel: missing memmap or hhdm response, halting'')
      ''Physical Memory Manager'' False (Some ''Missing Limine memmap/hhdm response'') = Some m2" "r2 = Inl m2" by auto
  then have "r = Inl m2" using assms(1) m1 r2 by (simp add: kmain_boot_def boot_core_def)
  then show ?thesis using devices_establish [OF m1 assms(2)] status_same [OF m2(1)]
    by (simp add: same_state_def mlog_def)
qed

lemma pmm_stage:
  assumes "boot_pmm bi m = Some (Inr m')" and "bi_memmap bi = Some es" and "bi_hhdm bi = Some off"
  shows "\<exists>p. pmm_init (boot_memory m es off) es off = Some p \<and> m_vm m' = (m_vm m)\<lparr>frames := p\<rparr> \<and> m_idt m' = m_idt m
    \<and> m_sti m' = m_sti m \<and> m_mem m' = m_mem m \<and> m_heap m' = m_heap m"
  using assms by (auto simp: boot_pmm_def same_state_def log_pages_def split: option.splits dest!: status_same)

lemma vmm_stage:
  assumes "boot_vmm bi off m = Some m'" and "mem_ok (vmm_init (m_vm m) off (bi_cr3 bi))"
  shows "mem_ok (m_vm m') \<and> free_pages (m_vm m') \<subseteq> free_pages (m_vm m) \<and> m_idt m' = m_idt m \<and> m_sti m' = m_sti m"
proof -
  let ?m = "mlog (mlog (m\<lparr>m_vm := vmm_init (m_vm m) off (bi_cr3 bi)\<rparr>)
    ''vmm: adopted existing CR3 as the kernel address space'') ''kernel: VMM initialized''"
  have f: "m_vm ?m = vmm_init (m_vm m) off (bi_cr3 bi)" "m_idt ?m = m_idt m" "m_sti ?m = m_sti m"
    "free_pages (vmm_init (m_vm m) off (bi_cr3 bi)) = free_pages (m_vm m)"
    by (simp_all add: mlog_def free_pages_def vmm_init_def)
  show ?thesis
  proof (cases "m_screen ?m = None")
    case True
    then have "m' = ?m" using assms(1) by (simp add: boot_vmm_def)
    then show ?thesis using f assms(2) by simp
  next
    case False
    obtain vm mem ok where t: "vmm_smoke_test (m_vm ?m) (m_mem ?m) = (vm, mem, ok)" by (metis prod.collapse)
    with False assms(1) have "boot_status (?m\<lparr>m_vm := vm, m_mem := mem\<rparr>) ''Virtual Memory Manager'' ok
        (if ok then None else Some ''Smoke test failed'') = Some m'"
      by (simp only: boot_vmm_def Let_def t prod.case if_False)
    from status_same [OF this] smoke_test_spec [OF _ t] assms(2) f show ?thesis by (simp add: same_state_def)
  qed
qed

lemma heap_stage:
  assumes "boot_heap off m = Some (Inr m')" and "mem_ok (m_vm m)" and "8 dvd unat off"
    and room: "\<forall>i \<in> free_pages (m_vm m). unat off + (unat i + 1) * 4096 < 2 ^ 64"
  shows "mem_ok (m_vm m') \<and> free_pages (m_vm m') \<subseteq> free_pages (m_vm m) \<and> m_idt m' = m_idt m \<and> m_sti m' = m_sti m
    \<and> (\<exists>lo hi bs. heap_wf lo hi (m_heap m') bs)"
proof -
  obtain p h where init: "heap_init (frames (m_vm m)) (hdr (m_heap m)) off 64 = Some (p, h)"
    using assms(1) by (auto simp: boot_heap_def split: option.splits)
  from assms(2) obtain tab where inv: "vmm_inv (m_vm m) (g_kernel_space (m_vm m)) tab" by (auto simp: mem_ok_def)
  then have wf: "pmm_wf (frames (m_vm m))" by (simp add: vmm_inv_def)
  from init obtain phys where phys: "pmm_alloc_pages (frames (m_vm m)) 64 = Some (p, phys)" "phys \<noteq> 0" "heap_head h = phys + off"
    by (auto simp: heap_init_def upd_hdr_def split: option.splits if_splits)
  then obtain k where k: "run (frames (m_vm m)) 64 k" "p = take_run (frames (m_vm m)) 64 k" "phys = k * PMM_PAGE_SIZE"
    using pmm_alloc_pages_cases [OF wf, of 64] by auto
  have p: "pmm_wf p" "free_set p \<subseteq> free_pages (m_vm m)"
    using take_run_wf [OF wf k(1)] k(2) by (auto simp: free_set_take_run free_pages_def)
  have total: "unat k + 64 \<le> 2 ^ 52"
    using k(1) wf unat_52 [of "total_pages (frames (m_vm m))"] by (simp add: run_def pmm_wf_def)
  have "k + 63 \<in> {x. \<exists>j. j < 64 \<and> x = k + j}" by (intro CollectI exI [of _ 63]) simp
  with run_set_iff [OF k(1)] have last: "k + 63 \<in> free_pages (m_vm m)" by (auto simp: free_pages_def)
  have u63: "unat (k + 63) = unat k + 63" using total by (subst unat_add_no_wrap) simp_all
  have bound: "unat off + unat k * 4096 + 64 * 4096 < 2 ^ 64" using bspec [OF room last] by (simp add: u63)
  have uphys: "unat phys = unat k * 4096" using total by (simp add: k(3) PMM_PAGE_SIZE_def unat_mult_small)
  have uhead: "unat (heap_head h) = unat phys + unat off" using bound by (simp add: phys(3)) (subst unat_add_no_wrap, simp_all add: uphys)
  have "heap_head h \<noteq> 0" using uhead phys(2) by (auto simp: unat_eq_0)
  moreover have "unat (heap_head h) + unat (64 :: u64) * 4096 < 2 ^ 64" using bound by (simp add: uhead uphys)
  ultimately obtain lo hi bs where h: "heap_wf lo hi h bs" using heap_init_wf [OF init wf _ assms(3)] by blast
  have mem: "mem_ok ((m_vm m)\<lparr>frames := p\<rparr>)"
    using vmm_inv_frames [OF inv p(1) p(2) [unfolded free_pages_def]] by (auto simp: mem_ok_def)
  let ?m = "mlog (mlog (m\<lparr>m_vm := (m_vm m)\<lparr>frames := p\<rparr>, m_heap := h\<rparr>) ''heap: initialized'') ''kernel: heap initialized''"
  have f: "m_vm ?m = (m_vm m)\<lparr>frames := p\<rparr>" "m_heap ?m = h" "m_idt ?m = m_idt m" "m_sti ?m = m_sti m" by (simp_all add: mlog_def)
  have fp: "free_pages ((m_vm m)\<lparr>frames := p\<rparr>) \<subseteq> free_pages (m_vm m)" using p(2) by (simp add: free_pages_def)
  show ?thesis
  proof (cases "m_screen ?m = None")
    case True
    then have "m' = ?m" using assms(1) by (simp add: boot_heap_def init)
    then show ?thesis using f mem h fp by auto
  next
    case False
    obtain h1 test bs1 where t: "kmalloc h 64 = Some (h1, test)" "heap_wf lo hi h1 bs1" "test = snd (alloc_list (ALIGN8 64) bs)"
      "bs1 = fst (alloc_list (ALIGN8 64) bs)" using kmalloc_refines [OF h, of 64] by auto
    let ?h = "if test \<noteq> 0 then kfree h1 test else h1"
    have "\<exists>bs2. heap_wf lo hi ?h bs2"
    proof (cases "test = 0")
      case nz: False
      from h have "tiled lo hi bs" "hi < 2 ^ 64" "0 < lo" by (simp_all add: heap_wf_def)
      from alloc_list_live [OF this, of "ALIGN8 64"] nz t(3,4) ALIGN8_dvd
      obtain n where "(test, n) \<in> live bs1" by auto
      from kfree_refines [OF t(2) this] nz show ?thesis by auto
    qed (use t(2) in auto)
    then obtain bs2 where bs2: "heap_wf lo hi ?h bs2" ..
    from False assms(1) have "boot_status (?m\<lparr>m_heap := ?h\<rparr>) ''Kernel heap allocator''
        (test \<noteq> 0) (if test \<noteq> 0 then None else Some ''kmalloc returned NULL'') = Some m'"
      by (simp only: boot_heap_def init t(1) Let_def option.case prod.case if_False)
        (auto split: option.splits)
    from status_same [OF this] f have "m_vm m' = (m_vm m)\<lparr>frames := p\<rparr>" "m_heap m' = ?h" "m_idt m' = m_idt m" "m_sti m' = m_sti m"
      by (simp_all add: same_state_def)
    then show ?thesis using mem fp bs2 by (intro conjI exI [of _ lo] exI [of _ hi] exI [of _ bs2]) simp_all
  qed
qed


section \<open>A machine without a screen\<close>

definition small_map :: "memmap_entry list" where
  "small_map = [\<lparr>me_base = 0x1000, me_length = 0x80000, me_type = 0\<rparr>]"

definition small_info :: boot_info where
  "small_info = \<lparr>bi_fb = None, bi_memmap = Some small_map, bi_hhdm = Some 65536, bi_cr3 = 0, bi_kernel_stack = 0, bi_tss = 0,
     bi_gdt = 0, bi_idt = 0, bi_stubs = \<lparr>isr = of_nat, irq0 = 32, irq1 = 33, isr_default = 255\<rparr>\<rparr>"

definition empty_cell :: cell where "empty_cell = \<lparr>cell_ch = 32, cell_fg = 0, cell_bg = 0\<rparr>"

definition bare_machine :: machine where
  "bare_machine = \<lparr>m_log = [], m_screen = None, m_cpu = undefined, m_gdt = None, m_idt = replicate 256 null_gate, m_pit = pit_boot,
     m_io = idle_io, m_wakes = [], m_sti = False, g_boot_line = 0, g_boot_delay_ready = False, m_vm = vm16, m_mem = (\<lambda>_. 0),
     m_heap = undefined, m_sh = undefined\<rparr>"

lemma small_map_ok: "memmap_ok small_map" "highest_addr small_map 0 = 0x81000" "bitmap_bytes small_map = 17"
  by (simp_all add: small_map_def usable_pages_def bitmap_bytes_def PMM_PAGE_SIZE_def)

lemma small_pages: "x \<in> usable_pages small_map - bitmap_pages small_map \<longleftrightarrow> 2 \<le> x \<and> x < (129 :: u64)"
proof -
  have "bitmap_pages small_map = {x. \<exists>j. j < (1 :: u64) \<and> x = 1 + j}"
    unfolding bitmap_pages_def small_map_ok by (simp add: small_map_def PMM_PAGE_SIZE_def LIMINE_MEMMAP_USABLE_def)
  moreover have "j < 1 \<longleftrightarrow> j = 0" for j :: u64 by (auto simp: word_less_nat_alt word_unat_eq_iff)
  moreover have "usable_pages small_map = {x. \<exists>j. j < (128 :: u64) \<and> x = 1 + j}"
    by (simp add: usable_pages_def entry_pages_def small_map_def PMM_PAGE_SIZE_def LIMINE_MEMMAP_USABLE_def)
  moreover have "(\<exists>j. j < (128 :: u64) \<and> x = 1 + j) \<longleftrightarrow> 1 \<le> x \<and> x < 129"
  proof
    assume "1 \<le> x \<and> x < 129"
    then have x: "1 \<le> unat x" "unat x < 129" by (simp_all add: word_less_nat_alt word_le_nat_alt)
    from \<open>1 \<le> x \<and> x < 129\<close> have "unat (x - 1) = unat x - 1" by (simp add: unat_sub)
    with x have "unat (x - 1) < 128" by linarith
    then have "x - 1 < 128" by (simp add: word_less_nat_alt)
    then show "\<exists>j. j < 128 \<and> x = 1 + j" by (intro exI [of _ "x - 1"]) simp
  next
    assume "\<exists>j. j < 128 \<and> x = 1 + j"
    then obtain j where j: "j < 128" "x = 1 + j" by blast
    then have "unat j < 128" by (simp add: word_less_nat_alt)
    then have "unat (1 + j) = 1 + unat j" by (subst unat_add_no_wrap) simp_all
    with j show "1 \<le> x \<and> x < 129" by (simp add: word_less_nat_alt word_le_nat_alt)
  qed
  ultimately have "x \<in> bitmap_pages small_map \<longleftrightarrow> x = 1" "x \<in> usable_pages small_map \<longleftrightarrow> 1 \<le> x \<and> x < 129"
    by simp_all
  then have "x \<in> usable_pages small_map - bitmap_pages small_map \<longleftrightarrow> (1 \<le> x \<and> x < 129) \<and> x \<noteq> 1" by blast
  also have "\<dots> \<longleftrightarrow> 2 \<le> x \<and> x < 129" by (auto simp: word_le_nat_alt word_less_nat_alt word_unat_eq_iff)
  finally show ?thesis .
qed

lemma small_pmm:
  obtains p where "pmm_init mem small_map 65536 = Some p" "pmm_wf p" "free_set p = {x. 2 \<le> x \<and> x < 129}" "total_pages p = 129"
proof -
  have "bitmap_region small_map 17 = 0x1000" by (simp add: small_map_def LIMINE_MEMMAP_USABLE_def)
  then have "pmm_init mem small_map 65536 \<noteq> None" by (simp add: pmm_init_def small_map_ok Let_def split: prod.splits)
  then obtain p where p: "pmm_init mem small_map 65536 = Some p" by blast
  from pmm_init_Some [OF small_map_ok(1) p] small_pages p that [of p] show thesis
    by (auto simp: small_map_ok PMM_PAGE_SIZE_def set_eq_iff)
qed

lemma small_tables:
  assumes "pmm_init mem small_map 65536 = Some p"
  shows "mem_ok (vmm_init (vm16\<lparr>frames := p\<rparr>) 65536 0)"
proof -
  from small_pmm [of mem] assms have p: "pmm_wf p" "free_set p = {x. 2 \<le> x \<and> x < 129}" by auto
  have "i * PMM_PAGE_SIZE + 65536 \<noteq> 0" if "i < 129" for i :: u64
  proof -
    have "unat i < 129" using that by (simp add: word_less_nat_alt)
    then have "unat (i * PMM_PAGE_SIZE) = unat i * 4096" by (simp add: PMM_PAGE_SIZE_def unat_mult_small)
    with \<open>unat i < 129\<close> have "unat (i * PMM_PAGE_SIZE + 65536) = unat i * 4096 + 65536" by (subst unat_add_no_wrap) simp_all
    then show ?thesis by (metis add_is_0 unat_0 zero_neq_numeral)
  qed
  with p have "vmm_inv (vmm_init (vm16\<lparr>frames := p\<rparr>) 65536 0) 0 [[] \<mapsto> 0]"
    unfolding vmm_inv_def tab_ok_def vm16_def vmm_init_def
    by (auto simp: aligned_def entry_at_def)
  then show ?thesis by (auto simp: mem_ok_def vmm_init_def)
qed

lemma small_boot: "\<exists>m. boot_core small_info cells bare_machine = Some (Inr m)"
proof -
  have st: "m_screen m = None \<Longrightarrow> boot_status m msg ok e = Some m" for m msg ok e by (simp add: boot_status_def)
  have lg: "m_screen (mlog m s) = m_screen m" "m_vm (mlog m s) = m_vm m" "m_heap (mlog m s) = m_heap m" for m s by (simp_all add: mlog_def)
  have "\<exists>m1. boot_devices small_info cells bare_machine = Some m1"
    by (simp add: boot_devices_def boot_gdt_def boot_idt_def boot_pit_def boot_keyboard_def init_screen_def small_info_def
        st lg pit_init_def gdt_init_def idt_init_def Let_def split: prod.split)
  then obtain m1 where m1: "boot_devices small_info cells bare_machine = Some m1" ..
  have len: "length (m_idt bare_machine) = 256" by (simp add: bare_machine_def)
  from devices_establish [OF m1 len] have scr: "m_screen m1 = None" "m_vm m1 = vm16" by (simp_all add: small_info_def bare_machine_def)
  from small_pmm [of "boot_memory m1 small_map 65536"] obtain p where p: "pmm_init (boot_memory m1 small_map 65536) small_map 65536 = Some p"
    "pmm_wf p" "free_set p = {x. 2 \<le> x \<and> x < 129}" "total_pages p = 129" by blast
  let ?m2 = "log_pages (m1\<lparr>m_vm := (m_vm m1)\<lparr>frames := p\<rparr>\<rparr>)"
  have f2: "m_screen ?m2 = None" "frames (m_vm ?m2) = p" by (simp_all add: log_pages_def scr)
  then have m2: "boot_pmm small_info m1 = Some (Inr ?m2)" by (simp add: boot_pmm_def small_info_def p(1) st)
  obtain m3 where m3: "boot_vmm small_info 65536 ?m2 = Some m3" "m_screen m3 = None" "frames (m_vm m3) = p"
    using f2 by (simp add: boot_vmm_def lg vmm_init_def)
  have "run p 64 2"
  proof -
    have "2 + j \<in> free_set p" if "j < 64" for j :: u64
    proof -
      have "unat j < 64" using that by (simp add: word_less_nat_alt)
      then have "unat (2 + j) = 2 + unat j" by (subst unat_add_no_wrap) simp_all
      then show ?thesis using \<open>unat j < 64\<close> by (simp add: p(3) word_less_nat_alt word_le_nat_alt)
    qed
    then show ?thesis by (simp add: run_def p(4) free_set_def)
  qed
  then obtain k p' where k: "run p 64 k" "pmm_alloc_pages p 64 = Some (p', k * PMM_PAGE_SIZE)"
    using pmm_alloc_pages_cases [OF p(2), of 64] by auto
  have "k + 0 \<in> {x. \<exists>j. j < 64 \<and> x = k + j}" by (intro CollectI exI [of _ 0] conjI) simp_all
  from subsetD [OF run_set_iff [OF k(1)] this] have "k + 0 \<in> free_set p" .
  then have "2 \<le> k \<and> k < 129" by (simp add: p(3))
  then have "unat (k * PMM_PAGE_SIZE) = unat k * 4096" "0 < unat k"
    by (simp_all add: PMM_PAGE_SIZE_def unat_mult_small word_less_nat_alt word_le_nat_alt)
  then have "k * PMM_PAGE_SIZE \<noteq> 0" by auto
  then have "\<exists>m4. boot_heap 65536 m3 = Some (Inr m4)"
    by (simp add: boot_heap_def heap_init_def m3(2,3) k(2) lg)
  moreover have "bi_hhdm small_info = Some 65536" by (simp add: small_info_def)
  ultimately show ?thesis by (simp add: boot_core_def m1 m2 m3(1))
qed


theorem kmain_needs_memmap_witness:
  "\<exists>m'. kmain_boot (small_info\<lparr>bi_memmap := None\<rparr>) (\<lambda>_ _. empty_cell) bare_machine = Some (Inl m')"
proof -
  have st: "m_screen m = None \<Longrightarrow> boot_status m msg ok e = Some m" for m msg ok e by (simp add: boot_status_def)
  have lg: "m_screen (mlog m s) = m_screen m" for m s by (simp add: mlog_def)
  have "\<exists>m1. boot_devices (small_info\<lparr>bi_memmap := None\<rparr>) (\<lambda>_ _. empty_cell) bare_machine = Some m1"
    by (simp add: boot_devices_def boot_gdt_def boot_idt_def boot_pit_def boot_keyboard_def init_screen_def small_info_def
        st lg pit_init_def gdt_init_def idt_init_def Let_def split: prod.split)
  then obtain m1 where m1: "boot_devices (small_info\<lparr>bi_memmap := None\<rparr>) (\<lambda>_ _. empty_cell) bare_machine = Some m1" ..
  have len: "length (m_idt bare_machine) = 256" by (simp add: bare_machine_def)
  from devices_establish [OF m1 len] have "m_screen m1 = None" by (simp add: small_info_def)
  then obtain r where r: "kmain_boot (small_info\<lparr>bi_memmap := None\<rparr>) (\<lambda>_ _. empty_cell) bare_machine = Some r"
    by (simp add: kmain_boot_def boot_core_def m1 boot_pmm_def st lg)
  from kmain_needs_memmap [OF r len] r show ?thesis by auto
qed

end
