(* ===== verification/Login.thy ===== *)
theory Login
  imports Shell_Props
begin

text \<open>
  main.c, \<open>login_loop\<close>: two lines are read, the name and the password, and a shell runs for the
  account they authenticate until its user logs out. Over the model of the shell, whose console is
  the list of what was put on it and the lines still to be typed. The loop itself never returns; its
  rounds are steps, and \<open>logins\<close> relates the states at the prompts for a name, with what was typed there.
\<close>

definition login_clear :: "shell \<Rightarrow> shell" where
  "login_clear sh = sh\<lparr>con := []\<rparr>"

text \<open>A sleep lasts as many ticks of the timer, at 100 a second.\<close>

definition login_sleep :: "shell \<Rightarrow> u32 \<Rightarrow> shell" where
  "login_sleep sh ms = sh\<lparr>sh_ticks := sh_ticks sh + ucast ms * 100 div 1000\<rparr>"

definition login_attempt :: "shell \<Rightarrow> (shell \<times> nat option) option" where
  "login_attempt sh =
    (let sh0 = puts_color (login_clear sh) newline CON_COLOR_WHITE;
         sh1 = puts_color sh0 (cs ''  === InnovatiOS ==='' @ newline @ newline) CON_COLOR_CYAN
     in do {
       (sh2, name) \<leftarrow> readline (puts_color sh1 (cs ''login: '') CON_COLOR_WHITE) USER_NAME_MAX;
       (sh3, password) \<leftarrow> readline (puts_color sh2 (cs ''password: '') CON_COLOR_WHITE) USER_NAME_MAX;
       Some (sh3, user_authenticate (sh_users sh3) name password)
     })"

definition login_round :: "nat \<Rightarrow> shell \<Rightarrow> shell option" where
  "login_round fuel sh =
    do {
      (sh1, user) \<leftarrow> login_attempt sh;
      (case user of
        Some u \<Rightarrow>
          shell_run fuel (login_sleep (puts_color sh1 (newline @ cs ''Login successful.'' @ newline) CON_COLOR_GREEN) 500) u
      | None \<Rightarrow> Some (login_sleep (puts_color sh1 (newline @ cs ''Login incorrect.'' @ newline) CON_COLOR_RED) 1500))
    }"

inductive logins :: "nat \<Rightarrow> shell \<Rightarrow> (u8 list \<times> u8 list) list \<Rightarrow> shell \<Rightarrow> bool" where
  start: "logins fuel sh [] sh"
| round: "logins fuel sh ts sh1 \<Longrightarrow> \<not> machine_reset sh1 \<Longrightarrow> typed_lines sh1 = name # password # ls \<Longrightarrow>
    login_round fuel sh1 = Some sh2 \<Longrightarrow>
    logins fuel sh (ts @ [(take (USER_NAME_MAX - 1) name, take (USER_NAME_MAX - 1) password)]) sh2"

section \<open>A session\<close>

lemma readline_keeps: "readline sh n = Some (sh', l) \<Longrightarrow> privileges w sh' = privileges w sh"
  by (auto simp: readline_def keeps split: list.splits)

lemma keeps_prompt [keeps]: "privileges w (print_prompt sh user) = privileges w sh"
  by (simp add: print_prompt_def Let_def keeps)

lemma keeps_history [keeps]: "privileges w (history_add sh cmd) = privileges w sh"
  by (simp add: history_add_def privileges_def)

lemma recall_keeps: "recall sh cmd = (sh', r) \<Longrightarrow> privileges w sh' = privileges w sh"
  by (auto simp: recall_def keeps Let_def split: if_splits)

lemma load_keeps: "shell_load_state sh user = Some sh' \<Longrightarrow> privileges w sh' = privileges w sh"
  by (auto simp: shell_load_state_def restore_state_def keeps Let_def split: if_splits prod.splits)

lemma line_keeps:
  assumes "\<not> is_admin sh user" and "user < USER_MAX" and "run_line fuel user sh line = Some sh'"
  shows "privileges user sh' = privileges user sh"
proof (cases "prog_skip_spaces line = []")
  case True
  with assms(3) show ?thesis by (simp add: run_line_def)
next
  case False
  obtain sh1 r where rc: "recall sh (prog_skip_spaces line) = (sh1, r)" by fastforce
  note k1 = recall_keeps [OF rc, of user]
  show ?thesis
  proof (cases r)
    case None
    with assms(3) False rc k1 show ?thesis by (simp add: run_line_def)
  next
    case (Some c)
    let ?x = "sh_expand_vars sh1 user c CMD_BUF_MAX"
    let ?Q = "\<lambda>s. privileges user s = privileges user sh"
    have seg: "?Q s \<Longrightarrow> process_segment fuel user s sg d = Some s' \<Longrightarrow> ?Q s'" for s sg d s'
      using unprivileged_keeps [OF _ assms(2), of s fuel sg d s'] privileges_admin [OF _ assms(2), of user s sh] assms(1) by simp
    have "run_segments (process_segment fuel user) 0 (split_semi [] ?x) (history_add sh1 ?x) = Some sh'"
      using assms(3) False by (simp add: run_line_def rc Some Let_def)
    from run_segments_keeps [where Q = ?Q, OF seg this] k1 show ?thesis by (simp add: keeps)
  qed
qed

lemma loop_keeps:
  assumes "shell_loop fuel user sh = Some sh'" and "\<not> is_admin sh user" and "user < USER_MAX"
  shows "privileges user sh' = privileges user sh"
proof -
  have "\<not> is_admin sh user \<longrightarrow> user < USER_MAX \<longrightarrow> privileges user sh' = privileges user sh"
  proof (rule shell_loop.raw_induct [where P = "\<lambda>fuel user sh sh'. \<not> is_admin sh user \<longrightarrow> user < USER_MAX \<longrightarrow>
        privileges user sh' = privileges user sh", OF _ assms(1)])
    fix loop fuel user sh sh'
    assume ih: "\<And>fuel user sh sh'. loop fuel user sh = Some sh' \<Longrightarrow>
        \<not> is_admin sh user \<longrightarrow> user < USER_MAX \<longrightarrow> privileges user sh' = privileges user sh"
      and run: "do { (sh1, line) \<leftarrow> readline (print_prompt sh user) CMD_BUF_MAX; sh2 \<leftarrow> run_line fuel user sh1 line;
          if stopped sh2 then Some sh2 else loop fuel user sh2 } = Some sh'"
    show "\<not> is_admin sh user \<longrightarrow> user < USER_MAX \<longrightarrow> privileges user sh' = privileges user sh"
    proof (intro impI)
      assume u: "\<not> is_admin sh user" "user < USER_MAX"
      from run obtain sh1 line sh2 where s: "readline (print_prompt sh user) CMD_BUF_MAX = Some (sh1, line)"
        "run_line fuel user sh1 line = Some sh2" "(if stopped sh2 then Some sh2 else loop fuel user sh2) = Some sh'"
        by (auto simp: bind_eq_Some_conv)
      have k1: "privileges user sh1 = privileges user sh" using readline_keeps [OF s(1)] by (simp add: keeps)
      then have "\<not> is_admin sh1 user" using privileges_admin [OF _ u(2)] u(1) by metis
      from line_keeps [OF this u(2) s(2)] k1 have k2: "privileges user sh2 = privileges user sh" by simp
      then have "\<not> is_admin sh2 user" using privileges_admin [OF _ u(2)] u(1) by metis
      with ih [of fuel user sh2 sh'] s(3) u(2) k2 show "privileges user sh' = privileges user sh"
        by (auto split: if_splits)
    qed
  qed
  with assms show ?thesis by simp
qed

lemma session_keeps:
  assumes "shell_run fuel sh user = Some sh'" and "\<not> is_admin sh user" and "user < USER_MAX"
  shows "privileges user sh' = privileges user sh"
proof -
  let ?sh0 = "sh\<lparr>g_shell_exit := False, g_cmd_number := 1\<rparr>"
  let ?sh2 = "shell_init_themes (set_vfs ?sh0 (vfs_set_cwd (sh_vfs ?sh0) (Some (user_home ?sh0 user))))"
  from assms(1) obtain sh3 where s: "shell_load_state ?sh2 user = Some sh3"
    "shell_loop fuel user (puts (print_motd (put_line (print_banner sh3) ''Type 'help' for a list of commands.'')) newline) = Some sh'"
    by (auto simp: shell_run_def Let_def bind_eq_Some_conv)
  let ?sh4 = "puts (print_motd (put_line (print_banner sh3) ''Type 'help' for a list of commands.'')) newline"
  have k: "privileges user ?sh4 = privileges user sh" using load_keeps [OF s(1), of user] by (simp add: keeps)
  then have "\<not> is_admin ?sh4 user" using privileges_admin [OF k assms(3)] assms(2) by simp
  from loop_keeps [OF s(2) this assms(3)] k show ?thesis by simp
qed

section \<open>Any number of sessions\<close>

lemma attempt_spec:
  assumes "login_attempt sh = Some (sh', r)" and "typed_lines sh = name # password # ls"
  shows "r = user_authenticate (sh_users sh) (take (USER_NAME_MAX - 1) name) (take (USER_NAME_MAX - 1) password)
    \<and> sh_users sh' = sh_users sh \<and> privileges w sh' = privileges w sh \<and> typed_lines sh' = ls"
  using assms by (auto simp: login_attempt_def readline_def login_clear_def puts_color_def Let_def privileges_def)

text \<open>What nobody but an administrator may change: the accounts but for the passwords of those
  without privileges, the counters, and whether the machine runs.\<close>

definition guard_at :: "buf \<Rightarrow> nat \<Rightarrow> (bool \<times> u32 \<times> u8 list \<times> bool) \<times> u64 option" where
  "guard_at b i = (role_at b i, if user_admin b i then Some (user_hash b i) else None)"

definition guarded :: "shell \<Rightarrow> ((bool \<times> u32 \<times> u8 list \<times> bool) \<times> u64 option) list \<times> u32 \<times> u32 \<times> bool" where
  "guarded sh = (map (guard_at (g_users (sh_users sh))) [0..<USER_MAX],
     g_user_count (sh_users sh), g_next_uid (sh_users sh), machine_reset sh)"

lemma guarded_slot: "guarded sh' = guarded sh \<Longrightarrow> i < USER_MAX \<Longrightarrow>
    guard_at (g_users (sh_users sh')) i = guard_at (g_users (sh_users sh)) i"
  by (simp add: guarded_def map_eq_conv)

lemma privileges_guarded:
  assumes "privileges w sh' = privileges w sh" and "\<not> is_admin sh w"
  shows "guarded sh' = guarded sh"
proof -
  let ?b' = "g_users (sh_users sh')" and ?b = "g_users (sh_users sh)"
  have "guard_at ?b' i = guard_at ?b i" if "i < USER_MAX" for i
  proof -
    have "role_at ?b' i = role_at ?b i" "i = w \<or> user_hash ?b' i = user_hash ?b i"
    proof -
      have "(role_at ?b' i, if i = w then None else Some (user_hash ?b' i)) = (role_at ?b i, if i = w then None else Some (user_hash ?b i))"
        using assms(1) that by (simp add: privileges_def Let_def map_eq_conv)
      then show "role_at ?b' i = role_at ?b i" "i = w \<or> user_hash ?b' i = user_hash ?b i" by (auto split: if_splits)
    qed
    moreover from this(1) have "user_admin ?b' i = user_admin ?b i" by (simp add: role_at_def)
    ultimately show ?thesis using assms(2) by (auto simp: guard_at_def is_admin_def)
  qed
  with assms(1) show ?thesis by (simp add: privileges_def guarded_def Let_def)
qed

definition admin_login :: "shell \<Rightarrow> u8 list \<times> u8 list \<Rightarrow> bool" where
  "admin_login sh t \<longleftrightarrow> (\<exists>i < USER_MAX. user_used (g_users (sh_users sh)) i \<and> is_admin sh i
     \<and> user_name (g_users (sh_users sh)) i = fst t \<and> user_hash (g_users (sh_users sh)) i = user_hash_password (snd t))"

lemma guarded_login:
  assumes "guarded sh' = guarded sh"
  shows "admin_login sh' t = admin_login sh t"
proof -
  let ?ok = "\<lambda>b i. user_used b i \<and> user_admin b i \<and> user_name b i = fst t \<and> user_hash b i = user_hash_password (snd t)"
  have "?ok (g_users (sh_users sh')) i = ?ok (g_users (sh_users sh)) i" if "i < USER_MAX" for i
    using guarded_slot [OF assms that] by (auto simp: guard_at_def role_at_def split: if_splits)
  then show ?thesis unfolding admin_login_def is_admin_def by blast
qed

lemma authenticate_admin:
  assumes "user_authenticate (sh_users sh) n p = Some i"
  shows "i < USER_MAX" and "is_admin sh i \<Longrightarrow> admin_login sh (n, p)"
  using assms by (auto simp: user_authenticate_def find_slot_spec named_def admin_login_def)

lemma round_guarded:
  assumes "login_round fuel sh = Some sh'" and "typed_lines sh = name # password # ls"
    and "\<not> admin_login sh (take (USER_NAME_MAX - 1) name, take (USER_NAME_MAX - 1) password)"
  shows "guarded sh' = guarded sh"
proof -
  from assms(1) obtain sh1 r where a: "login_attempt sh = Some (sh1, r)" by (auto simp: login_round_def bind_eq_Some_conv)
  note spec = attempt_spec [OF a assms(2)]
  then have g: "guarded sh1 = guarded sh" using spec by (simp add: guarded_def privileges_def Let_def)
  have same: "guarded (login_sleep (puts_color s x c) ms) = guarded s"
    "is_admin (login_sleep (puts_color s x c) ms) u = is_admin s u" for s x c ms u
    by (simp_all add: guarded_def login_sleep_def puts_color_def is_admin_def)
  show ?thesis
  proof (cases r)
    case None
    with assms(1) a have "sh' = login_sleep (puts_color sh1 (newline @ cs ''Login incorrect.'' @ newline) CON_COLOR_RED) 1500"
      by (simp add: login_round_def)
    with g same(1) show ?thesis by simp
  next
    case (Some u)
    with spec have auth: "user_authenticate (sh_users sh) (take (USER_NAME_MAX - 1) name) (take (USER_NAME_MAX - 1) password) = Some u" by simp
    with authenticate_admin [OF auth] assms(3) have u: "u < USER_MAX" "\<not> is_admin sh u" by auto
    then have "\<not> is_admin sh1 u" using spec by (simp add: is_admin_def)
    then have na: "\<not> is_admin (login_sleep (puts_color sh1 (newline @ cs ''Login successful.'' @ newline) CON_COLOR_GREEN) 500) u"
      by (simp only: same(2) not_False_eq_True)
    from assms(1) a Some have run: "shell_run fuel
        (login_sleep (puts_color sh1 (newline @ cs ''Login successful.'' @ newline) CON_COLOR_GREEN) 500) u = Some sh'"
      by (simp add: login_round_def)
    from privileges_guarded [OF session_keeps [OF run na u(1)] na] same(1) g show ?thesis by simp
  qed
qed


section \<open>A guest\<close>

definition guest_shell :: shell where
  "guest_shell = boot_shell\<lparr>
     sh_users := unmounted_users\<lparr>g_users := fill_user (\<lambda>_. 0) 0 1 (cs ''guest'') (user_hash_password (cs ''guest'')) False\<rparr>,
     typed_lines := [cs ''guest'', cs ''guest'', cs ''reboot'', cs ''logout'']\<rparr>"

declare shell_loop.simps [code]

text \<open>The guest logs in, tries to reset the machine, and logs out.\<close>

lemma guest_session: "map_option (\<lambda>s. (machine_reset s, typed_lines s)) (login_round 1 guest_shell) = Some (False, [])"
  by code_simp

lemma guest_admins: "list_all (\<lambda>i. \<not> is_admin guest_shell i) [0..<USER_MAX]" by code_simp


end
