(* ===== verification/Cube.thy ===== *)
theory Cube
  imports Framebuffer Keyboard Pit "HOL-Library.Signed_Division" "HOL-Library.Monad_Syntax"
begin

text \<open>
  userspace/programs/cube3d.c: a rotating wireframe cube. The 32-bit integers of the program are
  integers of the logic: the theorems on bounds show that no operation overflows. A division rounds
  towards zero. What happens while a frame sleeps, the scancodes that arrive and the interrupts that
  end the halts, is an argument.
\<close>

section \<open>Model\<close>

definition FP :: int where "FP = 1000"
definition CUBE_SIZE :: int where "CUBE_SIZE = 60"
definition CAMERA_DIST :: int where "CAMERA_DIST = 260"
definition PROJ_SCALE :: int where "PROJ_SCALE = 240"

definition sin1000_0_180 :: "int \<Rightarrow> int" where
  "sin1000_0_180 x = (let t = x * (180 - x) in (4 * t * FP) sdiv (40500 - t))"

definition sin1000 :: "int \<Rightarrow> int" where
  "sin1000 angle_deg =
    (let x0 = angle_deg smod 360; x = (if x0 < 0 then x0 + 360 else x0)
     in if x \<le> 180 then sin1000_0_180 x else - sin1000_0_180 (x - 180))"

definition cos1000 :: "int \<Rightarrow> int" where
  "cos1000 angle_deg = sin1000 (angle_deg + 90)"

record vec3 =
  vec_x :: int
  vec_y :: int
  vec_z :: int

definition g_cube_verts :: "vec3 list" where
  "g_cube_verts = map (\<lambda>(a, b, c). \<lparr>vec_x = a * CUBE_SIZE, vec_y = b * CUBE_SIZE, vec_z = c * CUBE_SIZE\<rparr>)
    [(-1, -1, -1), (1, -1, -1), (1, 1, -1), (-1, 1, -1), (-1, -1, 1), (1, -1, 1), (1, 1, 1), (-1, 1, 1)]"

definition g_cube_edges :: "(nat \<times> nat) list" where
  "g_cube_edges = [(0,1), (1,2), (2,3), (3,0), (4,5), (5,6), (6,7), (7,4), (0,4), (1,5), (2,6), (3,7)]"

definition rotate_xyz :: "vec3 \<Rightarrow> int \<Rightarrow> int \<Rightarrow> int \<Rightarrow> vec3" where
  "rotate_xyz v ax ay az =
    (let sx = sin1000 ax; cx = cos1000 ax; sy = sin1000 ay; cy = cos1000 ay; sz = sin1000 az; cz = cos1000 az;
         y1 = (vec_y v * cx - vec_z v * sx) sdiv FP;
         z1 = (vec_y v * sx + vec_z v * cx) sdiv FP;
         x1 = vec_x v;
         x2 = (x1 * cy + z1 * sy) sdiv FP;
         z2 = (- x1 * sy + z1 * cy) sdiv FP;
         y2 = y1;
         x3 = (x2 * cz - y2 * sz) sdiv FP;
         y3 = (x2 * sz + y2 * cz) sdiv FP;
         z3 = z2
     in \<lparr>vec_x = x3, vec_y = y3, vec_z = z3\<rparr>)"

definition project :: "vec3 \<Rightarrow> u64 \<Rightarrow> u64 \<Rightarrow> int \<times> int" where
  "project v screen_w screen_h =
    (let depth0 = vec_z v + CAMERA_DIST; depth = (if depth0 < 1 then 1 else depth0)
     in (sint (ucast (screen_w div 2) :: u32) + (vec_x v * PROJ_SCALE) sdiv depth,
         sint (ucast (screen_h div 2) :: u32) - (vec_y v * PROJ_SCALE) sdiv depth))"

definition plot :: "framebuffer \<Rightarrow> u64 \<Rightarrow> u64 \<Rightarrow> int \<Rightarrow> int \<Rightarrow> u32 \<Rightarrow> framebuffer" where
  "plot fb w h x y color =
    (if x < 0 \<or> y < 0 \<or> w \<le> of_int x \<or> h \<le> of_int y then fb else fb_put_pixel fb (of_int x) (of_int y) color)"

text \<open>The loop of \<open>draw_line\<close>, which ends at the second point.\<close>

partial_function (option) line_loop ::
  "framebuffer \<Rightarrow> u64 \<Rightarrow> u64 \<Rightarrow> int \<Rightarrow> int \<Rightarrow> int \<Rightarrow> int \<Rightarrow> int \<Rightarrow> int \<Rightarrow> int \<Rightarrow> int \<Rightarrow> int \<Rightarrow> u32 \<Rightarrow> framebuffer option" where
  "line_loop fb w h x0 y0 x1 y1 dx dy sx sy err color =
    (let fb1 = plot fb w h x0 y0 color
     in if x0 = x1 \<and> y0 = y1 then Some fb1
        else
          (let e2 = 2 * err; to_x = (dy \<le> e2); to_y = (e2 \<le> dx)
           in line_loop fb1 w h (if to_x then x0 + sx else x0) (if to_y then y0 + sy else y0) x1 y1 dx dy sx sy
                (err + (if to_x then dy else 0) + (if to_y then dx else 0)) color))"

definition draw_line :: "framebuffer \<Rightarrow> u64 \<Rightarrow> u64 \<Rightarrow> int \<times> int \<Rightarrow> int \<times> int \<Rightarrow> u32 \<Rightarrow> framebuffer option" where
  "draw_line fb w h p0 p1 color =
    (let x0 = fst p0; y0 = snd p0; x1 = fst p1; y1 = snd p1;
         dx = (if x0 < x1 then x1 - x0 else x0 - x1);
         dy = (if y0 < y1 then y0 - y1 else y1 - y0);
         sx = (if x0 < x1 then 1 else - 1);
         sy = (if y0 < y1 then 1 else - 1)
     in line_loop fb w h x0 y0 x1 y1 dx dy sx sy (dx + dy) color)"

definition cube_points :: "u64 \<Rightarrow> u64 \<Rightarrow> int \<Rightarrow> int \<Rightarrow> int \<Rightarrow> (int \<times> int) list" where
  "cube_points w h ax ay az = map (\<lambda>v. project (rotate_xyz v ax ay az) w h) g_cube_verts"

fun draw_edges :: "(nat \<times> nat) list \<Rightarrow> u64 \<Rightarrow> u64 \<Rightarrow> (int \<times> int) list \<Rightarrow> framebuffer \<Rightarrow> framebuffer option" where
  "draw_edges [] w h pts fb = Some fb"
| "draw_edges ((a, b) # es) w h pts fb =
    do { fb1 \<leftarrow> draw_line fb w h (pts ! a) (pts ! b) 0x00CFFF; draw_edges es w h pts fb1 }"

definition cube_frame :: "framebuffer \<Rightarrow> u64 \<Rightarrow> u64 \<Rightarrow> int \<Rightarrow> int \<Rightarrow> int \<Rightarrow> framebuffer option" where
  "cube_frame fb w h ax ay az =
    map_option fb_present (draw_edges g_cube_edges w h (cube_points w h ax ay az) (fb_clear fb 0))"

fun cube_loop ::
  "framebuffer \<Rightarrow> keyboard \<Rightarrow> pit \<Rightarrow> u64 \<Rightarrow> u64 \<Rightarrow> int \<Rightarrow> int \<Rightarrow> int \<Rightarrow> (u8 list \<times> bool list) list
    \<Rightarrow> (framebuffer \<times> keyboard \<times> pit) option" where
  "cube_loop fb kb p w h ax ay az sleeps =
    (if keyboard_has_char kb then
       map_option (\<lambda>(kb1, c, rest). (fb_present (fb_clear fb 0), kb1, p)) (keyboard_read_char kb [])
     else
       (case sleeps of
         [] \<Rightarrow> None
       | (scancodes, wakes) # later \<Rightarrow>
           do {
             fb1 \<leftarrow> cube_frame fb w h ax ay az;
             (p1, rest) \<leftarrow> pit_sleep_ms p 16 wakes;
             cube_loop fb1 (foldl keyboard_handle_irq kb scancodes) p1 w h
               ((ax + 2) smod 360) ((ay + 3) smod 360) ((az + 1) smod 360) later
           }))"

definition prog_cube3d :: "framebuffer \<Rightarrow> keyboard \<Rightarrow> pit \<Rightarrow> (u8 list \<times> bool list) list \<Rightarrow> (framebuffer \<times> keyboard \<times> pit) option" where
  "prog_cube3d fb kb p sleeps =
    (let width = fb_width fb; height = fb_height fb
     in cube_loop (fb_present (fb_clear fb 0)) kb p width height 0 0 0 sleeps)"

declare cube_loop.simps [simp del]

section \<open>Lines\<close>

text \<open>The walk in steps along the two axes: \<open>i\<close> of \<open>dx\<close> and \<open>j\<close> of \<open>dy\<close> have been made, as many as the
  longer axis has needed, and the point is within half a pixel of the line.\<close>

definition on_walk :: "int \<Rightarrow> int \<Rightarrow> int \<Rightarrow> int \<Rightarrow> int \<Rightarrow> bool" where
  "on_walk dx dy k i j \<longleftrightarrow> 0 \<le> i \<and> 0 \<le> j \<and> max i j = k \<and> 2 * \<bar>i * dy - j * dx\<bar> \<le> max dx dy"

definition to_x :: "int \<Rightarrow> int \<Rightarrow> int \<Rightarrow> int \<Rightarrow> bool" where
  "to_x dx dy i j \<longleftrightarrow> dy * (2 * i + 1) \<le> 2 * dx * (j + 1)"

lemma walk_swap: "on_walk dx dy k i j = on_walk dy dx k j i"
  by (auto simp: on_walk_def max.commute abs_minus_commute)

lemma major_ahead:
  assumes "on_walk dx dy k i j" and "dy \<le> dx" and "0 < dx"
  shows "j \<le> i"
proof (rule ccontr)
  assume "\<not> j \<le> i"
  then have "(i + 1) * dx \<le> j * dx" using assms(3) by (intro mult_right_mono) simp_all
  moreover have "i * dy \<le> i * dx" using assms by (intro mult_left_mono) (simp_all add: on_walk_def)
  ultimately have "i * dy + dx \<le> j * dx" by (simp add: algebra_simps)
  then show False using assms by (simp add: on_walk_def)
qed

lemma walk_step_major:
  assumes w: "on_walk dx dy k i j" and "dy \<le> dx" and "0 \<le> dy" and "k < dx"
  shows "to_x dx dy i j" and "on_walk dx dy (k + 1) (i + 1) (if to_x dy dx j i then j + 1 else j)" and "i < dx"
proof -
  have pos: "0 < dx" and ij: "j \<le> i" "i = k" using assms major_ahead [OF w assms(2)] by (auto simp: on_walk_def)
  then show "i < dx" using assms(4) by simp
  have "\<bar>i * dy - j * dx\<bar> * 2 \<le> dx" using w assms(2) by (simp add: on_walk_def)
  moreover have "\<bar>a - b\<bar> * 2 \<le> c \<Longrightarrow> 2 * a - 2 * b \<le> c \<and> 2 * b - 2 * a \<le> c" for a b c :: int by arith
  ultimately have near: "2 * (i * dy) - 2 * (j * dx) \<le> dx" "2 * (j * dx) - 2 * (i * dy) \<le> dx" by blast+
  with assms(2) show "to_x dx dy i j" by (simp add: to_x_def algebra_simps)
  have "2 * \<bar>(i + 1) * dy - j' * dx\<bar> \<le> dx" if "j' = (if to_x dy dx j i then j + 1 else j)" for j'
    using near assms(2,3) that by (auto simp: to_x_def algebra_simps abs_if split: if_splits)
  then show "on_walk dx dy (k + 1) (i + 1) (if to_x dy dx j i then j + 1 else j)"
    using w ij assms(2) by (auto simp: on_walk_def)
qed

lemma walk_step:
  assumes w: "on_walk dx dy k i j" and "0 \<le> dx" and "0 \<le> dy" and "k < max dx dy"
  shows "on_walk dx dy (k + 1) (if to_x dx dy i j then i + 1 else i) (if to_x dy dx j i then j + 1 else j)"
    and "\<not> (i = dx \<and> j = dy)"
proof -
  consider "dy \<le> dx" | "dx \<le> dy" by linarith
  then have "on_walk dx dy (k + 1) (if to_x dx dy i j then i + 1 else i) (if to_x dy dx j i then j + 1 else j) \<and> \<not> (i = dx \<and> j = dy)"
  proof cases
    case 1
    with walk_step_major [OF w] assms show ?thesis by auto
  next
    case 2
    with walk_step_major [OF w [unfolded walk_swap [of dx]]] assms show ?thesis by (auto simp: walk_swap [of dx])
  qed
  then show "on_walk dx dy (k + 1) (if to_x dx dy i j then i + 1 else i) (if to_x dy dx j i then j + 1 else j)"
    "\<not> (i = dx \<and> j = dy)" by blast+
qed

lemma walk_end_major:
  assumes "on_walk dx dy k i j" and "dy \<le> dx" and "0 \<le> dy" and "k = dx"
  shows "i = dx \<and> j = dy"
proof (cases "dx = 0")
  case False
  then have pos: "0 < dx" using assms by simp
  from major_ahead [OF assms(1,2) this] have i: "i = dx" using assms by (simp add: on_walk_def)
  have "dx * dy - j * dx = dx * (dy - j)" by (simp add: algebra_simps)
  then have "2 * \<bar>dx * dy - j * dx\<bar> = dx * (2 * \<bar>dy - j\<bar>)" using pos by (simp add: abs_mult)
  then have "dx * (2 * \<bar>dy - j\<bar>) \<le> dx * 1" using assms i by (simp add: on_walk_def)
  then have "2 * \<bar>dy - j\<bar> \<le> 1" using pos by (simp only: mult_le_cancel_left_pos)
  then have "dy = j" by presburger
  with i show ?thesis by simp
qed (use assms in \<open>auto simp: on_walk_def\<close>)

lemma walk_end:
  assumes "on_walk dx dy (max dx dy) i j" and "0 \<le> dx" and "0 \<le> dy"
  shows "i = dx \<and> j = dy"
proof (cases "dy \<le> dx")
  case False
  with walk_end_major [of dy dx _ j i] assms walk_swap [of dx dy] show ?thesis by auto
qed (use walk_end_major [OF assms(1)] assms in auto)

text \<open>The error term determines the walk.\<close>

definition walk_err :: "int \<Rightarrow> int \<Rightarrow> int \<Rightarrow> int \<Rightarrow> int" where
  "walk_err dx dy i j = dx * (j + 1) - dy * (i + 1)"

lemma walk_err_steps:
  "(- dy \<le> 2 * walk_err dx dy i j) = to_x dx dy i j" "(2 * walk_err dx dy i j \<le> dx) = to_x dy dx j i"
  by (auto simp: walk_err_def to_x_def algebra_simps)

lemma walk_err_next:
  "walk_err dx dy i j + (if xm then - dy else 0) + (if ym then dx else 0)
    = walk_err dx dy (if xm then i + 1 else i) (if ym then j + 1 else j)"
  by (simp add: walk_err_def algebra_simps)

definition paint :: "framebuffer \<Rightarrow> u64 \<Rightarrow> u64 \<Rightarrow> (int \<times> int) list \<Rightarrow> u32 \<Rightarrow> framebuffer" where
  "paint fb w h pts color = foldl (\<lambda>fb p. plot fb w h (fst p) (snd p) color) fb pts"

lemma line_loop_walk:
  fixes x0 y0 sx sy dx dy :: int
  defines "pt i j \<equiv> (x0 + sx * i, y0 + sy * j)"
  assumes "0 \<le> dx" and "0 \<le> dy" and s: "sx \<noteq> 0" "sy \<noteq> 0"
  shows "on_walk dx dy k i j \<Longrightarrow> k + int n = max dx dy \<Longrightarrow>
    \<exists>ps. line_loop fb w h (x0 + sx * i) (y0 + sy * j) (x0 + sx * dx) (y0 + sy * dy) dx (- dy) sx sy (walk_err dx dy i j) color
        = Some (paint fb w h (map (\<lambda>(i, j). pt i j) ps) color)
      \<and> length ps = Suc n \<and> ps ! 0 = (i, j) \<and> ps ! n = (dx, dy) \<and> (\<forall>m \<le> n. on_walk dx dy (k + int m) (fst (ps ! m)) (snd (ps ! m)))"
proof (induction n arbitrary: fb k i j)
  case 0
  then have "i = dx \<and> j = dy" using walk_end [OF _ assms(2,3)] by simp
  with 0 show ?case
    by (intro exI [of _ "[(i, j)]"]) (subst line_loop.simps, simp add: paint_def pt_def Let_def)
next
  case (Suc n)
  let ?i = "if to_x dx dy i j then i + 1 else i" and ?j = "if to_x dy dx j i then j + 1 else j"
  let ?fb = "plot fb w h (x0 + sx * i) (y0 + sy * j) color"
  have k: "k < max dx dy" "k + 1 + int n = max dx dy" using Suc.prems(2) by simp_all
  note step = walk_step [OF Suc.prems(1) assms(2,3) k(1)]
  from Suc.IH [OF step(1) k(2), of ?fb] obtain ps where ps:
    "line_loop ?fb w h (x0 + sx * ?i) (y0 + sy * ?j) (x0 + sx * dx) (y0 + sy * dy) dx (- dy) sx sy (walk_err dx dy ?i ?j) color
      = Some (paint ?fb w h (map (\<lambda>(i, j). pt i j) ps) color)" "length ps = Suc n" "ps ! n = (dx, dy)"
    "\<forall>m \<le> n. on_walk dx dy (k + 1 + int m) (fst (ps ! m)) (snd (ps ! m))" by blast
  have "\<not> (x0 + sx * i = x0 + sx * dx \<and> y0 + sy * j = y0 + sy * dy)" using step(2) s by simp
  moreover have "(if to_x dx dy i j then x0 + sx * i + sx else x0 + sx * i) = x0 + sx * ?i"
    "(if to_x dy dx j i then y0 + sy * j + sy else y0 + sy * j) = y0 + sy * ?j" by (simp_all add: algebra_simps)
  ultimately have "line_loop fb w h (x0 + sx * i) (y0 + sy * j) (x0 + sx * dx) (y0 + sy * dy) dx (- dy) sx sy (walk_err dx dy i j) color
      = Some (paint ?fb w h (map (\<lambda>(i, j). pt i j) ps) color)"
    using ps(1) by (subst line_loop.simps) (simp only: Let_def if_False walk_err_steps walk_err_next)
  moreover have "on_walk dx dy (k + int m) (fst (((i, j) # ps) ! m)) (snd (((i, j) # ps) ! m))" if "m \<le> Suc n" for m
    using that Suc.prems(1) ps(4) by (cases m) (auto simp: add.assoc)
  ultimately show ?case using ps(2,3)
    by (intro exI [of _ "(i, j) # ps"]) (simp add: paint_def pt_def)
qed

text \<open>The error term, doubled in the loop, is small: it does not overflow for points of a screen.\<close>

lemma walk_err_small: "on_walk dx dy k i j \<Longrightarrow> 0 \<le> dx \<Longrightarrow> 0 \<le> dy \<Longrightarrow> \<bar>walk_err dx dy i j\<bar> \<le> 2 * max dx dy"
proof -
  assume a: "on_walk dx dy k i j" "0 \<le> dx" "0 \<le> dy"
  have "\<bar>p - q\<bar> * 2 \<le> m \<Longrightarrow> \<bar>dx - dy + (q - p)\<bar> \<le> 2 * m" if "dx \<le> m" "dy \<le> m" for p q m :: int
  proof -
    assume "\<bar>p - q\<bar> * 2 \<le> m"
    then have "p - q \<le> m" "q - p \<le> m" using abs_le_D1 [of "p - q" m] abs_le_D2 [of "p - q" m] a(2) that by simp_all
    then show ?thesis using a(2,3) that by (intro abs_leI) linarith+
  qed
  from this [of "max dx dy"] have "\<bar>p - q\<bar> * 2 \<le> max dx dy \<Longrightarrow> \<bar>dx - dy + (q - p)\<bar> \<le> 2 * max dx dy" for p q by simp
  moreover have "walk_err dx dy i j = dx - dy + (j * dx - i * dy)" by (simp add: walk_err_def algebra_simps)
  ultimately show ?thesis using a(1) by (simp add: on_walk_def mult.commute)
qed

definition small_point :: "int \<times> int \<Rightarrow> bool" where
  "small_point p \<longleftrightarrow> \<bar>fst p\<bar> \<le> 2 ^ 28 \<and> \<bar>snd p\<bar> \<le> 2 ^ 28"

lemma pixel_plot:
  assumes "fb_ok fb" and "i < unat (fb_w fb)" and "j < unat (fb_h fb)" and "\<bar>x\<bar> < 2 ^ 63" and "\<bar>y\<bar> < 2 ^ 63"
  shows "pixel (plot fb (fb_w fb) (fb_h fb) x y color) i j = (if x = int i \<and> y = int j then color else pixel fb i j)"
proof (cases "x < 0 \<or> y < 0")
  case True
  then show ?thesis by (auto simp: plot_def)
next
  case False
  have n: "unat (of_int z :: u64) = nat z" if "0 \<le> z" "\<bar>z\<bar> < 2 ^ 63" for z :: int
  proof -
    from that(1) obtain m where m: "z = int m" by (rule nonneg_int_cases)
    then have "m < 2 ^ 64" using that(2) by simp
    then show ?thesis unfolding m of_int_of_nat_eq by (simp add: unat_of_nat take_bit_nat_eq_self)
  qed
  have "plot fb (fb_w fb) (fb_h fb) x y color = fb_put_pixel fb (of_int x) (of_int y) color"
    using False by (simp add: plot_def fb_put_pixel_def)
  moreover have "unat (of_int x :: u64) = nat x" "unat (of_int y :: u64) = nat y" using n False assms(4,5) by simp_all
  moreover have "i = nat x \<longleftrightarrow> x = int i" "j = nat y \<longleftrightarrow> y = int j" using False by auto
  ultimately show ?thesis using pixel_put [OF assms(1-3)] by simp
qed

lemma plot_dims [simp]:
  "fb_ok (plot fb w h x y c) = fb_ok fb" "fb_w (plot fb w h x y c) = fb_w fb" "fb_h (plot fb w h x y c) = fb_h fb"
  by (simp_all add: plot_def)

lemma paint_dims [simp]:
  "fb_ok (paint fb w h ps c) = fb_ok fb" "fb_w (paint fb w h ps c) = fb_w fb" "fb_h (paint fb w h ps c) = fb_h fb"
  unfolding paint_def by (induction ps arbitrary: fb) simp_all

lemma pixel_paint:
  assumes "fb_ok fb" and "i < unat (fb_w fb)" and "j < unat (fb_h fb)" and "\<forall>p \<in> set ps. \<bar>fst p\<bar> < 2 ^ 63 \<and> \<bar>snd p\<bar> < 2 ^ 63"
  shows "pixel (paint fb (fb_w fb) (fb_h fb) ps color) i j = (if (int i, int j) \<in> set ps then color else pixel fb i j)"
  using assms
proof (induction ps arbitrary: fb)
  case (Cons p ps)
  let ?fb = "plot fb (fb_w fb) (fb_h fb) (fst p) (snd p) color"
  have "paint fb (fb_w fb) (fb_h fb) (p # ps) color = paint ?fb (fb_w ?fb) (fb_h ?fb) ps color" by (simp add: paint_def)
  with Cons.IH [of ?fb] Cons.prems show ?case by (cases p) (auto simp: pixel_plot)
qed (simp add: paint_def)

text \<open>A point of a line, the \<open>m\<close>-th from its start: \<open>m\<close> steps away along the longer axis and at most half
  a pixel from the line along the other one.\<close>

definition line_point :: "int \<times> int \<Rightarrow> int \<times> int \<Rightarrow> nat \<Rightarrow> int \<times> int \<Rightarrow> bool" where
  "line_point p0 p1 m p \<longleftrightarrow>
    (let dx = fst p1 - fst p0; dy = snd p1 - snd p0; ex = fst p - fst p0; ey = snd p - snd p0
     in max \<bar>ex\<bar> \<bar>ey\<bar> = int m \<and> 2 * \<bar>ex * dy - ey * dx\<bar> \<le> max \<bar>dx\<bar> \<bar>dy\<bar>)"

definition line_points :: "int \<times> int \<Rightarrow> int \<times> int \<Rightarrow> (int \<times> int) list \<Rightarrow> bool" where
  "line_points p0 p1 ps \<longleftrightarrow> length ps = nat (max \<bar>fst p1 - fst p0\<bar> \<bar>snd p1 - snd p0\<bar>) + 1
     \<and> hd ps = p0 \<and> last ps = p1 \<and> (\<forall>m < length ps. line_point p0 p1 m (ps ! m))"

lemma walk_point:
  assumes "on_walk dx dy (int m) i j" and "\<bar>sx\<bar> = 1" and "\<bar>sy\<bar> = 1" and "0 \<le> dx" and "0 \<le> dy"
  shows "line_point (x0, y0) (x0 + sx * dx, y0 + sy * dy) m (x0 + sx * i, y0 + sy * j)"
proof -
  have "sx * i * (sy * dy) - sy * j * (sx * dx) = sx * sy * (i * dy - j * dx)" by (simp add: algebra_simps)
  then have "\<bar>sx * i * (sy * dy) - sy * j * (sx * dx)\<bar> = \<bar>i * dy - j * dx\<bar>" using assms(2,3) by (simp add: abs_mult)
  then show ?thesis using assms by (simp add: line_point_def on_walk_def abs_mult Let_def)
qed

lemma draw_line_spec:
  assumes "fb_ok fb" and "small_point p0" and "small_point p1"
  shows "\<exists>fb' ps. draw_line fb (fb_w fb) (fb_h fb) p0 p1 color = Some fb' \<and> line_points p0 p1 ps
    \<and> fb_ok fb' \<and> fb_w fb' = fb_w fb \<and> fb_h fb' = fb_h fb
    \<and> (\<forall>i < unat (fb_w fb). \<forall>j < unat (fb_h fb).
        pixel fb' i j = (if (int i, int j) \<in> set ps then color else pixel fb i j))"
proof -
  obtain x0 y0 x1 y1 where p: "p0 = (x0, y0)" "p1 = (x1, y1)" by fastforce
  let ?dx = "\<bar>x1 - x0\<bar>" and ?dy = "\<bar>y1 - y0\<bar>" and ?sx = "if x0 < x1 then 1 else - 1 :: int" and ?sy = "if y0 < y1 then 1 else - 1 :: int"
  let ?n = "nat (max ?dx ?dy)"
  have s: "\<bar>?sx\<bar> = 1" "\<bar>?sy\<bar> = 1" "?sx \<noteq> 0" "?sy \<noteq> 0" by simp_all
  have e: "x0 + ?sx * ?dx = x1" "y0 + ?sy * ?dy = y1" by (simp_all add: abs_if)
  have w: "on_walk ?dx ?dy 0 0 0" by (simp add: on_walk_def)
  have "0 \<le> max ?dx ?dy" by (simp add: max_def)
  then have n: "0 + int ?n = max ?dx ?dy" by (simp only: add_0 nat_0_le)
  from line_loop_walk [OF abs_ge_zero abs_ge_zero s(3,4) w n, of fb "fb_w fb" "fb_h fb" x0 y0 color] obtain ps where ps:
    "line_loop fb (fb_w fb) (fb_h fb) x0 y0 x1 y1 ?dx (- ?dy) ?sx ?sy (walk_err ?dx ?dy 0 0) color
      = Some (paint fb (fb_w fb) (fb_h fb) (map (\<lambda>(i, j). (x0 + ?sx * i, y0 + ?sy * j)) ps) color)"
    "length ps = Suc ?n" "ps ! 0 = (0, 0)" "ps ! ?n = (?dx, ?dy)"
    "\<forall>m \<le> ?n. on_walk ?dx ?dy (0 + int m) (fst (ps ! m)) (snd (ps ! m))" unfolding e by auto
  let ?ps = "map (\<lambda>(i, j). (x0 + ?sx * i, y0 + ?sy * j)) ps"
  have "(if x0 < x1 then x1 - x0 else x0 - x1) = ?dx" "(if y0 < y1 then y0 - y1 else y1 - y0) = - ?dy"
    "?dx + - ?dy = walk_err ?dx ?dy 0 0" by (simp_all add: walk_err_def)
  then have run: "draw_line fb (fb_w fb) (fb_h fb) p0 p1 color = Some (paint fb (fb_w fb) (fb_h fb) ?ps color)"
    using ps(1) by (simp only: draw_line_def p fst_conv snd_conv Let_def)
  have pt: "line_point p0 p1 m (?ps ! m)" if "m < length ?ps" for m
  proof -
    from that ps(2,5) have "on_walk ?dx ?dy (int m) (fst (ps ! m)) (snd (ps ! m))" by simp
    from walk_point [OF this s(1,2) abs_ge_zero abs_ge_zero, of x0 y0] show ?thesis
      using that unfolding p e by (simp add: split_def)
  qed
  have ne: "ps \<noteq> []" using ps(2) by auto
  then have "hd ?ps = p0" "last ?ps = p1"
    using ps(2,3,4) e p by (simp_all add: hd_conv_nth last_conv_nth split_def)
  then have lp: "line_points p0 p1 ?ps" using ps(2) pt by (simp add: line_points_def p del: nth_map)
  have "\<bar>fst q\<bar> < 2 ^ 63 \<and> \<bar>snd q\<bar> < 2 ^ 63" if "q \<in> set ?ps" for q
  proof -
    from that obtain m where m: "m < length ?ps" "q = ?ps ! m" by (auto simp: in_set_conv_nth)
    with pt have mx: "max \<bar>fst q - x0\<bar> \<bar>snd q - y0\<bar> = int m" by (simp add: line_point_def p Let_def del: nth_map)
    have far: "\<bar>a\<bar> \<le> 2 ^ 28 \<Longrightarrow> \<bar>b\<bar> \<le> 2 ^ 28 \<Longrightarrow> \<bar>b - a\<bar> \<le> 2 ^ 29" for a b :: int by (simp add: abs_le_iff)
    have "?dx \<le> 2 ^ 29" "?dy \<le> 2 ^ 29"
      using assms(2,3) unfolding small_point_def p fst_conv snd_conv by (blast intro: far)+
    then have "max ?dx ?dy \<le> 2 ^ 29" by simp
    moreover have "m \<le> ?n" using m(1) ps(2) by simp
    then have "int m \<le> int ?n" by (rule of_nat_mono)
    ultimately have "int m \<le> 2 ^ 29" using n by linarith
    with mx have "\<bar>fst q - x0\<bar> \<le> 2 ^ 29" "\<bar>snd q - y0\<bar> \<le> 2 ^ 29" by linarith+
    moreover have "\<bar>b - a\<bar> \<le> 2 ^ 29 \<Longrightarrow> \<bar>a\<bar> \<le> 2 ^ 28 \<Longrightarrow> \<bar>b\<bar> < 2 ^ 63" for a b :: int by (simp add: abs_le_iff abs_less_iff)
    ultimately show ?thesis using assms(2) unfolding small_point_def p fst_conv snd_conv by blast
  qed
  with pixel_paint [OF assms(1)] lp run assms(1) show ?thesis by (intro exI [of _ "paint fb (fb_w fb) (fb_h fb) ?ps color"] exI [of _ ?ps]) simp
qed

text \<open>C15. The loop of \<open>draw_line\<close> ends, at the second point: it plots one point for every step along the longer
  axis, from the first point to the second, each at most half a pixel from the line, and on the back
  buffer exactly those of them that lie on the screen get the colour.\<close>

theorem draw_line_bresenham:
  assumes "fb_ok fb" and "small_point p0" and "small_point p1"
  shows "\<exists>fb' ps. draw_line fb (fb_w fb) (fb_h fb) p0 p1 color = Some fb' \<and> line_points p0 p1 ps
    \<and> (\<forall>i < unat (fb_w fb). \<forall>j < unat (fb_h fb).
        pixel fb' i j = (if (int i, int j) \<in> set ps then color else pixel fb i j))"
  using draw_line_spec [OF assms] by blast

theorem draw_line_bresenham_witness:
  "\<exists>fb'. draw_line (fb_init (\<lambda>_. 0) 8 8 32 32) 8 8 (- 2, 1) (6, 5) 7 = Some fb' \<and> pixel fb' 6 5 = 7"
proof -
  let ?fb = "fb_init (\<lambda>_. 0) 8 8 32 32"
  have d: "fb_w ?fb = 8" "fb_h ?fb = 8" by (simp_all add: fb_init_def FB_MAX_WIDTH_def FB_MAX_HEIGHT_def)
  have "small_point (- 2, 1)" "small_point (6, 5)" by (simp_all add: small_point_def)
  from draw_line_bresenham [OF fb_init_ok this, of "\<lambda>_. 0" 8 8 32 32 7] obtain fb' ps where
    r: "draw_line ?fb 8 8 (- 2, 1) (6, 5) 7 = Some fb'" "line_points (- 2, 1) (6, 5) ps"
    "\<forall>i < 8. \<forall>j < 8. pixel fb' i j = (if (int i, int j) \<in> set ps then 7 else pixel ?fb i j)" by (auto simp: d)
  from r(2) have "last ps = (6, 5)" "ps \<noteq> []" by (auto simp: line_points_def)
  then have "(int 6, int 5) \<in> set ps" using last_in_set [of ps] by simp
  with r(1,3) show ?thesis by (intro exI [of _ fb']) simp
qed

section \<open>The cube\<close>

lemma sdiv_bound: "\<bar>a\<bar> \<le> b * c \<Longrightarrow> 0 < c \<Longrightarrow> \<bar>a sdiv c\<bar> \<le> (b :: int)"
proof -
  assume a: "\<bar>a\<bar> \<le> b * c" "0 < c"
  then have "\<bar>a\<bar> div c \<le> b * c div c" by (intro zdiv_mono1) simp_all
  then have "\<bar>a\<bar> div c \<le> b" using a(2) by simp
  moreover have "\<bar>a sdiv c\<bar> \<le> \<bar>a\<bar> div c" using a(2)
    by (auto simp: signed_divide_int_def abs_mult sgn_if pos_imp_zdiv_nonneg_iff)
  ultimately show ?thesis by simp
qed

lemma half_sine: "0 \<le> x \<Longrightarrow> x \<le> 180 \<Longrightarrow> 0 \<le> sin1000_0_180 x \<and> sin1000_0_180 x \<le> 1000"
proof -
  assume "0 \<le> x" "x \<le> 180"
  moreover have "\<forall>x \<in> {0..180}. 0 \<le> sin1000_0_180 x \<and> sin1000_0_180 x \<le> 1000" by code_simp
  ultimately show ?thesis by simp
qed

lemma sine_bound: "\<bar>sin1000 a\<bar> \<le> 1000"
proof -
  have "\<bar>a smod 360\<bar> < 360" by (simp add: signed_modulo_int_def abs_mult sgn_if)
  then have "0 \<le> (if a smod 360 < 0 then a smod 360 + 360 else a smod 360) \<and> (if a smod 360 < 0 then a smod 360 + 360 else a smod 360) < 360" by auto
  moreover define x where "x = (if a smod 360 < 0 then a smod 360 + 360 else a smod 360)"
  ultimately have "0 \<le> x" "x < 360" by simp_all
  then show ?thesis using half_sine [of x] half_sine [of "x - 180"]
    by (auto simp: sin1000_def x_def [symmetric] Let_def)
qed

lemma cosine_bound: "\<bar>cos1000 a\<bar> \<le> 1000"
  by (simp add: cos1000_def sine_bound)

lemma turn_bound:
  assumes "\<bar>p\<bar> \<le> P" and "\<bar>q\<bar> \<le> Q" and "\<bar>s\<bar> \<le> 1000" and "\<bar>c\<bar> \<le> 1000"
  shows "\<bar>p * c + q * s\<bar> \<le> (P + Q) * FP" and "\<bar>p * c - q * s\<bar> \<le> (P + Q) * FP" and "\<bar>- q * s + p * c\<bar> \<le> (P + Q) * FP"
proof -
  have "\<bar>p * c\<bar> \<le> P * 1000" "\<bar>q * s\<bar> \<le> Q * 1000" using assms by (auto simp: abs_mult intro!: mult_mono)
  moreover have "- q * s + p * c = p * c - q * s" "(P + Q) * FP = P * 1000 + Q * 1000" by (simp_all add: FP_def)
  moreover note abs_triangle_ineq [of "p * c" "q * s"] abs_triangle_ineq4 [of "p * c" "q * s"]
  ultimately show "\<bar>p * c + q * s\<bar> \<le> (P + Q) * FP" "\<bar>p * c - q * s\<bar> \<le> (P + Q) * FP" "\<bar>- q * s + p * c\<bar> \<le> (P + Q) * FP"
    by simp_all
qed

lemma rotate_bound:
  assumes "\<bar>vec_x v\<bar> \<le> 60" and "\<bar>vec_y v\<bar> \<le> 60" and "\<bar>vec_z v\<bar> \<le> 60"
  shows "\<bar>vec_x (rotate_xyz v ax ay az)\<bar> \<le> 300" and "\<bar>vec_y (rotate_xyz v ax ay az)\<bar> \<le> 300"
    and "\<bar>vec_z (rotate_xyz v ax ay az)\<bar> \<le> 180"
proof -
  have fp: "0 < FP" by (simp add: FP_def)
  define y1 where "y1 = (vec_y v * cos1000 ax - vec_z v * sin1000 ax) sdiv FP"
  define z1 where "z1 = (vec_y v * sin1000 ax + vec_z v * cos1000 ax) sdiv FP"
  define x2 where "x2 = (vec_x v * cos1000 ay + z1 * sin1000 ay) sdiv FP"
  have y1: "\<bar>y1\<bar> \<le> 120" unfolding y1_def
    using sdiv_bound [OF turn_bound(2) [OF assms(2,3) sine_bound cosine_bound] fp] by simp
  have z1: "\<bar>z1\<bar> \<le> 120" unfolding z1_def
    using sdiv_bound [OF turn_bound(1) [OF assms(2,3) cosine_bound sine_bound] fp] by simp
  have x2: "\<bar>x2\<bar> \<le> 180" unfolding x2_def
    using sdiv_bound [OF turn_bound(1) [OF assms(1) z1 sine_bound cosine_bound] fp] by simp
  show "\<bar>vec_x (rotate_xyz v ax ay az)\<bar> \<le> 300"
    using sdiv_bound [OF turn_bound(2) [OF x2 y1 sine_bound cosine_bound] fp]
    by (simp add: rotate_xyz_def Let_def y1_def z1_def x2_def)
  show "\<bar>vec_y (rotate_xyz v ax ay az)\<bar> \<le> 300"
    using sdiv_bound [OF turn_bound(1) [OF x2 y1 cosine_bound sine_bound] fp]
    by (simp add: rotate_xyz_def Let_def y1_def z1_def x2_def)
  show "\<bar>vec_z (rotate_xyz v ax ay az)\<bar> \<le> 180"
    using sdiv_bound [OF turn_bound(3) [OF z1 assms(1) sine_bound cosine_bound] fp]
    by (simp add: rotate_xyz_def Let_def y1_def z1_def)
qed

lemma half_screen: "(w :: u64) \<le> 1920 \<Longrightarrow> sint (ucast (w div 2) :: u32) = int (unat w div 2)"
proof -
  assume "w \<le> 1920"
  then have n: "unat w div 2 \<le> 960" by (simp add: word_le_nat_alt)
  have "(ucast (w div 2) :: u32) = of_nat (unat (w div 2))" by (rule of_nat_unat [symmetric])
  also have "unat (w div 2) = unat w div 2" by (simp add: unat_div)
  finally have "(ucast (w div 2) :: u32) = of_nat (unat w div 2)" .
  then show ?thesis using n by (simp add: signed_of_nat signed_take_bit_int_eq_self)
qed

lemma project_near:
  assumes "\<bar>vec_x v\<bar> \<le> 300" and "\<bar>vec_y v\<bar> \<le> 300" and "\<bar>vec_z v\<bar> \<le> 180" and "w \<le> 1920" and "h \<le> 1920"
  shows "\<bar>fst (project v w h) - int (unat w div 2)\<bar> \<le> 900 \<and> \<bar>snd (project v w h) - int (unat h div 2)\<bar> \<le> 900"
proof -
  let ?d = "vec_z v + CAMERA_DIST"
  have d: "80 \<le> ?d" using assms(3) by (simp add: CAMERA_DIST_def abs_le_iff)
  have "\<bar>a * PROJ_SCALE\<bar> \<le> 900 * ?d" if "\<bar>a\<bar> \<le> 300" for a
    using that d by (simp add: PROJ_SCALE_def abs_mult)
  with d have "\<bar>(vec_x v * PROJ_SCALE) sdiv ?d\<bar> \<le> 900" "\<bar>(vec_y v * PROJ_SCALE) sdiv ?d\<bar> \<le> 900"
    using assms(1,2) by (intro sdiv_bound; simp)+
  with d show ?thesis by (simp add: project_def Let_def half_screen assms(4,5))
qed

lemma verts_bound: "v \<in> set g_cube_verts \<Longrightarrow> \<bar>vec_x v\<bar> \<le> 60 \<and> \<bar>vec_y v\<bar> \<le> 60 \<and> \<bar>vec_z v\<bar> \<le> 60"
  by (auto simp: g_cube_verts_def CUBE_SIZE_def)

lemma cube_points_near:
  assumes "w \<le> 1920" and "h \<le> 1920" and "k < 8"
  shows "\<bar>fst (cube_points w h ax ay az ! k) - int (unat w div 2)\<bar> \<le> 900
    \<and> \<bar>snd (cube_points w h ax ay az ! k) - int (unat h div 2)\<bar> \<le> 900"
proof -
  have k: "k < length g_cube_verts" using assms(3) by (simp add: g_cube_verts_def)
  then have "g_cube_verts ! k \<in> set g_cube_verts" by (rule nth_mem)
  note b = verts_bound [OF this]
  show ?thesis using project_near [OF rotate_bound [of "g_cube_verts ! k"]] b assms(1,2) k
    by (simp add: cube_points_def)
qed

lemma edges_drawn:
  assumes "fb_ok fb" and "w = fb_w fb" and "h = fb_h fb"
    and "\<forall>e \<in> set es. small_point (pts ! fst e) \<and> small_point (pts ! snd e)"
  shows "\<exists>fb' lines. draw_edges es w h pts fb = Some fb' \<and> fb_ok fb' \<and> fb_w fb' = w \<and> fb_h fb' = h
    \<and> list_all2 (\<lambda>e. line_points (pts ! fst e) (pts ! snd e)) es lines
    \<and> (\<forall>i < unat w. \<forall>j < unat h. pixel fb' i j = (if (int i, int j) \<in> \<Union> (set ` set lines) then 0x00CFFF else pixel fb i j))"
  using assms
proof (induction es arbitrary: fb)
  case (Cons e es)
  from Cons.prems have "small_point (pts ! fst e)" "small_point (pts ! snd e)" by simp_all
  from draw_line_spec [OF Cons.prems(1) this, of "0x00CFFF"] obtain fb1 ps where l:
    "draw_line fb w h (pts ! fst e) (pts ! snd e) 0x00CFFF = Some fb1" "line_points (pts ! fst e) (pts ! snd e) ps"
    "fb_ok fb1" "fb_w fb1 = w" "fb_h fb1 = h"
    "\<forall>i < unat w. \<forall>j < unat h. pixel fb1 i j = (if (int i, int j) \<in> set ps then 0x00CFFF else pixel fb i j)"
    using Cons.prems(2,3) by auto
  from Cons.IH [OF l(3) l(4,5) [symmetric]] Cons.prems(4) obtain fb' lines where r:
    "draw_edges es w h pts fb1 = Some fb'" "fb_ok fb'" "fb_w fb' = w" "fb_h fb' = h"
    "list_all2 (\<lambda>e. line_points (pts ! fst e) (pts ! snd e)) es lines"
    "\<forall>i < unat w. \<forall>j < unat h. pixel fb' i j = (if (int i, int j) \<in> \<Union> (set ` set lines) then 0x00CFFF else pixel fb1 i j)"
    by auto
  show ?case using l r
    by (intro exI [of _ fb'] exI [of _ "ps # lines"]) (cases e, simp)
qed auto

lemma frame_drawn:
  assumes "fb_ok fb"
  shows "\<exists>fb' lines. cube_frame fb (fb_w fb) (fb_h fb) ax ay az = Some fb' \<and> fb_ok fb' \<and> fb_w fb' = fb_w fb \<and> fb_h fb' = fb_h fb
    \<and> list_all2 (\<lambda>e. line_points (cube_points (fb_w fb) (fb_h fb) ax ay az ! fst e) (cube_points (fb_w fb) (fb_h fb) ax ay az ! snd e))
        g_cube_edges lines
    \<and> (\<forall>i < unat (fb_w fb). \<forall>j < unat (fb_h fb).
        pixel fb' i j = (if (int i, int j) \<in> \<Union> (set ` set lines) then 0x00CFFF else 0))"
proof -
  let ?pts = "cube_points (fb_w fb) (fb_h fb) ax ay az"
  have d: "fb_w fb \<le> 1920" "fb_h fb \<le> 1920" using fb_bounds [OF assms] by (simp_all add: word_le_nat_alt)
  have near: "small_point (?pts ! k)" if "k < 8" for k
  proof -
    have "\<bar>a - int m\<bar> \<le> 900 \<Longrightarrow> m \<le> 1920 \<Longrightarrow> \<bar>a\<bar> \<le> 2 ^ 28" for a m by (simp add: abs_le_iff)
    moreover have "unat (fb_w fb) div 2 \<le> 1920" "unat (fb_h fb) div 2 \<le> 1920" using d by (simp_all add: word_le_nat_alt)
    ultimately show ?thesis using cube_points_near [OF d that] unfolding small_point_def by blast
  qed
  have "\<forall>e \<in> set g_cube_edges. fst e < 8 \<and> snd e < 8" by (simp add: g_cube_edges_def)
  with near have "\<forall>e \<in> set g_cube_edges. small_point (?pts ! fst e) \<and> small_point (?pts ! snd e)" by blast
  from edges_drawn [OF _ _ _ this, of "fb_clear fb 0" "fb_w fb" "fb_h fb"] assms obtain fb' lines where
    "draw_edges g_cube_edges (fb_w fb) (fb_h fb) ?pts (fb_clear fb 0) = Some fb'" "fb_ok fb'" "fb_w fb' = fb_w fb" "fb_h fb' = fb_h fb"
    "list_all2 (\<lambda>e. line_points (?pts ! fst e) (?pts ! snd e)) g_cube_edges lines"
    "\<forall>i < unat (fb_w fb). \<forall>j < unat (fb_h fb).
        pixel fb' i j = (if (int i, int j) \<in> \<Union> (set ` set lines) then 0x00CFFF else pixel (fb_clear fb 0) i j)" by auto
  then show ?thesis using assms
    by (intro exI [of _ "fb_present fb'"] exI [of _ lines]) (simp add: cube_frame_def clear_pixel)
qed



section \<open>The program\<close>

text \<open>A key waits at the start of a frame, now or after frames whose sleeps of \<open>ms\<close> end.\<close>

fun key_comes :: "u32 \<Rightarrow> keyboard \<Rightarrow> pit \<Rightarrow> (u8 list \<times> bool list) list \<Rightarrow> bool" where
  "key_comes ms kb p [] = keyboard_has_char kb"
| "key_comes ms kb p ((scancodes, wakes) # later) =
    (keyboard_has_char kb \<or> (case pit_sleep_ms p ms wakes of None \<Rightarrow> False
       | Some (p1, rest) \<Rightarrow> key_comes ms (foldl keyboard_handle_irq kb scancodes) p1 later))"

lemma read_waiting: "keyboard_has_char kb \<Longrightarrow> \<exists>kb1 c rest. keyboard_read_char kb [] = Some (kb1, c, rest)"
  by (simp add: keyboard_read_char_def keyboard_has_char_def keyboard_has_key_def) (subst keyboard_read_key.simps, simp split: prod.split)

definition black :: "framebuffer \<Rightarrow> bool" where
  "black fb \<longleftrightarrow> (\<forall>i < unat (fb_w fb). \<forall>j < unat (fb_h fb). pixel fb i j = 0)"

lemma cube_loop_ends:
  "fb_ok fb \<Longrightarrow> case cube_loop fb kb p (fb_w fb) (fb_h fb) ax ay az sleeps of
      None \<Rightarrow> \<not> key_comes 16 kb p sleeps | Some (fb', _) \<Rightarrow> key_comes 16 kb p sleeps \<and> black fb'"
proof (induction sleeps arbitrary: fb kb p ax ay az)
  case Nil
  then show ?case using read_waiting [of kb]
    by (subst cube_loop.simps) (auto simp: black_def clear_pixel)
next
  case (Cons s later)
  obtain scancodes wakes where s: "s = (scancodes, wakes)" by fastforce
  from frame_drawn [OF Cons.prems, of ax ay az] obtain fb1 where f:
    "cube_frame fb (fb_w fb) (fb_h fb) ax ay az = Some fb1" "fb_ok fb1" "fb_w fb1 = fb_w fb" "fb_h fb1 = fb_h fb" by blast
  show ?case
  proof (cases "keyboard_has_char kb")
    case True
    then show ?thesis using read_waiting [of kb] Cons.prems
      by (subst cube_loop.simps) (auto simp: black_def clear_pixel s)
  next
    case False
    show ?thesis
    proof (cases "pit_sleep_ms p 16 wakes")
      case None
      with False f(1) show ?thesis by (subst cube_loop.simps) (simp add: s)
    next
      case (Some pr)
      with False f(1) Cons.IH [OF f(2), of "foldl keyboard_handle_irq kb scancodes" "fst pr" "(ax + 2) smod 360" "(ay + 3) smod 360" "(az + 1) smod 360"] f(3,4)
      show ?thesis by (subst cube_loop.simps) (auto simp: s split_def split: option.splits)
    qed
  qed
qed

text \<open>The program returns if and only if a key comes, and then leaves a black screen.\<close>

theorem prog_cube3d_ends:
  assumes "fb_ok fb"
  shows "case prog_cube3d fb kb p sleeps of None \<Rightarrow> \<not> key_comes 16 kb p sleeps
    | Some (fb', _) \<Rightarrow> key_comes 16 kb p sleeps \<and> black fb'"
  using cube_loop_ends [of "fb_present (fb_clear fb 0)" kb p sleeps 0 0 0] assms
  by (simp add: prog_cube3d_def fb_width_def fb_height_def)

theorem prog_cube3d_ends_witness:
  "\<exists>r. prog_cube3d (fb_init (\<lambda>_. 0) 640 480 2560 32) kb_boot pit_boot [([], [True]), ([0x1E], [False, True])] = Some r"
proof -
  have s: "pit_sleep_ms pit_boot 16 [True] = Some (pit_boot\<lparr>g_ticks := 1\<rparr>, [])"
    "pit_sleep_ms (pit_boot\<lparr>g_ticks := 1\<rparr>) 16 [False, True] = Some (pit_boot\<lparr>g_ticks := 2\<rparr>, [])" by code_simp+
  have "keyboard_has_char (keyboard_handle_irq kb_boot 0x1E)" by code_simp
  then have "key_comes 16 kb_boot pit_boot [([], [True]), ([0x1E], [False, True])]" by (simp add: s)
  with prog_cube3d_ends [OF fb_init_ok [of "\<lambda>_. 0" 640 480 2560 32], of kb_boot pit_boot "[([], [True]), ([0x1E], [False, True])]"]
  show ?thesis by (auto split: option.splits)
qed

end
