(* ===== verification/Programs.thy ===== *)
theory Programs
  imports Cube Console Shell
begin

text \<open>
  userspace/programs/matrix.c and help.c: falling characters until a key is pressed, and the list of
  commands, which the shell's own help replaces. As for the cube, what happens during a sleep is an
  argument of \<open>prog_matrix\<close>; the state of its generator of random numbers is passed along.
\<close>

section \<open>The matrix\<close>

definition m_rand_boot :: u32 where "m_rand_boot = 123456789"

definition m_rand :: "u32 \<Rightarrow> u32 \<times> u32" where
  "m_rand m_rand_state = (let s = m_rand_state * 1103515245 + 12345 in (s, (s div 65536) mod 32768))"

definition matrix_step :: "console \<Rightarrow> u32 \<Rightarrow> console \<times> u32" where
  "matrix_step scr s =
    (let (s1, r1) = m_rand s; spaces = r1 mod 4;
         scr1 = foldl (\<lambda>scr _. console_putc scr 32) scr [0..<unat spaces];
         (s2, r2) = m_rand s1; c = ucast (r2 mod (126 - 33) + 33);
         (s3, r3) = m_rand s2;
         scr2 = console_set_color scr1 (if r3 mod 10 = 0 then CON_COLOR_WHITE else CON_COLOR_GREEN) CON_COLOR_BG
     in (console_putc scr2 c, s3))"

fun matrix_loop :: "console \<Rightarrow> keyboard \<Rightarrow> pit \<Rightarrow> u32 \<Rightarrow> (u8 list \<times> bool list) list
    \<Rightarrow> (console \<times> keyboard \<times> pit \<times> u32) option" where
  "matrix_loop scr kb p s sleeps =
    (if keyboard_has_char kb then
       map_option (\<lambda>(kb1, c, rest). (scr, kb1, p, s)) (keyboard_read_char kb [])
     else
       (case sleeps of
         [] \<Rightarrow> None
       | (scancodes, wakes) # later \<Rightarrow>
           (let (scr1, s1) = matrix_step scr s
            in do {
              (p1, rest) \<leftarrow> pit_sleep_ms p 2 wakes;
              matrix_loop scr1 (foldl keyboard_handle_irq kb scancodes) p1 s1 later
            })))"

declare matrix_loop.simps [simp del]

definition prog_matrix :: "console \<Rightarrow> keyboard \<Rightarrow> pit \<Rightarrow> u32 \<Rightarrow> (u8 list \<times> bool list) list
    \<Rightarrow> (console \<times> keyboard \<times> pit \<times> u32) option" where
  "prog_matrix scr kb p s sleeps =
    map_option (\<lambda>(scr1, kb1, p1, s1). (console_clear (console_set_color scr1 CON_COLOR_WHITE CON_COLOR_BG), kb1, p1, s1))
      (matrix_loop (console_clear scr) kb p s sleeps)"
lemma matrix_character: "33 \<le> r mod (126 - 33) + (33 :: u32) \<and> r mod (126 - 33) + 33 < 126"
proof -
  have "unat (r mod 93) < 93" by (simp add: unat_mod)
  then have "unat (r mod 93 + 33) = unat (r mod 93) + 33" by (subst unat_add_no_wrap) simp_all
  with \<open>unat (r mod 93) < 93\<close> show ?thesis by (simp add: word_le_nat_alt word_less_nat_alt)
qed

lemma wf_matrix_step: "con_wf scr \<Longrightarrow> con_wf (fst (matrix_step scr s))"
proof -
  have "con_wf scr \<Longrightarrow> con_wf (foldl (\<lambda>scr _. console_putc scr 32) scr xs)" for xs :: "nat list"
    by (induction xs arbitrary: scr) (simp_all add: wf_putc)
  then show "con_wf scr \<Longrightarrow> con_wf (fst (matrix_step scr s))"
    by (simp add: matrix_step_def Let_def split_def wf_putc wf_colors del: foldl_Cons)
qed

lemma matrix_loop_ends:
  "con_wf scr \<Longrightarrow> case matrix_loop scr kb p s sleeps of
      None \<Rightarrow> \<not> key_comes 2 kb p sleeps | Some (scr', _) \<Rightarrow> key_comes 2 kb p sleeps \<and> con_wf scr'"
proof (induction sleeps arbitrary: scr kb p s)
  case Nil
  then show ?case using read_waiting [of kb] by (subst matrix_loop.simps) auto
next
  case (Cons sw later)
  obtain scancodes wakes where sw: "sw = (scancodes, wakes)" by fastforce
  show ?case
  proof (cases "keyboard_has_char kb")
    case True
    then show ?thesis using read_waiting [of kb] Cons.prems by (subst matrix_loop.simps) (auto simp: sw)
  next
    case False
    show ?thesis
    proof (cases "pit_sleep_ms p 2 wakes")
      case None
      with False show ?thesis by (subst matrix_loop.simps) (simp add: sw split_def)
    next
      case (Some pr)
      with False Cons.IH [OF wf_matrix_step [OF Cons.prems, of s], of "foldl keyboard_handle_irq kb scancodes" "fst pr" "snd (matrix_step scr s)"]
      show ?thesis by (subst matrix_loop.simps) (auto simp: sw split_def Let_def split: option.splits)
    qed
  qed
qed

text \<open>The program returns if and only if a key comes, and leaves an empty and consistent screen.\<close>

theorem prog_matrix_ends:
  assumes "con_wf scr"
  shows "case prog_matrix scr kb p s sleeps of None \<Rightarrow> \<not> key_comes 2 kb p sleeps
    | Some (scr', _) \<Rightarrow> key_comes 2 kb p sleeps \<and> con_wf scr' \<and> cur_row scr' = 0 \<and> cur_col scr' = 0
        \<and> (\<forall>r < unat (con_rows scr'). \<forall>c < unat (con_cols scr'). cell_ch (con_cells scr' r c) = 32)"
proof -
  have blank: "cur_row (console_clear scr') = 0 \<and> cur_col (console_clear scr') = 0
      \<and> (\<forall>r < unat (con_rows (console_clear scr')). \<forall>c < unat (con_cols (console_clear scr')).
          cell_ch (con_cells (console_clear scr') r c) = 32)" for scr'
    by (simp add: console_clear_def cells_clear_def blank_cell_def Let_def)
  show ?thesis using matrix_loop_ends [OF wf_clear [OF assms], of kb p sleeps s]
    by (auto simp: prog_matrix_def wf_clear wf_colors blank split: option.splits)
qed

section \<open>The list of commands\<close>

definition help_lines :: "string list" where
  "help_lines = [
    ''  help      - Show this help message'',
    ''  whoami    - Print current user'',
    ''  users     - List all users (admin only)'',
    ''  adduser   - Add a user: adduser <name> <pass> (admin only)'',
    ''  clear     - Clear the screen'',
    ''  uname     - Print OS information'',
    ''  uptime    - Print system uptime'',
    ''  meminfo   - Print memory information'',
    ''  reboot    - Reboot the system'',
    ''  logout    - Log out'']"

definition prog_help :: "shell \<Rightarrow> nat \<Rightarrow> u8 list \<Rightarrow> shell option" where
  "prog_help sh user args =
    Some (foldl put_line (puts_color sh (cs ''Available commands:'' @ newline) CON_COLOR_CYAN) help_lines)"

end
